(* ===== verification/Prelude.thy ===== *)
theory Prelude
  imports Complex_Main "HOL-Library.Word" "HOL-Library.AList"
begin

text \<open>
  What every component of the development shares: names for the machine types of the Rust
  sources, the saturating and rounding integer operations of the standard library, hash maps
  as association lists, byte encodings of integers, and decimal printing and parsing of
  unsigned integers. No line of the repository is modelled here; the theory states what the
  language and its standard library do, together with the lemmas the components use.
\<close>

section \<open>Machine types\<close>

type_synonym byte = "8 word"
type_synonym bytes = "8 word list"
type_synonym u16 = "16 word"
type_synonym u32 = "32 word"
type_synonym u64 = "64 word"
type_synonym u128 = "128 word"

type_synonym usize = nat

text \<open>An \<^verbatim>\<open>Instant\<close> is the number of nanoseconds since the clock's origin.\<close>

type_synonym instant = nat

abbreviation secs :: "nat \<Rightarrow> nat" where
  "secs n \<equiv> n * 1000000000"

named_theorems unat_simps \<open>reading word operations as operations on natural numbers\<close>
named_theorems hm_simps \<open>lookup after an update of a hash map\<close>

section \<open>JSON values\<close>

text \<open>What \<^verbatim>\<open>serde_json::Value\<close> holds; an object lists its keys in the order the code writes them.\<close>

datatype json =
    JBool bool
  | JInt int
  | JReal real
  | JString string
  | JArray "json list"
  | JObject "(string \<times> json) list"

abbreviation JWord :: "'a::len word \<Rightarrow> json" where
  "JWord w \<equiv> JInt (uint w)"

abbreviation JNat :: "nat \<Rightarrow> json" where
  "JNat n \<equiv> JInt (int n)"

section \<open>Integer operations of the standard library\<close>

definition saturating_add :: "'a::len word \<Rightarrow> 'a word \<Rightarrow> 'a word" where
  "saturating_add a b = (if unat a + unat b < 2 ^ LENGTH('a) then a + b else - 1)"

definition saturating_sub :: "'a::len word \<Rightarrow> 'a word \<Rightarrow> 'a word" where
  "saturating_sub a b = (if b \<le> a then a - b else 0)"

definition saturating_mul :: "'a::len word \<Rightarrow> 'a word \<Rightarrow> 'a word" where
  "saturating_mul a b = (if unat a * unat b < 2 ^ LENGTH('a) then a * b else - 1)"

text \<open>\<^verbatim>\<open>u64::div_ceil\<close>: quotient and remainder, one more when the remainder is not zero.\<close>

definition div_ceil :: "'a::len word \<Rightarrow> 'a word \<Rightarrow> 'a word" where
  "div_ceil a b = (if a mod b > 0 \<and> b > 0 then a div b + 1 else a div b)"

section \<open>Hash maps\<close>

text \<open>
  A \<^verbatim>\<open>HashMap\<close> is an association list whose keys are distinct. Its order stands for the
  iteration order, which the sources never rely on: wherever they iterate they fold a
  commutative operation or sort afterwards.
\<close>

type_synonym ('k, 'v) hashmap = "('k \<times> 'v) list"

definition hm_wf :: "('k, 'v) hashmap \<Rightarrow> bool" where
  "hm_wf m = distinct (map fst m)"

definition hm_get :: "('k, 'v) hashmap \<Rightarrow> 'k \<Rightarrow> 'v option" where
  "hm_get m k = map_of m k"

definition hm_contains :: "('k, 'v) hashmap \<Rightarrow> 'k \<Rightarrow> bool" where
  "hm_contains m k = (hm_get m k \<noteq> None)"

definition hm_insert :: "'k \<Rightarrow> 'v \<Rightarrow> ('k, 'v) hashmap \<Rightarrow> ('k, 'v) hashmap" where
  "hm_insert k v m = AList.update k v m"

definition hm_remove :: "'k \<Rightarrow> ('k, 'v) hashmap \<Rightarrow> ('k, 'v) hashmap" where
  "hm_remove k m = AList.delete k m"

section \<open>Strings\<close>

text \<open>A string is the list of its UTF-8 code units, so its bytes are the characters' codes.\<close>

definition as_bytes :: "string \<Rightarrow> bytes" where
  "as_bytes s = map (\<lambda>c. of_nat (of_char c)) s"

section \<open>Bytes of integers\<close>

text \<open>\<^verbatim>\<open>to_le_bytes\<close>, \<^verbatim>\<open>from_le_bytes\<close> and their big-endian variants, for \<open>k\<close> bytes.\<close>

fun nat_le :: "nat \<Rightarrow> nat \<Rightarrow> bytes" where
  "nat_le 0 n = []"
| "nat_le (Suc k) n = of_nat n # nat_le k (n div 256)"

fun le_nat :: "bytes \<Rightarrow> nat" where
  "le_nat [] = 0"
| "le_nat (b # bs) = unat b + 256 * le_nat bs"

definition to_le_bytes :: "nat \<Rightarrow> 'a::len word \<Rightarrow> bytes" where
  "to_le_bytes k w = nat_le k (unat w)"

definition from_le_bytes :: "bytes \<Rightarrow> 'a::len word" where
  "from_le_bytes bs = of_nat (le_nat bs)"

definition to_be_bytes :: "nat \<Rightarrow> 'a::len word \<Rightarrow> bytes" where
  "to_be_bytes k w = rev (to_le_bytes k w)"

section \<open>Decimal and hexadecimal text\<close>

text \<open>
  \<^verbatim>\<open>to_string\<close> and \<^verbatim>\<open>str::parse\<close> on unsigned integers. The parser takes an optional
  leading plus sign, then at least one digit; anything else, and a value past the type's
  maximum, is an error.
\<close>

definition digit_char :: "nat \<Rightarrow> char" where
  "digit_char d = char_of (48 + d)"

definition char_digit :: "char \<Rightarrow> nat option" where
  "char_digit c = (let n = of_char c in if 48 \<le> n \<and> n \<le> 57 then Some (n - 48) else None)"

fun nat_to_dec :: "nat \<Rightarrow> string" where
  "nat_to_dec n = (if n < 10 then [digit_char n] else nat_to_dec (n div 10) @ [digit_char (n mod 10)])"

declare nat_to_dec.simps [simp del]

fun parse_digits :: "nat \<Rightarrow> string \<Rightarrow> nat option" where
  "parse_digits acc [] = Some acc"
| "parse_digits acc (c # cs) =
     (case char_digit c of None \<Rightarrow> None | Some d \<Rightarrow> parse_digits (10 * acc + d) cs)"

definition uint_to_string :: "'a::len word \<Rightarrow> string" where
  "uint_to_string w = nat_to_dec (unat w)"

definition uint_from_str :: "string \<Rightarrow> 'a::len word option" where
  "uint_from_str s =
     (let ds = (if take 1 s = ''+'' then drop 1 s else s) in
      if ds = [] then None
      else case parse_digits 0 ds of
             None \<Rightarrow> None
           | Some n \<Rightarrow> if n < 2 ^ LENGTH('a) then Some (of_nat n) else None)"

text \<open>\<^verbatim>\<open>trim_start_matches("0x")\<close> removes every leading repetition.\<close>

fun trim_0x :: "string \<Rightarrow> string" where
  "trim_0x (a # b # s) = (if a = CHR ''0'' \<and> b = CHR ''x'' then trim_0x s else a # b # s)"
| "trim_0x s = s"

section \<open>Lemmas on integers\<close>

lemma unat_lt: "unat (w :: 'a::len word) < 2 ^ LENGTH('a)"
  by (rule unsigned_less)

lemma unat_saturating_add [unat_simps]:
  fixes a b :: "'a::len word"
  shows "unat (saturating_add a b) = min (2 ^ LENGTH('a) - 1) (unat a + unat b)"
proof (cases "unat a + unat b < 2 ^ LENGTH('a)")
  case True
  then show ?thesis by (simp add: saturating_add_def unat_word_ariths)
next
  case False
  then show ?thesis by (simp add: saturating_add_def unsigned_minus_1_eq_mask mask_eq_exp_minus_1)
qed

lemma unat_saturating_sub [unat_simps]: "unat (saturating_sub a b) = unat a - unat b"
  by (simp add: saturating_sub_def unat_sub word_le_nat_alt)

lemma unat_saturating_mul [unat_simps]:
  fixes a b :: "'a::len word"
  shows "unat (saturating_mul a b) = min (2 ^ LENGTH('a) - 1) (unat a * unat b)"
proof (cases "unat a * unat b < 2 ^ LENGTH('a)")
  case True
  then show ?thesis by (simp add: saturating_mul_def unat_word_ariths)
next
  case False
  then show ?thesis by (simp add: saturating_mul_def unsigned_minus_1_eq_mask mask_eq_exp_minus_1)
qed

lemma unat_add_bounded [unat_simps]:
  fixes a b :: "'a::len word"
  shows "unat a + unat b < 2 ^ LENGTH('a) \<Longrightarrow> unat (a + b) = unat a + unat b"
  by (simp add: unat_word_ariths)

lemma unat_ucast_up:
  fixes w :: "'a::len word"
  assumes "LENGTH('a) \<le> LENGTH('b)"
  shows "unat (ucast w :: 'b::len word) = unat w"
proof -
  have "unat w < 2 ^ LENGTH('b)"
    using unsigned_less [of w] assms by (meson less_le_trans one_le_numeral power_increasing)
  then show ?thesis by (simp add: unsigned_ucast_eq take_bit_nat_eq_self)
qed

lemma unat_min [unat_simps]: "unat (min a b) = min (unat a) (unat b)"
  by (simp add: min_def word_le_nat_alt)

lemma unat_max [unat_simps]: "unat (max a b) = max (unat a) (unat b)"
  by (simp add: max_def word_le_nat_alt)

lemma nat_div_ceil:
  fixes x y :: nat
  assumes "0 < y"
  shows "(x + y - 1) div y = (if 0 < x mod y then x div y + 1 else x div y)"
proof -
  have x: "x + y - 1 = x div y * y + (x mod y + (y - 1))"
    using assms div_mult_mod_eq [of x y] by linarith
  have "(x + y - 1) div y = x div y + (x mod y + (y - 1)) div y"
    unfolding x using assms by (simp only: div_mult_self3)
  moreover have "(x mod y + (y - 1)) div y = (if 0 < x mod y then 1 else 0)"
    using assms mod_less_divisor [OF assms, of x] by (auto simp: div_nat_eqI)
  ultimately show ?thesis by simp
qed

lemma unat_div_ceil [unat_simps]:
  fixes a b :: "'a::len word"
  assumes "0 < b"
  shows "unat (div_ceil a b) = (unat a + unat b - 1) div unat b"
proof -
  have b: "0 < unat b" using assms by (simp add: word_less_nat_alt)
  have lt: "unat a div unat b + 1 < 2 ^ LENGTH('a)" if m: "0 < unat a mod unat b"
  proof -
    have "unat b \<noteq> 1" using m by auto
    then have "1 < unat b" using b by simp
    moreover have "0 < unat a" using m by (cases "unat a = 0") auto
    ultimately have "unat a div unat b < unat a" by simp
    then show ?thesis using unat_lt [of a] by linarith
  qed
  show ?thesis
    unfolding nat_div_ceil [OF b]
    using assms b lt
    by (simp add: div_ceil_def word_less_nat_alt unat_mod unat_div unat_word_ariths)
qed

section \<open>Lemmas on hash maps\<close>

lemma hm_get_empty [simp]: "hm_get [] k = None"
  by (simp add: hm_get_def)

lemma hm_get_insert [simp, hm_simps]:
  "hm_get (hm_insert k v m) k' = (if k' = k then Some v else hm_get m k')"
  by (simp add: hm_get_def hm_insert_def update_conv')

lemma hm_get_remove [simp, hm_simps]:
  "hm_get (hm_remove k m) k' = (if k' = k then None else hm_get m k')"
  by (simp add: hm_get_def hm_remove_def delete_conv')

lemma hm_wf_empty [simp]: "hm_wf []"
  by (simp add: hm_wf_def)

lemma hm_wf_insert [simp, intro]: "hm_wf m \<Longrightarrow> hm_wf (hm_insert k v m)"
  by (simp add: hm_wf_def hm_insert_def distinct_update)

lemma hm_wf_remove [simp, intro]: "hm_wf m \<Longrightarrow> hm_wf (hm_remove k m)"
  by (simp add: hm_wf_def hm_remove_def distinct_delete)

lemma hm_get_in_set: "hm_get m k = Some v \<Longrightarrow> (k, v) \<in> set m"
  by (simp add: hm_get_def map_of_SomeD)

lemma hm_get_iff_in_set: "hm_wf m \<Longrightarrow> hm_get m k = Some v \<longleftrightarrow> (k, v) \<in> set m"
  by (simp add: hm_get_def hm_wf_def)

lemma hm_get_None_iff: "hm_get m k = None \<longleftrightarrow> k \<notin> fst ` set m"
  by (simp add: hm_get_def map_of_eq_None_iff)

lemma keys_hm_insert: "fst ` set (hm_insert k v m) = insert k (fst ` set m)"
  by (simp add: hm_insert_def dom_update)

lemma keys_hm_remove: "fst ` set (hm_remove k m) = fst ` set m - {k}"
  by (simp add: hm_remove_def delete_keys set_map flip: set_map)

lemma set_hm_insert: "set (hm_insert k v m) \<subseteq> insert (k, v) (set m)"
  unfolding hm_insert_def by (induction m) auto

lemma set_hm_remove: "set (hm_remove k m) \<subseteq> set m"
  unfolding hm_remove_def by (induction m) auto

lemma length_hm_insert:
  "length (hm_insert k v m) = (if hm_get m k = None then Suc (length m) else length m)"
  unfolding hm_insert_def hm_get_def by (induction m) auto

section \<open>Lemmas on the bytes of integers\<close>

lemma length_nat_le [simp]: "length (nat_le k n) = k"
  by (induction k n rule: nat_le.induct) auto

lemma length_to_le_bytes [simp]: "length (to_le_bytes k w) = k"
  by (simp add: to_le_bytes_def)

lemma length_to_be_bytes [simp]: "length (to_be_bytes k w) = k"
  by (simp add: to_be_bytes_def)

lemma le_nat_nat_le: "le_nat (nat_le k n) = n mod 256 ^ k"
proof (induction k n rule: nat_le.induct)
  case (2 k n)
  have "unat (of_nat n :: byte) = n mod 256" by (simp add: unat_of_nat)
  then show ?case using 2 by (simp add: mod_mult2_eq)
qed simp

lemma le_nat_bound: "le_nat bs < 256 ^ length bs"
proof (induction bs)
  case (Cons b bs)
  have "unat b < 256" using unat_lt [of b] by simp
  then show ?case using Cons by simp
qed simp

lemma nat_le_le_nat: "nat_le (length bs) (le_nat bs) = bs"
proof (induction bs)
  case (Cons b bs)
  have b: "unat b < 256" using unat_lt [of b] by simp
  have "(of_nat (unat b + 256 * le_nat bs) :: byte) = b"
  proof -
    have "(256 :: byte) = 0" by simp
    then show ?thesis by (simp only: of_nat_add of_nat_mult of_nat_numeral) simp
  qed
  then show ?case using Cons b by simp
qed simp

section \<open>Lemmas on decimal text\<close>

lemma char_digit_digit_char [simp]: "d < 10 \<Longrightarrow> char_digit (digit_char d) = Some d"
  by (simp add: char_digit_def digit_char_def)

lemma parse_digits_append:
  "parse_digits acc (xs @ ys) =
     (case parse_digits acc xs of None \<Rightarrow> None | Some a \<Rightarrow> parse_digits a ys)"
  by (induction xs arbitrary: acc) (auto split: option.splits)

lemma parse_digits_nat_to_dec: "parse_digits 0 (nat_to_dec n) = Some n"
proof (induction n rule: nat_to_dec.induct)
  case (1 n)
  then show ?case
    by (cases "n < 10") (simp_all add: nat_to_dec.simps [of n] parse_digits_append)
qed

lemma nat_to_dec_not_Nil: "nat_to_dec n \<noteq> []"
  by (subst nat_to_dec.simps) simp

lemma hd_nat_to_dec: "\<exists>d < 10. hd (nat_to_dec n) = digit_char d"
proof (induction n rule: nat_to_dec.induct)
  case (1 n)
  then show ?case
    by (cases "n < 10") (auto simp: nat_to_dec.simps [of n] nat_to_dec_not_Nil)
qed

lemma uint_from_str_to_string [simp]: "uint_from_str (uint_to_string w) = Some w"
proof -
  obtain d where d: "d < 10" "hd (nat_to_dec (unat w)) = digit_char d"
    using hd_nat_to_dec by blast
  have "digit_char d \<noteq> CHR ''+''"
    using char_digit_digit_char [OF d(1)] by (auto simp: char_digit_def)
  then have "take 1 (nat_to_dec (unat w)) \<noteq> ''+''"
    using d nat_to_dec_not_Nil [of "unat w"] by (cases "nat_to_dec (unat w)") auto
  then show ?thesis
    by (simp add: uint_from_str_def uint_to_string_def nat_to_dec_not_Nil
        parse_digits_nat_to_dec Let_def)
qed

section \<open>Building maps from lists\<close>

definition hm_sum :: "('v \<Rightarrow> 'a::comm_monoid_add) \<Rightarrow> ('k, 'v) hashmap \<Rightarrow> 'a" where
  "hm_sum f m = sum_list (map (\<lambda>(_, v). f v) m)"

lemma hm_sum_insert:
  "hm_sum f (hm_insert k v m) + (case hm_get m k of None \<Rightarrow> 0 | Some v0 \<Rightarrow> f v0) = hm_sum f m + f v"
  unfolding hm_sum_def hm_insert_def hm_get_def by (induction m) (auto simp: ac_simps)

lemma hm_sum_remove:
  "hm_wf m \<Longrightarrow> hm_get m k = Some v \<Longrightarrow> hm_sum f (hm_remove k m) + f v = hm_sum f m"
  unfolding hm_sum_def hm_remove_def hm_get_def hm_wf_def
  by (induction m) (auto simp: ac_simps delete_id split: if_splits)

lemma hm_get_le_hm_sum: "hm_get m k = Some v \<Longrightarrow> f v \<le> hm_sum f m"
  for f :: "_ \<Rightarrow> nat"
  unfolding hm_sum_def hm_get_def by (induction m) (auto split: if_splits)

lemma insort_key_map: "insort_key g (f x) (map f xs) = map f (insort_key (\<lambda>x. g (f x)) x xs)"
  by (induction xs) auto

lemma sort_key_map: "sort_key g (map f xs) = map f (sort_key (\<lambda>x. g (f x)) xs)"
  by (induction xs) (simp_all add: insort_key_map)

definition hm_of_list :: "('k \<times> 'v) list \<Rightarrow> ('k, 'v) hashmap \<Rightarrow> ('k, 'v) hashmap" where
  "hm_of_list = fold (\<lambda>(k, v). hm_insert k v)"

lemma hm_of_list_simps [simp]:
  "hm_of_list [] m = m" "hm_of_list ((k, v) # xs) m = hm_of_list xs (hm_insert k v m)"
  by (simp_all add: hm_of_list_def)

lemma hm_get_of_list:
  assumes "distinct (map fst xs)"
  shows "hm_get (hm_of_list xs m) k = (case map_of xs k of None \<Rightarrow> hm_get m k | Some v \<Rightarrow> Some v)"
  using assms
proof (induction xs arbitrary: m)
  case (Cons x xs)
  obtain k' v where x: "x = (k', v)" by (cases x)
  have "map_of xs k' = None" using Cons.prems by (simp add: x map_of_eq_None_iff)
  then show ?case using Cons by (auto simp: x split: option.splits)
qed simp

lemma hm_get_of_sorted:
  assumes "hm_wf m"
  shows "hm_get (hm_of_list (sort_key f m) []) = hm_get m"
proof -
  have d: "distinct (map fst (sort_key f m))"
    using assms by (simp add: hm_wf_def distinct_map)
  have "map_of (sort_key f m) = map_of m"
    using assms d map_of_inject_set [of "sort_key f m" m] by (simp add: hm_wf_def)
  then show ?thesis
    unfolding fun_eq_iff hm_get_of_list [OF d] by (simp add: hm_get_def split: option.split)
qed

lemma map_of_filter_map:
  "distinct (map fst xs) \<Longrightarrow>
   map_of (map (\<lambda>(k, a). (k, f a)) (filter (\<lambda>(_, a). P a) xs)) k =
     (case map_of xs k of None \<Rightarrow> None | Some a \<Rightarrow> if P a then Some (f a) else None)"
proof (induction xs)
  case (Cons x xs)
  obtain k' v where x: "x = (k', v)" by (cases x)
  have "map_of xs k' = None" using Cons.prems by (simp add: x map_of_eq_None_iff)
  then show ?case using Cons by (auto simp: x split: option.splits)
qed simp

lemma hm_get_reloaded_accounts:
  assumes "hm_wf m"
  shows "hm_get (hm_of_list (map (\<lambda>(k, a). (k, f a)) (sort_key g (filter (\<lambda>(_, a). P a) m))) []) k =
    (case hm_get m k of None \<Rightarrow> None | Some a \<Rightarrow> if P a then Some (f a) else None)"
proof -
  let ?xs = "map (\<lambda>(k, a). (k, f a)) (filter (\<lambda>(_, a). P a) m)"
  let ?ys = "map (\<lambda>(k, a). (k, f a)) (sort_key g (filter (\<lambda>(_, a). P a) m))"
  have fst: "map fst (map (\<lambda>(k, a). (k, f a)) zs) = map fst zs" for zs
    by (induction zs) auto
  have dm: "distinct (map fst (filter (\<lambda>(_, a). P a) m))"
    using assms by (simp add: hm_wf_def distinct_map_filter)
  have dx: "distinct (map fst ?xs)" unfolding fst by (rule dm)
  have dy: "distinct (map fst ?ys)" unfolding fst using dm by (simp add: distinct_map)
  have "map_of ?ys = map_of ?xs"
    using map_of_inject_set [OF dy dx] by simp
  then show ?thesis
    unfolding hm_get_of_list [OF dy] using assms
    by (auto simp: map_of_filter_map hm_wf_def hm_get_def split: option.split)
qed

section \<open>Text helpers\<close>

lemma trim_0x_id: "CHR ''x'' \<notin> set s \<Longrightarrow> trim_0x s = s"
  by (induction s rule: trim_0x.induct) auto

section \<open>A hexadecimal codec\<close>

text \<open>
  Hexadecimal encoding and decoding come from a package outside the repository and are
  parameters of the definitions that use them. This is a concrete pair that satisfies what
  those definitions rely on.
\<close>

definition nibble_char :: "nat \<Rightarrow> char" where
  "nibble_char n = char_of (if n < 10 then 48 + n else 87 + n)"

definition char_nibble :: "char \<Rightarrow> nat option" where
  "char_nibble c =
     (let n = of_char c in
      if 48 \<le> n \<and> n \<le> 57 then Some (n - 48)
      else if 97 \<le> n \<and> n \<le> 102 then Some (n - 87)
      else None)"

fun plain_hex_encode :: "bytes \<Rightarrow> string" where
  "plain_hex_encode [] = []"
| "plain_hex_encode (b # bs) = nibble_char (unat b div 16) # nibble_char (unat b mod 16) # plain_hex_encode bs"

fun plain_hex_decode :: "string \<Rightarrow> bytes option" where
  "plain_hex_decode [] = Some []"
| "plain_hex_decode [c] = None"
| "plain_hex_decode (c # d # s) =
     (case (char_nibble c, char_nibble d, plain_hex_decode s) of
        (Some h, Some l, Some bs) \<Rightarrow> Some (of_nat (16 * h + l) # bs)
      | _ \<Rightarrow> None)"

lemma char_nibble_nibble_char: "n < 16 \<Longrightarrow> char_nibble (nibble_char n) = Some n"
  by (auto simp: char_nibble_def nibble_char_def Let_def)

lemma nibble_char_not_x: "n < 16 \<Longrightarrow> nibble_char n \<noteq> CHR ''x''"
  using char_nibble_nibble_char [of n] by (auto simp: char_nibble_def)

lemma plain_hex_roundtrip: "plain_hex_decode (plain_hex_encode b) = Some b"
proof (induction b)
  case (Cons x b)
  have x: "unat x < 256" using unat_lt [of x] by simp
  then have "unat x div 16 < 16" by auto
  moreover have "(of_nat (16 * (unat x div 16) + unat x mod 16) :: byte) = x"
    by simp
  ultimately show ?case using Cons by (simp add: char_nibble_nibble_char)
qed simp

lemma plain_hex_no_x: "CHR ''x'' \<notin> set (plain_hex_encode b)"
proof (induction b)
  case (Cons x b)
  have x: "unat x < 256" using unat_lt [of x] by simp
  then have "unat x div 16 < 16" by auto
  then show ?case using Cons nibble_char_not_x [of "unat x div 16"] nibble_char_not_x [of "unat x mod 16"]
    by auto
qed simp

section \<open>Lemmas on encodings\<close>

lemma of_char_byte_inject: "(of_nat (of_char c) :: byte) = of_nat (of_char d) \<longleftrightarrow> c = d"
proof -
  have "unat (of_nat (of_char e) :: byte) = (of_char e :: nat)" for e
    by (simp only: unat_of_nat) (simp add: take_bit_eq_mod)
  then have "(of_nat (of_char c) :: byte) = of_nat (of_char d) \<Longrightarrow> (of_char c :: nat) = of_char d" by metis
  then show ?thesis by auto
qed

lemma length_as_bytes [simp]: "length (as_bytes s) = length s"
  by (simp add: as_bytes_def)

lemma as_bytes_inject [simp]: "as_bytes s = as_bytes t \<longleftrightarrow> s = t"
  by (simp add: as_bytes_def inj_map_eq_map inj_def of_char_byte_inject)

lemma to_be_bytes_inject:
  fixes a b :: "'a::len word"
  assumes "2 ^ LENGTH('a) \<le> (256 :: nat) ^ k" "to_be_bytes k a = to_be_bytes k b"
  shows "a = b"
proof -
  have "nat_le k (unat a) = nat_le k (unat b)"
    using assms(2) by (simp add: to_be_bytes_def to_le_bytes_def)
  then have "le_nat (nat_le k (unat a)) = le_nat (nat_le k (unat b))" by (rule arg_cong)
  moreover have "unat a < 256 ^ k" "unat b < 256 ^ k"
    using assms(1) unat_lt [of a] unat_lt [of b] by linarith+
  ultimately show ?thesis by (simp add: le_nat_nat_le word_unat_eq_iff)
qed

definition be_nat :: "bytes \<Rightarrow> nat" where
  "be_nat bs = le_nat (rev bs)"

lemma le_nat_append: "le_nat (xs @ ys) = le_nat xs + 256 ^ length xs * le_nat ys"
  by (induction xs) (simp_all add: algebra_simps)

lemma be_nat_Nil [simp]: "be_nat [] = 0"
  by (simp add: be_nat_def)

lemma be_nat_Cons [simp]: "be_nat (b # bs) = unat b * 256 ^ length bs + be_nat bs"
  by (simp add: be_nat_def le_nat_append)

lemma be_nat_bound: "be_nat bs < 256 ^ length bs"
  using le_nat_bound [of "rev bs"] by (simp add: be_nat_def)

section \<open>Trimming and splitting\<close>

definition is_space :: "char \<Rightarrow> bool" where
  "is_space ch = (ch = CHR '' '' \<or> ch = CHR 0x09 \<or> ch = CHR 0x0A \<or> ch = CHR 0x0B \<or> ch = CHR 0x0C \<or> ch = CHR 0x0D)"

definition str_trim :: "string \<Rightarrow> string" where
  "str_trim s = rev (dropWhile is_space (rev (dropWhile is_space s)))"

lemma str_trim_id:
  assumes "\<forall>ch \<in> set s. \<not> is_space ch"
  shows "str_trim s = s"
proof -
  have drop: "dropWhile is_space t = t" if "\<forall>ch \<in> set t. \<not> is_space ch" for t
    using that by (cases t) auto
  show ?thesis using drop [of s] drop [of "rev s"] assms by (simp add: str_trim_def)
qed

definition to_ascii_lowercase :: "string \<Rightarrow> string" where
  "to_ascii_lowercase s =
     map (\<lambda>ch. let n = of_char ch :: nat in if 65 \<le> n \<and> n \<le> 90 then char_of (n + 32) else ch) s"

definition str_contains :: "string \<Rightarrow> string \<Rightarrow> bool" where
  "str_contains needle s = list_ex (\<lambda>k. take (length needle) (drop k s) = needle) [0..<Suc (length s)]"

fun chunks_exact :: "nat \<Rightarrow> bytes \<Rightarrow> bytes list" where
  "chunks_exact k bs =
     (if k = 0 \<or> length bs < k then [] else take k bs # chunks_exact k (drop k bs))"

declare chunks_exact.simps [simp del]

lemma chunks_exact_concat:
  "0 < k \<Longrightarrow> \<forall>b \<in> set bs. length b = k \<Longrightarrow> chunks_exact k (concat bs) = bs"
proof (induction bs)
  case (Cons b bs)
  then show ?case by (subst chunks_exact.simps) simp
qed (simp add: chunks_exact.simps)

section \<open>Words\<close>

lemma xor_eq_0_iff: "(Bit_Operations.xor x y = 0) = (x = y)" for x y :: "'a::len word"
  by (metis bit.xor_self word_bw_same(3) xor.left_neutral xor.assoc)

end
