(* ===== verification/Interfaces.thy ===== *)
theory Interfaces
  imports Prelude
begin

text \<open>
  The contracts between components. Each locale fixes the operations a client calls and the laws
  the provider promises, and proves what clients use once; the theory of the providing component
  interprets it on the model's own definitions.

  \<^item> \<^verbatim>\<open>bounded_cache\<close>: a size-limited key-value cache that may forget, but never invents.
  \<^item> \<^verbatim>\<open>ttl_cache\<close>: such a cache whose entries carry the time they were read ts.
  \<^item> \<^verbatim>\<open>undoable_update\<close>: a fallible update that a snapshot can undo.
  \<^item> \<^verbatim>\<open>prefix_codec\<close>: a self-delimiting encoding, whose concatenations parse in one way only.
\<close>

section \<open>Bounded caches\<close>

definition cache_run :: "('k \<Rightarrow> 'v \<Rightarrow> 's \<Rightarrow> 's) \<Rightarrow> 's \<Rightarrow> ('k \<times> 'v) list \<Rightarrow> 's" where
  "cache_run ins = foldl (\<lambda>s (k, v). ins k v s)"

locale bounded_cache =
  fixes inv :: "'s \<Rightarrow> bool"
    and ins :: "'k \<Rightarrow> 'v \<Rightarrow> 's \<Rightarrow> 's"
    and entry :: "'s \<Rightarrow> 'k \<Rightarrow> 'v option"
    and bound :: "'s \<Rightarrow> nat"
  assumes inv_ins: "inv s \<Longrightarrow> inv (ins k v s)"
    and entry_same: "inv s \<Longrightarrow> entry (ins k v s) k = Some v"
    and entry_other: "inv s \<Longrightarrow> k' \<noteq> k \<Longrightarrow> entry (ins k v s) k' \<in> {None, entry s k'}"
    and inv_bound: "inv s \<Longrightarrow> finite (dom (entry s)) \<and> card (dom (entry s)) \<le> bound s"
    and bound_ins: "inv s \<Longrightarrow> bound (ins k v s) = bound s"
begin

lemma run_inv: "inv s \<Longrightarrow> inv (cache_run ins s ps)"
  unfolding cache_run_def by (induction ps arbitrary: s) (auto simp: inv_ins)

lemma run_bound: "inv s \<Longrightarrow> card (dom (entry (cache_run ins s ps))) \<le> bound s"
proof -
  assume i: "inv s"
  then have "bound (cache_run ins s ps) = bound s"
    unfolding cache_run_def by (induction ps arbitrary: s) (auto simp: inv_ins bound_ins)
  then show ?thesis using inv_bound [OF run_inv [OF i, of ps]] by simp
qed

lemma run_entry:
  "inv s \<Longrightarrow> entry (cache_run ins s ps) k = Some v \<Longrightarrow>
     (case map_of (rev ps) k of None \<Rightarrow> entry s k = Some v | Some v' \<Rightarrow> v' = v)"
proof (induction ps rule: rev_induct)
  case (snoc p ps)
  obtain k' v' where p: "p = (k', v')" by (cases p)
  have i: "inv (cache_run ins s ps)" using snoc.prems(1) by (rule run_inv)
  have step: "cache_run ins s (ps @ [p]) = ins k' v' (cache_run ins s ps)"
    by (simp add: cache_run_def p)
  show ?case
  proof (cases "k = k'")
    case True
    then show ?thesis using entry_same [OF i, of k' v'] snoc.prems(2) unfolding step by (simp add: p)
  next
    case False
    then show ?thesis using entry_other [OF i False, of v'] snoc unfolding step by (auto simp: p)
  qed
qed (simp add: cache_run_def)

end

text \<open>
  With the time of the reading in the entry, a cache in front of an oracle answers with something
  the oracle said at the recorded time.
\<close>

locale ttl_cache = bounded_cache inv ins entry bound
  for inv :: "'s \<Rightarrow> bool"
    and ins :: "'k \<Rightarrow> 'v \<times> instant \<Rightarrow> 's \<Rightarrow> 's"
    and entry :: "'s \<Rightarrow> 'k \<Rightarrow> ('v \<times> instant) option"
    and bound :: "'s \<Rightarrow> nat" +
  fixes lookup :: "instant \<Rightarrow> 'k \<Rightarrow> 's \<Rightarrow> 'v option"
    and ttl :: "'v \<Rightarrow> nat"
  assumes lookup_sound:
    "lookup now k s = Some v \<Longrightarrow> \<exists>ts. entry s k = Some (v, ts) \<and> now - ts < ttl v"
    and lookup_complete: "entry s k = Some (v, ts) \<Longrightarrow> now - ts < ttl v \<Longrightarrow> lookup now k s = Some v"
begin

definition backed :: "('k \<Rightarrow> instant \<Rightarrow> 'v option) \<Rightarrow> instant \<Rightarrow> 's \<Rightarrow> bool" where
  "backed oracle now s \<longleftrightarrow>
     (\<forall>k v ts. entry s k = Some (v, ts) \<longrightarrow> oracle k ts = Some v \<and> ts \<le> now)"

lemma backed_mono: "backed oracle now s \<Longrightarrow> now \<le> now' \<Longrightarrow> backed oracle now' s"
  by (fastforce simp: backed_def)

lemma backed_ins:
  assumes "inv s" "backed oracle now s" "oracle k now = Some v"
  shows "backed oracle now (ins k (v, now) s)"
  unfolding backed_def
proof (intro allI impI)
  fix k' v' ts
  assume e: "entry (ins k (v, now) s) k' = Some (v', ts)"
  show "oracle k' ts = Some v' \<and> ts \<le> now"
  proof (cases "k' = k")
    case True
    then show ?thesis using e assms entry_same by auto
  next
    case False
    then show ?thesis using e assms(2) entry_other [OF assms(1) False, of "(v, now)"]
      by (metis backed_def insertE option.distinct(1) singletonD)
  qed
qed

lemma lookup_recent:
  assumes "backed oracle now s" "lookup now k s = Some v"
  shows "\<exists>ts \<le> now. oracle k ts = Some v \<and> now - ts < ttl v"
  using assms lookup_sound unfolding backed_def by blast

end

section \<open>Updates that can be undone\<close>

locale undoable_update =
  fixes inv :: "'s \<Rightarrow> bool"
    and upd :: "'i \<Rightarrow> 's \<Rightarrow> ('e + 'r) \<times> 's"
    and snap :: "'i \<Rightarrow> 's \<Rightarrow> 'u"
    and undo :: "'i \<Rightarrow> 'u \<Rightarrow> 's \<Rightarrow> 's"
    and eqv :: "'s \<Rightarrow> 's \<Rightarrow> bool"
  assumes eqv_refl: "eqv s s"
    and inv_upd: "inv s \<Longrightarrow> inv (snd (upd i s))"
    and failed_eqv: "inv s \<Longrightarrow> upd i s = (Inl e, s') \<Longrightarrow> eqv s' s"
    and undo_eqv: "inv s \<Longrightarrow> upd i s = (Inr r, s') \<Longrightarrow> eqv (undo i (snap i s) s') s"
begin

text \<open>
  The transaction a client builds: update, then store the new state; if storing fails, undo.
\<close>

definition transact :: "('s \<Rightarrow> 'x + 'y) \<Rightarrow> ('x \<Rightarrow> 'e) \<Rightarrow> 'i \<Rightarrow> 's \<Rightarrow> ('e + 'r) \<times> 's" where
  "transact store wrap i s =
     (case upd i s of
        (Inl e, s') \<Rightarrow> (Inl e, s')
      | (Inr r, s') \<Rightarrow>
          (case store s' of
             Inl x \<Rightarrow> (Inl (wrap x), undo i (snap i s) s')
           | Inr _ \<Rightarrow> (Inr r, s')))"

lemma transact_all_or_nothing:
  assumes "inv s"
  shows "(\<exists>e s'. transact store wrap i s = (Inl e, s') \<and> eqv s' s) \<or>
    (\<exists>r s' y. transact store wrap i s = (Inr r, s') \<and> upd i s = (Inr r, s') \<and> store s' = Inr y)"
  using failed_eqv [OF assms] undo_eqv [OF assms]
  by (force simp: transact_def split: prod.split sum.split)

end

section \<open>Self-delimiting encodings\<close>

locale prefix_codec =
  fixes ok :: "'a \<Rightarrow> bool"
    and enc :: "'a \<Rightarrow> 'b list"
    and dec :: "'b list \<Rightarrow> ('a \<times> 'b list) option"
  assumes dec_enc: "ok x \<Longrightarrow> dec (enc x @ rest) = Some (x, rest)"
    and enc_dec: "dec bs = Some (x, rest) \<Longrightarrow> ok x \<and> bs = enc x @ rest"
    and enc_not_Nil: "ok x \<Longrightarrow> enc x \<noteq> []"
begin

lemma enc_inject: "ok x \<Longrightarrow> ok y \<Longrightarrow> enc x @ r = enc y @ s \<Longrightarrow> x = y \<and> r = s"
  by (metis dec_enc option.inject prod.inject)

lemma concat_inject:
  "list_all ok xs \<Longrightarrow> list_all ok ys \<Longrightarrow> concat (map enc xs) = concat (map enc ys) \<Longrightarrow> xs = ys"
proof (induction xs arbitrary: ys)
  case Nil
  then show ?case using enc_not_Nil by (cases ys) auto
next
  case (Cons x xs)
  then obtain y zs where ys: "ys = y # zs" using enc_not_Nil by (cases ys) auto
  then show ?case using enc_inject [of x y] Cons by auto
qed

lemma dec_shorter: "dec bs = Some (x, rest) \<Longrightarrow> length rest < length bs"
  using enc_dec enc_not_Nil by fastforce

end

end
