(* ===== verification/Ledger.thy ===== *)
theory Ledger
  imports Interfaces "HOL-Library.Char_ord" "HOL-Library.List_Lexorder" "HOL-Library.Product_Lexorder"
begin

text \<open>
  The relay's payment ledger, \<^verbatim>\<open>src/ledger.rs\<close>: per account the debt, the live reservations
  and the newest cheque of each chequebook; the chequebook-to-account binding; and the durable
  half of it on disk. The hexadecimal and JSON codecs come from packages outside the repository
  and are the parameter \<open>ser\<close>; the file system is explicit state whose operations may
  fail as the parameter \<open>io\<close> says. Error texts are constructors instead of formatted strings.
\<close>

section \<open>Data\<close>

definition MAX_CUMULATIVE_PLUR :: u128 where
  "MAX_CUMULATIVE_PLUR = 1000000000000000000000000000000"

datatype store_error =
    IoRead | IoWrite | IoRename
  | UnsupportedVersion nat
  | SecretHex | SecretLength nat
  | SignatureHex
  | AddressHex | AddressLength string
  | U128Parse string
  | Json

datatype ledger_error =
    NotIncreasing u128 u128
  | ChequebookBound bytes
  | Absurd u128
  | Overpayment u128 u128
  | Store store_error

record admission =
  adm_reserved_plur :: u128
  adm_outstanding_plur :: u128
  adm_cap_plur :: u128
  adm_over_cap :: bool

record heldCheque =
  cumulative_plur :: u128
  cheque_signature :: bytes

record account =
  owed_plur :: u128
  reserved_plur :: u128
  last_cumulative_map :: "(bytes, heldCheque) hashmap"

record ledger =
  accounts :: "(bytes, account) hashmap"
  binding :: "(bytes, bytes) hashmap"
  secret :: bytes
  path :: "string option"

definition default_account :: account where
  "default_account = \<lparr>owed_plur = 0, reserved_plur = 0, last_cumulative_map = []\<rparr>"

definition account_outstanding :: "account \<Rightarrow> u128" where
  "account_outstanding a = saturating_add (owed_plur a) (reserved_plur a)"

text \<open>The form written to disk: text fields only, and no reservation.\<close>

record on_disk_account =
  od_account :: string
  od_owed_plur :: string
  od_last_cumulative :: "(string \<times> string \<times> string) list"

record on_disk =
  version :: nat
  secret_hex :: string
  od_accounts :: "on_disk_account list"
  od_binding :: "(string \<times> string) list"

section \<open>Readings\<close>

definition ledger_account :: "ledger \<Rightarrow> bytes \<Rightarrow> account" where
  "ledger_account l a = (case hm_get (accounts l) a of None \<Rightarrow> default_account | Some x \<Rightarrow> x)"

definition owed :: "ledger \<Rightarrow> bytes \<Rightarrow> u128" where
  "owed l a = (case hm_get (accounts l) a of None \<Rightarrow> 0 | Some x \<Rightarrow> owed_plur x)"

definition reserved :: "ledger \<Rightarrow> bytes \<Rightarrow> u128" where
  "reserved l a = (case hm_get (accounts l) a of None \<Rightarrow> 0 | Some x \<Rightarrow> reserved_plur x)"

definition outstanding :: "ledger \<Rightarrow> bytes \<Rightarrow> u128" where
  "outstanding l a = (case hm_get (accounts l) a of None \<Rightarrow> 0 | Some x \<Rightarrow> account_outstanding x)"

definition held_cheque :: "ledger \<Rightarrow> bytes \<Rightarrow> bytes \<Rightarrow> heldCheque option" where
  "held_cheque l a cb =
     (case hm_get (accounts l) a of None \<Rightarrow> None | Some x \<Rightarrow> hm_get (last_cumulative_map x) cb)"

definition last_cumulative :: "ledger \<Rightarrow> bytes \<Rightarrow> bytes \<Rightarrow> u128" where
  "last_cumulative l a cb =
     (case hm_get (accounts l) a of
        None \<Rightarrow> 0
      | Some x \<Rightarrow> (case hm_get (last_cumulative_map x) cb of None \<Rightarrow> 0 | Some c \<Rightarrow> cumulative_plur c))"

definition had_binding :: "ledger \<Rightarrow> bytes \<Rightarrow> bool" where
  "had_binding l cb = hm_contains (binding l) cb"

definition held_cheques :: "ledger \<Rightarrow> (bytes \<times> bytes \<times> heldCheque) list" where
  "held_cheques l =
     sort_key (\<lambda>(_, cb, _). cb)
       (concat (map (\<lambda>(a, x). map (\<lambda>(cb, h). (a, cb, h)) (last_cumulative_map x)) (accounts l)))"

definition live_reservations :: "ledger \<Rightarrow> usize" where
  "live_reservations l = length (filter (\<lambda>(_, a). reserved_plur a > 0) (accounts l))"

section \<open>Operations\<close>

definition put_account :: "bytes \<Rightarrow> account \<Rightarrow> ledger \<Rightarrow> ledger" where
  "put_account a x l = l\<lparr>accounts := hm_insert a x (accounts l)\<rparr>"

definition reserve :: "ledger \<Rightarrow> bytes \<Rightarrow> u128 \<Rightarrow> u128 \<Rightarrow> admission \<times> ledger" where
  "reserve l a amount cap =
     (let x = ledger_account l a;
          x' = x\<lparr>reserved_plur := saturating_add (reserved_plur x) amount\<rparr>;
          out = account_outstanding x'
      in (\<lparr>adm_reserved_plur = amount, adm_outstanding_plur = out, adm_cap_plur = cap,
           adm_over_cap = out > cap\<rparr>,
          put_account a x' l))"

definition release :: "ledger \<Rightarrow> bytes \<Rightarrow> u128 \<Rightarrow> ledger" where
  "release l a amount =
     (case hm_get (accounts l) a of
        None \<Rightarrow> l
      | Some x \<Rightarrow> put_account a (x\<lparr>reserved_plur := saturating_sub (reserved_plur x) amount\<rparr>) l)"

definition commit :: "ledger \<Rightarrow> bytes \<Rightarrow> u128 \<Rightarrow> u128 \<Rightarrow> ledger" where
  "commit l a res billed =
     (let x = ledger_account l a
      in put_account a
           (x\<lparr>reserved_plur := saturating_sub (reserved_plur x) res,
              owed_plur := saturating_add (owed_plur x) billed\<rparr>) l)"

definition credit :: "ledger \<Rightarrow> bytes \<Rightarrow> bytes \<Rightarrow> u128 \<Rightarrow> bytes \<Rightarrow> (ledger_error + u128) \<times> ledger" where
  "credit l a cb cumulative sig =
     (if cumulative > MAX_CUMULATIVE_PLUR then (Inl (Absurd cumulative), l)
      else if (case hm_get (binding l) cb of None \<Rightarrow> False | Some bound \<Rightarrow> bound \<noteq> a)
      then (Inl (ChequebookBound cb), l)
      else
        let x = ledger_account l a;
            l1 = put_account a x l;
            have = (case hm_get (last_cumulative_map x) cb of None \<Rightarrow> 0 | Some c \<Rightarrow> cumulative_plur c)
        in if cumulative \<le> have then (Inl (NotIncreasing cumulative have), l1)
           else
             let delta = cumulative - have
             in if delta > owed_plur x then (Inl (Overpayment delta (owed_plur x)), l1)
                else
                  let x' = x\<lparr>last_cumulative_map :=
                               hm_insert cb \<lparr>cumulative_plur = cumulative, cheque_signature = sig\<rparr>
                                 (last_cumulative_map x),
                             owed_plur := owed_plur x - delta\<rparr>;
                      l2 = put_account a x' l1
                  in (Inr delta, l2\<lparr>binding := hm_insert cb a (binding l2)\<rparr>))"

definition rollback_credit ::
    "ledger \<Rightarrow> bytes \<Rightarrow> bytes \<Rightarrow> u128 \<Rightarrow> heldCheque option \<Rightarrow> bool \<Rightarrow> ledger" where
  "rollback_credit l a cb prev_owed prev_held had_bind =
     (let l1 = (case hm_get (accounts l) a of
                  None \<Rightarrow> l
                | Some x \<Rightarrow>
                    put_account a
                      (x\<lparr>owed_plur := prev_owed,
                         last_cumulative_map :=
                           (case prev_held of
                              Some h \<Rightarrow> hm_insert cb h (last_cumulative_map x)
                            | None \<Rightarrow> hm_remove cb (last_cumulative_map x))\<rparr>) l)
      in if had_bind then l1 else l1\<lparr>binding := hm_remove cb (binding l1)\<rparr>)"

section \<open>The durable half\<close>

text \<open>
  \<open>serde\<close> collects the external codecs; \<open>io\<close> says which file operations of one call fail, and
  what a failed write leaves in the temporary file. A file system maps paths to contents.
\<close>

record serde =
  hex_encode :: "bytes \<Rightarrow> string"
  hex_decode :: "string \<Rightarrow> bytes option"
  json_encode :: "on_disk \<Rightarrow> string option"
  json_decode :: "string \<Rightarrow> on_disk option"

record io =
  io_read_ok :: bool
  io_write_fails :: "string option"
  io_rename_ok :: bool

type_synonym fs = "(string, string) hashmap"

text \<open>\<^verbatim>\<open>Path::with_extension("tmp")\<close>: the file name up to its last dot, unless that is the first character.\<close>

definition file_name :: "string \<Rightarrow> string" where
  "file_name p = rev (takeWhile (\<lambda>c. c \<noteq> CHR ''/'') (rev p))"

definition file_stem :: "string \<Rightarrow> string" where
  "file_stem n =
     (let r = dropWhile (\<lambda>c. c \<noteq> CHR ''.'') (rev n) in if length r \<le> 1 then n else rev (tl r))"

definition with_extension_tmp :: "string \<Rightarrow> string" where
  "with_extension_tmp p =
     (let n = file_name p in
      if n = [] \<or> n = ''.'' \<or> n = ''..'' then p
      else take (length p - length n) p @ file_stem n @ ''.tmp'')"

definition on_disk_cheque :: "serde \<Rightarrow> bytes \<times> heldCheque \<Rightarrow> string \<times> string \<times> string" where
  "on_disk_cheque ser = (\<lambda>(cb, c).
     (hex_encode ser cb, uint_to_string (cumulative_plur c), hex_encode ser (cheque_signature c)))"

definition on_disk_account_of :: "serde \<Rightarrow> bytes \<times> account \<Rightarrow> on_disk_account" where
  "on_disk_account_of ser = (\<lambda>(k, a).
     \<lparr>od_account = hex_encode ser k,
      od_owed_plur = uint_to_string (owed_plur a),
      od_last_cumulative = sort (map (on_disk_cheque ser) (last_cumulative_map a))\<rparr>)"

definition to_on_disk :: "serde \<Rightarrow> ledger \<Rightarrow> on_disk" where
  "to_on_disk ser l =
     \<lparr>version = 2,
      secret_hex = hex_encode ser (secret l),
      od_accounts =
        sort_key od_account
          (map (on_disk_account_of ser)
            (filter (\<lambda>(_, a). owed_plur a > 0 \<or> last_cumulative_map a \<noteq> []) (accounts l))),
      od_binding = sort (map (\<lambda>(cb, a). (hex_encode ser cb, hex_encode ser a)) (binding l))\<rparr>"

text \<open>
  The file system after each step of \<^verbatim>\<open>persist\<close>, the last being the one it leaves: the states a
  crash can expose.
\<close>

definition persist_states :: "serde \<Rightarrow> io \<Rightarrow> ledger \<Rightarrow> fs \<Rightarrow> fs list" where
  "persist_states ser io l fs =
     (case path l of
        None \<Rightarrow> [fs]
      | Some p \<Rightarrow>
          (case json_encode ser (to_on_disk ser l) of
             None \<Rightarrow> [fs]
           | Some body \<Rightarrow>
               let tmp = with_extension_tmp p in
               case io_write_fails io of
                 Some part \<Rightarrow> [fs, hm_insert tmp part fs]
               | None \<Rightarrow>
                   let fs1 = hm_insert tmp body fs in
                   if io_rename_ok io then [fs, fs1, hm_insert p body (hm_remove tmp fs1)]
                   else [fs, fs1]))"

definition persist :: "serde \<Rightarrow> io \<Rightarrow> ledger \<Rightarrow> fs \<Rightarrow> (store_error + unit) \<times> fs" where
  "persist ser io l fs =
     (case path l of
        None \<Rightarrow> (Inr (), fs)
      | Some p \<Rightarrow>
          (case json_encode ser (to_on_disk ser l) of
             None \<Rightarrow> (Inl Json, fs)
           | Some body \<Rightarrow>
               let tmp = with_extension_tmp p in
               case io_write_fails io of
                 Some part \<Rightarrow> (Inl IoWrite, hm_insert tmp part fs)
               | None \<Rightarrow>
                   let fs1 = hm_insert tmp body fs in
                   if io_rename_ok io then (Inr (), hm_insert p body (hm_remove tmp fs1))
                   else (Inl IoRename, fs1)))"

definition parse_addr :: "serde \<Rightarrow> string \<Rightarrow> store_error + bytes" where
  "parse_addr ser s =
     (case hex_decode ser (trim_0x s) of
        None \<Rightarrow> Inl AddressHex
      | Some raw \<Rightarrow> if length raw \<noteq> 20 then Inl (AddressLength s) else Inr raw)"

definition parse_u128 :: "string \<Rightarrow> store_error + u128" where
  "parse_u128 s = (case uint_from_str s of None \<Rightarrow> Inl (U128Parse s) | Some v \<Rightarrow> Inr v)"

fun load_cheques ::
    "serde \<Rightarrow> (string \<times> string \<times> string) list \<Rightarrow> (bytes, heldCheque) hashmap
      \<Rightarrow> store_error + (bytes, heldCheque) hashmap" where
  "load_cheques ser [] m = Inr m"
| "load_cheques ser ((cb, v, sig_hex) # rest) m =
     (case hex_decode ser (trim_0x sig_hex) of
        None \<Rightarrow> Inl SignatureHex
      | Some raw \<Rightarrow>
          let sig = (if length raw = 65 then raw else replicate 65 0) in
          case parse_addr ser cb of
            Inl e \<Rightarrow> Inl e
          | Inr k \<Rightarrow>
              (case parse_u128 v of
                 Inl e \<Rightarrow> Inl e
               | Inr c \<Rightarrow>
                   load_cheques ser rest
                     (hm_insert k \<lparr>cumulative_plur = c, cheque_signature = sig\<rparr> m)))"

fun load_accounts ::
    "serde \<Rightarrow> on_disk_account list \<Rightarrow> (bytes, account) hashmap
      \<Rightarrow> store_error + (bytes, account) hashmap" where
  "load_accounts ser [] m = Inr m"
| "load_accounts ser (d # rest) m =
     (case parse_addr ser (od_account d) of
        Inl e \<Rightarrow> Inl e
      | Inr key \<Rightarrow>
          (case load_cheques ser (od_last_cumulative d) [] of
             Inl e \<Rightarrow> Inl e
           | Inr cheques \<Rightarrow>
               (case parse_u128 (od_owed_plur d) of
                  Inl e \<Rightarrow> Inl e
                | Inr o' \<Rightarrow>
                    load_accounts ser rest
                      (hm_insert key
                        \<lparr>owed_plur = o', reserved_plur = 0, last_cumulative_map = cheques\<rparr> m))))"

fun load_binding ::
    "serde \<Rightarrow> (string \<times> string) list \<Rightarrow> (bytes, bytes) hashmap
      \<Rightarrow> store_error + (bytes, bytes) hashmap" where
  "load_binding ser [] m = Inr m"
| "load_binding ser ((cb, a) # rest) m =
     (case parse_addr ser cb of
        Inl e \<Rightarrow> Inl e
      | Inr k \<Rightarrow>
          (case parse_addr ser a of
             Inl e \<Rightarrow> Inl e
           | Inr v \<Rightarrow> load_binding ser rest (hm_insert k v m)))"

text \<open>A fresh ledger; the secret is what the operating system's entropy source gave.\<close>

definition ephemeral :: "bytes \<Rightarrow> ledger" where
  "ephemeral entropy = \<lparr>accounts = [], binding = [], secret = entropy, path = None\<rparr>"

definition load_disk :: "serde \<Rightarrow> string \<Rightarrow> string \<Rightarrow> store_error + ledger" where
  "load_disk ser p txt =
     (case json_decode ser txt of
        None \<Rightarrow> Inl Json
      | Some disk \<Rightarrow>
          if version disk \<noteq> 1 \<and> version disk \<noteq> 2 then Inl (UnsupportedVersion (version disk))
          else
            case hex_decode ser (trim_0x (secret_hex disk)) of
              None \<Rightarrow> Inl SecretHex
            | Some raw \<Rightarrow>
                if length raw \<noteq> 32 then Inl (SecretLength (length raw))
                else
                  case load_accounts ser (od_accounts disk) [] of
                    Inl e \<Rightarrow> Inl e
                  | Inr accs \<Rightarrow>
                      (case load_binding ser (od_binding disk) [] of
                         Inl e \<Rightarrow> Inl e
                       | Inr bnd \<Rightarrow>
                           Inr \<lparr>accounts = accs, binding = bnd, secret = raw, path = Some p\<rparr>))"

definition load_or_create ::
    "serde \<Rightarrow> io \<Rightarrow> bytes \<Rightarrow> string \<Rightarrow> fs \<Rightarrow> (store_error + ledger) \<times> fs" where
  "load_or_create ser io entropy p fs =
     (case hm_get fs p of
        None \<Rightarrow>
          let fresh = (ephemeral entropy)\<lparr>path := Some p\<rparr> in
          (case persist ser io fresh fs of
             (Inl e, fs') \<Rightarrow> (Inl e, fs')
           | (Inr _, fs') \<Rightarrow> (Inr fresh, fs'))
      | Some txt \<Rightarrow> if \<not> io_read_ok io then (Inl IoRead, fs) else (load_disk ser p txt, fs))"

section \<open>Readings after operations\<close>

lemma ledger_account_put [simp]:
  "ledger_account (put_account a x l) b = (if b = a then x else ledger_account l b)"
  by (simp add: ledger_account_def put_account_def)

lemma put_account_frame [simp]:
  "binding (put_account a x l) = binding l" "secret (put_account a x l) = secret l"
  "path (put_account a x l) = path l"
  by (simp_all add: put_account_def)

lemma ledger_account_binding_update [simp]:
  "ledger_account (l\<lparr>binding := b\<rparr>) = ledger_account l"
  by (simp add: ledger_account_def fun_eq_iff)

lemma owed_eq: "owed l a = owed_plur (ledger_account l a)"
  by (simp add: owed_def ledger_account_def default_account_def split: option.split)

lemma reserved_eq: "reserved l a = reserved_plur (ledger_account l a)"
  by (simp add: reserved_def ledger_account_def default_account_def split: option.split)

lemma outstanding_eq: "outstanding l a = saturating_add (owed l a) (reserved l a)"
  by (simp add: outstanding_def owed_def reserved_def account_outstanding_def saturating_add_def
      split: option.split)

lemma held_cheque_eq: "held_cheque l a cb = hm_get (last_cumulative_map (ledger_account l a)) cb"
  by (simp add: held_cheque_def ledger_account_def default_account_def split: option.split)

lemma last_cumulative_eq:
  "last_cumulative l a cb = (case held_cheque l a cb of None \<Rightarrow> 0 | Some c \<Rightarrow> cumulative_plur c)"
  by (simp add: last_cumulative_def held_cheque_def split: option.split)

lemmas ledger_readings = owed_eq reserved_eq held_cheque_eq last_cumulative_eq

lemma ledger_account_reserve [simp]:
  "ledger_account (snd (reserve l a n cap)) b =
     (if b = a then (ledger_account l a)\<lparr>reserved_plur := saturating_add (reserved l a) n\<rparr>
      else ledger_account l b)"
  by (simp add: reserve_def Let_def reserved_eq)

lemma ledger_account_release [simp]:
  "ledger_account (release l a n) b =
     (if b = a then (ledger_account l a)\<lparr>reserved_plur := saturating_sub (reserved l a) n\<rparr>
      else ledger_account l b)"
  by (auto simp: release_def reserved_eq ledger_account_def default_account_def saturating_sub_def
      put_account_def split: option.splits)

lemma ledger_account_commit [simp]:
  "ledger_account (commit l a r n) b =
     (if b = a then (ledger_account l a)\<lparr>reserved_plur := saturating_sub (reserved l a) r,
                                         owed_plur := saturating_add (owed l a) n\<rparr>
      else ledger_account l b)"
  by (simp add: commit_def Let_def reserved_eq owed_eq)

lemma ledger_frame [simp]:
  "binding (snd (reserve l a n cap)) = binding l" "secret (snd (reserve l a n cap)) = secret l"
  "path (snd (reserve l a n cap)) = path l"
  "binding (release l a n) = binding l" "secret (release l a n) = secret l"
  "path (release l a n) = path l"
  "binding (commit l a r n) = binding l" "secret (commit l a r n) = secret l"
  "path (commit l a r n) = path l"
  by (simp_all add: reserve_def release_def commit_def Let_def split: option.split)

lemma credit_cases:
  obtains
    (absurd) "cum > MAX_CUMULATIVE_PLUR" "credit l a cb cum sig = (Inl (Absurd cum), l)"
  | (bound) b where "cum \<le> MAX_CUMULATIVE_PLUR" "hm_get (binding l) cb = Some b" "b \<noteq> a"
      "credit l a cb cum sig = (Inl (ChequebookBound cb), l)"
  | (stale) "cum \<le> last_cumulative l a cb"
      "credit l a cb cum sig =
         (Inl (NotIncreasing cum (last_cumulative l a cb)), put_account a (ledger_account l a) l)"
  | (over) "last_cumulative l a cb < cum" "owed l a < cum - last_cumulative l a cb"
      "credit l a cb cum sig =
         (Inl (Overpayment (cum - last_cumulative l a cb) (owed l a)),
          put_account a (ledger_account l a) l)"
  | (accepted) l' where "cum \<le> MAX_CUMULATIVE_PLUR"
      "hm_get (binding l) cb = None \<or> hm_get (binding l) cb = Some a"
      "last_cumulative l a cb < cum"
      "cum - last_cumulative l a cb \<le> owed l a"
      "credit l a cb cum sig = (Inr (cum - last_cumulative l a cb), l')"
      "binding l' = hm_insert cb a (binding l)" "secret l' = secret l" "path l' = path l"
      "ledger_account l' = (\<lambda>b. if b = a then
          (ledger_account l a)\<lparr>
             last_cumulative_map := hm_insert cb \<lparr>cumulative_plur = cum, cheque_signature = sig\<rparr>
               (last_cumulative_map (ledger_account l a)),
             owed_plur := owed l a - (cum - last_cumulative l a cb)\<rparr> else ledger_account l b)"
proof -
  let ?x = "ledger_account l a"
  let ?have = "last_cumulative l a cb"
  have have_eq: "(case hm_get (last_cumulative_map ?x) cb of None \<Rightarrow> 0 | Some c \<Rightarrow> cumulative_plur c) = ?have"
    by (simp add: last_cumulative_eq held_cheque_eq)
  consider "cum > MAX_CUMULATIVE_PLUR"
    | b where "cum \<le> MAX_CUMULATIVE_PLUR" "hm_get (binding l) cb = Some b" "b \<noteq> a"
    | "cum \<le> MAX_CUMULATIVE_PLUR" "hm_get (binding l) cb = None \<or> hm_get (binding l) cb = Some a"
        "cum \<le> ?have"
    | "cum \<le> MAX_CUMULATIVE_PLUR" "hm_get (binding l) cb = None \<or> hm_get (binding l) cb = Some a"
        "?have < cum" "owed l a < cum - ?have"
    | "cum \<le> MAX_CUMULATIVE_PLUR" "hm_get (binding l) cb = None \<or> hm_get (binding l) cb = Some a"
        "?have < cum" "cum - ?have \<le> owed l a"
    by (metis linorder_not_le option.exhaust)
  then show thesis
  proof cases
    case 1
    then show ?thesis by (intro absurd) (simp_all add: credit_def)
  next
    case 2
    then show ?thesis by (intro bound) (simp_all add: credit_def)
  next
    case 3
    then show ?thesis
      by (intro stale) (auto simp: credit_def Let_def have_eq)
  next
    case 4
    then show ?thesis
      by (intro over) (auto simp: credit_def Let_def have_eq owed_eq)
  next
    case 5
    then show ?thesis
      by (intro accepted [of "snd (credit l a cb cum sig)"])
        (auto simp: credit_def Let_def have_eq owed_eq fun_eq_iff)
  qed
qed


section \<open>Invariant\<close>

definition ledger_inv :: "ledger \<Rightarrow> bool" where
  "ledger_inv l =
     (hm_wf (accounts l) \<and> hm_wf (binding l) \<and>
      (\<forall>a. hm_wf (last_cumulative_map (ledger_account l a))) \<and>
      (\<forall>a cb. held_cheque l a cb \<noteq> None \<longleftrightarrow> hm_get (binding l) cb = Some a) \<and>
      (\<forall>a cb. last_cumulative l a cb \<le> MAX_CUMULATIVE_PLUR))"

lemma ledger_inv_ephemeral: "ledger_inv (ephemeral s)"
  by (simp add: ledger_inv_def ephemeral_def ledger_account_def default_account_def held_cheque_def
      last_cumulative_def)

lemma hm_wf_accounts [simp]:
  "hm_wf (accounts l) \<Longrightarrow> hm_wf (accounts (put_account a x l))"
  "hm_wf (accounts l) \<Longrightarrow> hm_wf (accounts (snd (reserve l a n cap)))"
  "hm_wf (accounts l) \<Longrightarrow> hm_wf (accounts (release l a n))"
  "hm_wf (accounts l) \<Longrightarrow> hm_wf (accounts (commit l a r n))"
  "hm_wf (accounts l) \<Longrightarrow> hm_wf (accounts (snd (credit l a cb cum sig)))"
  "hm_wf (accounts l) \<Longrightarrow> hm_wf (accounts (rollback_credit l a cb po ph hb))"
  by (simp_all add: put_account_def reserve_def release_def commit_def credit_def rollback_credit_def
      Let_def split: option.splits)

lemma ledger_inv_reserve: "ledger_inv l \<Longrightarrow> ledger_inv (snd (reserve l a n cap))"
  by (simp add: ledger_inv_def ledger_readings)

lemma ledger_inv_release: "ledger_inv l \<Longrightarrow> ledger_inv (release l a n)"
  by (simp add: ledger_inv_def ledger_readings)

lemma ledger_inv_commit: "ledger_inv l \<Longrightarrow> ledger_inv (commit l a r n)"
  by (simp add: ledger_inv_def ledger_readings)

lemma ledger_inv_touch: "ledger_inv l \<Longrightarrow> ledger_inv (put_account a (ledger_account l a) l)"
  by (simp add: ledger_inv_def ledger_readings)

lemma ledger_inv_credit: 
  assumes "ledger_inv l"
  shows "ledger_inv (snd (credit l a cb cum sig))"
proof (cases rule: credit_cases [of cum l a cb sig])
  case absurd
  then show ?thesis using assms by simp
next
  case bound
  then show ?thesis using assms by simp
next
  case stale
  then show ?thesis using assms by (simp add: ledger_inv_touch)
next
  case over
  then show ?thesis using assms by (simp add: ledger_inv_touch)
next
  case (accepted l')
  have "hm_wf (accounts l')"
    using assms hm_wf_accounts(5) [of l a cb cum sig] accepted(5) by (simp add: ledger_inv_def)
  then show ?thesis
    using assms accepted by (auto simp: ledger_inv_def ledger_readings)
qed

lemma held_unique: "ledger_inv l \<Longrightarrow> held_cheque l a cb \<noteq> None \<Longrightarrow> held_cheque l b cb \<noteq> None \<Longrightarrow> a = b"
  by (auto simp: ledger_inv_def)

section \<open>Observational equality\<close>

definition ledger_eqv :: "ledger \<Rightarrow> ledger \<Rightarrow> bool" where
  "ledger_eqv l l' =
     (owed l = owed l' \<and> reserved l = reserved l' \<and> held_cheque l = held_cheque l' \<and>
      hm_get (binding l) = hm_get (binding l') \<and> secret l = secret l' \<and> path l = path l')"

lemma ledger_eqv_refl [simp]: "ledger_eqv l l"
  by (simp add: ledger_eqv_def)

lemma ledger_eqv_touch [simp]: "ledger_eqv (put_account a (ledger_account l a) l) l"
  by (simp add: ledger_eqv_def ledger_readings fun_eq_iff)

lemma credit_error_eqv: "credit l a cb cum sig = (Inl e, l') \<Longrightarrow> ledger_eqv l' l"
  by (cases rule: credit_cases [of cum l a cb sig]) auto

lemma rollback_credit_eqv:
  assumes "ledger_inv l" and "credit l a cb cum sig = (Inr d, l')"
  shows "ledger_eqv (rollback_credit l' a cb (owed l a) (held_cheque l a cb) (had_binding l cb)) l"
proof (cases rule: credit_cases [of cum l a cb sig])
  case (accepted l2)
  have l2: "l2 = l'" using accepted assms by simp
  have some: "hm_get (accounts l') a \<noteq> None"
    using assms(2) by (auto simp: credit_def Let_def put_account_def split: if_splits)
  then obtain x where x: "hm_get (accounts l') a = Some x" by blast
  have x_eq: "x = ledger_account l' a" by (simp add: ledger_account_def x)
  show ?thesis
    using accepted(2,6,7,8) accepted(9) assms(1) unfolding l2
    by (auto simp: rollback_credit_def Let_def x x_eq ledger_eqv_def ledger_readings fun_eq_iff
        had_binding_def hm_contains_def ledger_inv_def split: option.splits)
qed (use assms in auto)


section \<open>Runs\<close>

datatype ledger_op =
    Reserve bytes u128 u128
  | Release bytes u128
  | Commit bytes u128 u128
  | Credit bytes bytes u128 bytes

fun ledger_step :: "ledger \<Rightarrow> ledger_op \<Rightarrow> ledger" where
  "ledger_step l (Reserve a n cap) = snd (reserve l a n cap)"
| "ledger_step l (Release a n) = release l a n"
| "ledger_step l (Commit a r n) = commit l a r n"
| "ledger_step l (Credit a cb cum sig) = snd (credit l a cb cum sig)"

definition ledger_run :: "ledger \<Rightarrow> ledger_op list \<Rightarrow> ledger" where
  "ledger_run = foldl ledger_step"

fun op_billed :: "bytes \<Rightarrow> ledger_op \<Rightarrow> nat" where
  "op_billed a (Commit b r n) = (if b = a then unat n else 0)"
| "op_billed a _ = 0"

definition billed_total :: "bytes \<Rightarrow> ledger_op list \<Rightarrow> nat" where
  "billed_total a ops = sum_list (map (op_billed a) ops)"

definition paid_total :: "ledger \<Rightarrow> bytes \<Rightarrow> nat" where
  "paid_total l a = hm_sum (\<lambda>c. unat (cumulative_plur c)) (last_cumulative_map (ledger_account l a))"

lemma ledger_step_inv: "ledger_inv l \<Longrightarrow> ledger_inv (ledger_step l op)"
  by (cases op) (simp_all add: ledger_inv_reserve ledger_inv_release ledger_inv_commit ledger_inv_credit)

lemma ledger_run_inv: "ledger_inv l \<Longrightarrow> ledger_inv (ledger_run l ops)"
  unfolding ledger_run_def by (induction ops arbitrary: l) (simp_all add: ledger_step_inv)

lemma credit_conserves:
  "unat (owed (snd (credit l a cb cum sig)) b) + paid_total (snd (credit l a cb cum sig)) b =
   unat (owed l b) + paid_total l b"
proof (cases rule: credit_cases [of cum l a cb sig])
  case (accepted l')
  let ?m = "last_cumulative_map (ledger_account l a)"
  let ?h = "last_cumulative l a cb"
  have s: "hm_sum (\<lambda>c. unat (cumulative_plur c))
         (hm_insert cb \<lparr>cumulative_plur = cum, cheque_signature = sig\<rparr> ?m) + unat ?h
       = hm_sum (\<lambda>c. unat (cumulative_plur c)) ?m + unat cum"
    using hm_sum_insert [of "\<lambda>c. unat (cumulative_plur c)" cb
        "\<lparr>cumulative_plur = cum, cheque_signature = sig\<rparr>" ?m]
    by (simp add: last_cumulative_eq held_cheque_eq split: option.splits)
  have d: "unat (cum - ?h) = unat cum - unat ?h"
    using accepted(3) by (simp add: unat_sub)
  have o: "unat (owed l a - (cum - ?h)) = unat (owed l a) - (unat cum - unat ?h)"
    using accepted(4) by (simp add: unat_sub d)
  have le: "unat cum - unat ?h \<le> unat (owed l a)"
    using accepted(4) by (simp add: word_le_nat_alt d)
  have lt: "unat ?h < unat cum"
    using accepted(3) by (simp add: word_less_nat_alt)
  have own: "owed l' b = (if b = a then owed l a - (cum - ?h) else owed l b)"
    by (simp add: owed_eq accepted(9))
  show ?thesis
    using s o le lt accepted(5,9) by (auto simp: own paid_total_def)
qed (simp_all add: owed_eq paid_total_def)

lemma paid_total_step_mono: "paid_total l a \<le> paid_total (ledger_step l op) a"
proof (cases op)
  case (Credit b cb cum sig)
  show ?thesis
  proof (cases rule: credit_cases [of cum l b cb sig])
    case (accepted l')
    have "unat (owed l' a) \<le> unat (owed l a)"
      using accepted(4) by (auto simp: owed_eq accepted(9) unat_sub)
    then show ?thesis
      using credit_conserves [of l b cb cum sig a] accepted(5) Credit by simp
  qed (simp_all add: Credit paid_total_def)
qed (simp_all add: paid_total_def)

lemma ledger_step_conserves:
  assumes "unat (owed l a) + op_billed a op < 2 ^ 128"
  shows "unat (owed (ledger_step l op) a) + paid_total (ledger_step l op) a =
         unat (owed l a) + paid_total l a + op_billed a op"
proof (cases op)
  case (Commit b r n)
  then show ?thesis using assms
    by (auto simp: owed_eq paid_total_def unat_saturating_add)
next
  case (Credit b cb cum sig)
  then show ?thesis by (simp add: credit_conserves)
qed (simp_all add: owed_eq paid_total_def)

lemma ledger_run_conserves:
  "unat (owed l a) + billed_total a ops < 2 ^ 128 \<Longrightarrow>
   unat (owed (ledger_run l ops) a) + paid_total (ledger_run l ops) a =
   unat (owed l a) + paid_total l a + billed_total a ops"
proof (induction ops arbitrary: l)
  case Nil
  then show ?case by (simp add: ledger_run_def billed_total_def)
next
  case (Cons op ops)
  let ?l' = "ledger_step l op"
  have step: "unat (owed ?l' a) + paid_total ?l' a = unat (owed l a) + paid_total l a + op_billed a op"
    using Cons.prems by (intro ledger_step_conserves) (simp add: billed_total_def)
  have mono: "paid_total l a \<le> paid_total ?l' a" by (rule paid_total_step_mono)
  have "unat (owed ?l' a) + billed_total a ops < 2 ^ 128"
    using Cons.prems step mono by (simp add: billed_total_def)
  from Cons.IH [OF this] show ?case
    using step by (simp add: ledger_run_def billed_total_def)
qed


section \<open>Persistence\<close>

definition serde_ok :: "serde \<Rightarrow> bool" where
  "serde_ok ser =
     ((\<forall>b. hex_decode ser (hex_encode ser b) = Some b) \<and>
      (\<forall>b. CHR ''x'' \<notin> set (hex_encode ser b)) \<and>
      (\<forall>d t. json_encode ser d = Some t \<longrightarrow> json_decode ser t = Some d))"

definition account_sized :: "bytes \<times> account \<Rightarrow> bool" where
  "account_sized = (\<lambda>(a, x). length a = 20 \<and>
     (\<forall>(cb, c) \<in> set (last_cumulative_map x). length cb = 20 \<and> length (cheque_signature c) = 65))"

definition ledger_sized :: "ledger \<Rightarrow> bool" where
  "ledger_sized l =
     (length (secret l) = 32 \<and> (\<forall>e \<in> set (accounts l). account_sized e) \<and>
      (\<forall>(cb, a) \<in> set (binding l). length cb = 20 \<and> length a = 20))"

lemma hex_roundtrip [simp]: "serde_ok ser \<Longrightarrow> hex_decode ser (trim_0x (hex_encode ser b)) = Some b"
  by (simp add: serde_ok_def trim_0x_id)

lemma parse_addr_encode [simp]:
  "serde_ok ser \<Longrightarrow> length b = 20 \<Longrightarrow> parse_addr ser (hex_encode ser b) = Inr b"
  by (simp add: parse_addr_def)

lemma parse_u128_to_string [simp]: "parse_u128 (uint_to_string w) = Inr w"
  by (simp add: parse_u128_def)

lemma load_cheques_encoded:
  assumes "serde_ok ser"
  shows "\<forall>(cb, c) \<in> set xs. length cb = 20 \<and> length (cheque_signature c) = 65 \<Longrightarrow>
    load_cheques ser (map (on_disk_cheque ser) xs) m = Inr (hm_of_list xs m)"
proof (induction xs arbitrary: m)
  case (Cons x xs)
  obtain cb c where x: "x = (cb, c)" by (cases x)
  show ?case using Cons assms by (cases c) (simp add: x on_disk_cheque_def)
qed simp

definition reload_account :: "serde \<Rightarrow> account \<Rightarrow> account" where
  "reload_account ser a =
     \<lparr>owed_plur = owed_plur a, reserved_plur = 0,
      last_cumulative_map = hm_of_list (sort_key (on_disk_cheque ser) (last_cumulative_map a)) []\<rparr>"

lemma load_accounts_encoded:
  assumes "serde_ok ser"
  shows "\<forall>e \<in> set xs. account_sized e \<Longrightarrow>
    load_accounts ser (map (on_disk_account_of ser) xs) m =
      Inr (hm_of_list (map (\<lambda>(k, a). (k, reload_account ser a)) xs) m)"
proof (induction xs arbitrary: m)
  case (Cons x xs)
  obtain k a where x: "x = (k, a)" by (cases x)
  have "load_cheques ser (sort (map (on_disk_cheque ser) (last_cumulative_map a))) [] =
    Inr (last_cumulative_map (reload_account ser a))"
    using Cons.prems unfolding sort_key_map reload_account_def
    by (auto simp: x account_sized_def load_cheques_encoded [OF assms])
  then show ?case using Cons assms
    by (simp add: x on_disk_account_of_def account_sized_def reload_account_def)
qed simp

lemma load_binding_encoded:
  assumes "serde_ok ser"
  shows "\<forall>(cb, a) \<in> set xs. length cb = 20 \<and> length a = 20 \<Longrightarrow>
    load_binding ser (map (\<lambda>(cb, a). (hex_encode ser cb, hex_encode ser a)) xs) m = Inr (hm_of_list xs m)"
  by (induction xs arbitrary: m) (use assms in auto)


lemma load_disk_persisted:
  assumes ok: "serde_ok ser" and sz: "ledger_sized l"
    and enc: "json_encode ser (to_on_disk ser l) = Some body"
  shows "load_disk ser p body = Inr
    \<lparr>accounts = hm_of_list (map (\<lambda>(k, a). (k, reload_account ser a))
        (sort_key (\<lambda>e. od_account (on_disk_account_of ser e))
          (filter (\<lambda>(_, a). owed_plur a > 0 \<or> last_cumulative_map a \<noteq> []) (accounts l)))) [],
     binding = hm_of_list (sort_key (\<lambda>(cb, a). (hex_encode ser cb, hex_encode ser a)) (binding l)) [],
     secret = secret l, path = Some p\<rparr>"
proof -
  have dec: "json_decode ser body = Some (to_on_disk ser l)"
    using ok enc by (simp add: serde_ok_def)
  have accs: "load_accounts ser (od_accounts (to_on_disk ser l)) [] = Inr
     (hm_of_list (map (\<lambda>(k, a). (k, reload_account ser a))
        (sort_key (\<lambda>e. od_account (on_disk_account_of ser e))
          (filter (\<lambda>(_, a). owed_plur a > 0 \<or> last_cumulative_map a \<noteq> []) (accounts l)))) [])"
    using sz by (simp add: to_on_disk_def sort_key_map load_accounts_encoded [OF ok] ledger_sized_def)
  have bnd: "load_binding ser (od_binding (to_on_disk ser l)) [] =
      Inr (hm_of_list (sort_key (\<lambda>(cb, a). (hex_encode ser cb, hex_encode ser a)) (binding l)) [])"
    using sz by (simp add: to_on_disk_def sort_key_map load_binding_encoded [OF ok] ledger_sized_def)
  show ?thesis
    using sz accs bnd ok
    by (simp add: load_disk_def dec to_on_disk_def ledger_sized_def)
qed

definition ledger_restarted :: "ledger \<Rightarrow> ledger \<Rightarrow> bool" where
  "ledger_restarted l l' =
     (owed l' = owed l \<and> held_cheque l' = held_cheque l \<and> reserved l' = (\<lambda>_. 0) \<and>
      hm_get (binding l') = hm_get (binding l) \<and> secret l' = secret l)"

lemma load_disk_restarts:
  assumes ok: "serde_ok ser" and sz: "ledger_sized l" and inv: "ledger_inv l"
    and enc: "json_encode ser (to_on_disk ser l) = Some body"
  shows "\<exists>l'. load_disk ser p body = Inr l' \<and> ledger_restarted l l' \<and> path l' = Some p"
proof -
  have wf: "hm_wf (accounts l)" "hm_wf (binding l)"
    and wfc: "\<And>a. hm_wf (last_cumulative_map (ledger_account l a))"
    using inv by (auto simp: ledger_inv_def)
  let ?P = "\<lambda>a. owed_plur a > 0 \<or> last_cumulative_map a \<noteq> []"
  define accs where "accs = hm_of_list (map (\<lambda>(k, a). (k, reload_account ser a))
        (sort_key (\<lambda>e. od_account (on_disk_account_of ser e))
          (filter (\<lambda>(_, a). ?P a) (accounts l)))) []"
  define l' where "l' = \<lparr>accounts = accs,
     binding = hm_of_list (sort_key (\<lambda>(cb, a). (hex_encode ser cb, hex_encode ser a)) (binding l)) [],
     secret = secret l, path = Some p\<rparr>"
  have acc: "hm_get (accounts l') a = (case hm_get (accounts l) a of None \<Rightarrow> None
      | Some x \<Rightarrow> if ?P x then Some (reload_account ser x) else None)" for a
    unfolding l'_def accs_def ledger.simps by (rule hm_get_reloaded_accounts [OF wf(1)])
  have cheques: "hm_get (last_cumulative_map (reload_account ser x)) = hm_get (last_cumulative_map x)"
    if "hm_get (accounts l) a = Some x" for a x
    using wfc [of a] that by (simp add: reload_account_def hm_get_of_sorted ledger_account_def)
  have "owed l' a = owed l a" for a
    by (auto simp: owed_def acc reload_account_def word_gt_0 split: option.splits)
  moreover have "held_cheque l' a cb = held_cheque l a cb" for a cb
    using cheques by (auto simp: held_cheque_def acc split: option.splits)
  moreover have "reserved l' a = 0" for a
    by (auto simp: reserved_def acc reload_account_def split: option.splits)
  moreover have "hm_get (binding l') = hm_get (binding l)"
    using wf(2) by (simp add: l'_def hm_get_of_sorted)
  ultimately show ?thesis
    using load_disk_persisted [OF ok sz enc, of p]
    by (auto simp: ledger_restarted_def fun_eq_iff l'_def accs_def)
qed


lemma persist_ok_contents:
  assumes "persist ser io l fs = (Inr u, fs')" and "path l = Some p"
  shows "\<exists>body. json_encode ser (to_on_disk ser l) = Some body \<and> hm_get fs' p = Some body"
  using assms by (auto simp: persist_def Let_def split: option.splits if_splits)

lemma last_persist_states: "snd (persist ser io l fs) = last (persist_states ser io l fs)"
  by (simp add: persist_def persist_states_def Let_def split: option.split)

lemma persist_states_atomic:
  assumes "path l = Some p" and "with_extension_tmp p \<noteq> p" and "s \<in> set (persist_states ser io l fs)"
  shows "hm_get s p = hm_get fs p \<or>
    (\<exists>body. json_encode ser (to_on_disk ser l) = Some body \<and> hm_get s p = Some body)"
  using assms by (auto simp: persist_states_def Let_def split: option.splits if_splits)

lemma distinct_held:
  assumes "distinct (map fst accs)" and "\<forall>(a, x) \<in> set accs. distinct (map fst (m x))"
  shows "distinct (concat (map (\<lambda>(a, x). map (\<lambda>(cb, h). (a, cb, h)) (m x)) accs))"
  using assms
proof (induction accs)
  case (Cons e accs)
  obtain a x where e: "e = (a, x)" by (cases e)
  have "distinct (map (\<lambda>(cb, h). (a, cb, h)) (m x))"
    using Cons.prems by (auto simp: e distinct_map inj_on_def)
  then show ?case using Cons by (auto simp: e image_iff) 
qed simp

lemma set_held_cheques:
  assumes "ledger_inv l"
  shows "set (held_cheques l) = {(a, cb, h). held_cheque l a cb = Some h}"
proof -
  have wfa: "hm_wf (accounts l)" and wfc: "\<And>a. hm_wf (last_cumulative_map (ledger_account l a))"
    using assms by (auto simp: ledger_inv_def)
  have "(a, cb, h) \<in> set (held_cheques l) \<longleftrightarrow> held_cheque l a cb = Some h" for a cb h
  proof -
    have "(a, cb, h) \<in> set (held_cheques l) \<longleftrightarrow>
        (\<exists>x. (a, x) \<in> set (accounts l) \<and> (cb, h) \<in> set (last_cumulative_map x))"
      by (force simp: held_cheques_def)
    also have "\<dots> \<longleftrightarrow> (\<exists>x. hm_get (accounts l) a = Some x \<and> hm_get (last_cumulative_map x) cb = Some h)"
    proof -
      have "(cb, h) \<in> set (last_cumulative_map x) \<longleftrightarrow> hm_get (last_cumulative_map x) cb = Some h"
        if "hm_get (accounts l) a = Some x" for x
        using wfc [of a] that by (simp add: ledger_account_def hm_get_iff_in_set)
      then show ?thesis using hm_get_iff_in_set [OF wfa] by metis
    qed
    also have "\<dots> \<longleftrightarrow> held_cheque l a cb = Some h"
      by (auto simp: held_cheque_def split: option.splits)
    finally show ?thesis .
  qed
  then show ?thesis by auto
qed

lemma held_cheques_one_per_chequebook:
  assumes "ledger_inv l"
  shows "sorted_wrt (<) (map (\<lambda>(_, cb, _). cb) (held_cheques l))"
proof -
  have wfa: "hm_wf (accounts l)" and wfc: "\<And>a. hm_wf (last_cumulative_map (ledger_account l a))"
    using assms by (auto simp: ledger_inv_def)
  have "distinct (map fst (last_cumulative_map x))" if "(a, x) \<in> set (accounts l)" for a x
    using wfc [of a] that hm_get_iff_in_set [OF wfa, of a x] by (simp add: ledger_account_def hm_wf_def)
  then have "distinct (held_cheques l)"
    unfolding held_cheques_def
    using distinct_held [of "accounts l" last_cumulative_map] wfa by (auto simp: hm_wf_def)
  moreover have "inj_on (\<lambda>(_, cb, _). cb) (set (held_cheques l))"
    unfolding inj_on_def set_held_cheques [OF assms]
    by auto (metis held_unique [OF assms] option.distinct(1) option.inject)+
  ultimately have "distinct (map (\<lambda>(_, cb, _). cb) (held_cheques l))"
    by (simp add: distinct_map)
  moreover have "sorted (map (\<lambda>(_, cb, _). cb) (held_cheques l))"
    by (simp add: held_cheques_def)
  ultimately show ?thesis by (simp add: strict_sorted_iff)
qed

text \<open>The ledger provides an update that \<^verbatim>\<open>rollback_credit\<close> can undo.\<close>

interpretation cheque_update: undoable_update ledger_inv
  "\<lambda>(a, cb, cum, sig) l. credit l a cb cum sig"
  "\<lambda>(a, cb, cum, sig) l. (owed l a, held_cheque l a cb, had_binding l cb)"
  "\<lambda>(a, cb, cum, sig) (prev_owed, prev_held, bound) l. rollback_credit l a cb prev_owed prev_held bound"
  ledger_eqv
  by unfold_locales
    (auto simp: ledger_inv_credit intro: credit_error_eqv rollback_credit_eqv)

section \<open>Cheques are worth their value once\<close>

lemma last_cumulative_step_mono: "last_cumulative l a cb \<le> last_cumulative (ledger_step l op) a cb"
proof (cases op)
  case (Credit b cb' cum sig)
  show ?thesis
    by (cases rule: credit_cases [of cum l b cb' sig]) (auto simp: Credit ledger_readings)
qed (simp_all add: ledger_readings)

lemma last_cumulative_run_mono: "last_cumulative l a cb \<le> last_cumulative (ledger_run l ops) a cb"
  unfolding ledger_run_def
proof (induction ops arbitrary: l)
  case (Cons op ops)
  have "last_cumulative l a cb \<le> last_cumulative (ledger_step l op) a cb"
    by (rule last_cumulative_step_mono)
  also have "\<dots> \<le> last_cumulative (foldl ledger_step (ledger_step l op) ops) a cb"
    by (rule Cons.IH)
  finally show ?case by simp
qed simp

lemma path_run [simp]: "path (ledger_run l ops) = path l"
proof -
  have "path (ledger_step m op) = path m" for m op
  proof (cases op)
    case (Credit b cb cum sig)
    show ?thesis
      by (cases rule: credit_cases [of cum m b cb sig]) (auto simp: Credit ledger_eqv_def)
  qed simp_all
  then show ?thesis
    unfolding ledger_run_def by (induction ops arbitrary: l) simp_all
qed

lemma credit_accepted_cumulative:
  "credit l a cb cum sig = (Inr d, l') \<Longrightarrow> last_cumulative l' a cb = cum"
  by (cases rule: credit_cases [of cum l a cb sig]) (auto simp: ledger_readings)

lemma credit_refuses_stale:
  assumes "cum \<le> last_cumulative l a cb"
  obtains e l' where "credit l a cb cum sig = (Inl e, l')" "ledger_eqv l' l"
  using assms by (cases rule: credit_cases [of cum l a cb sig]) auto

lemma load_after_persist:
  assumes "serde_ok ser" "ledger_sized l" "ledger_inv l" "path l = Some p"
    and "persist ser io l fs = (Inr u, fs')" "io_read_ok io'"
  obtains l' where "load_or_create ser io' entropy p fs' = (Inr l', fs')" "ledger_restarted l l'"
    "path l' = Some p"
proof -
  obtain body where "json_encode ser (to_on_disk ser l) = Some body" "hm_get fs' p = Some body"
    using persist_ok_contents assms(4,5) by blast
  then show thesis
    using that load_disk_restarts [OF assms(1-3), of body p] assms(6)
    by (auto simp: load_or_create_def)
qed

section \<open>Sizes\<close>

text \<open>The arrays of the source have fixed lengths; every operation keeps them.\<close>

lemma set_hm_of_list: "set (hm_of_list xs m) \<subseteq> set xs \<union> set m"
proof (induction xs arbitrary: m)
  case (Cons x xs)
  obtain k v where x: "x = (k, v)" by (cases x)
  show ?case using Cons [of "hm_insert k v m"] set_hm_insert [of k v m] by (auto simp: x)
qed simp

lemma account_sized_account:
  assumes "ledger_sized l" "length a = 20"
  shows "account_sized (a, ledger_account l a)"
proof (cases "hm_get (accounts l) a")
  case None
  then show ?thesis using assms(2) by (simp add: account_sized_def ledger_account_def default_account_def)
next
  case (Some x)
  then show ?thesis using assms(1) hm_get_in_set [OF Some] by (auto simp: ledger_sized_def ledger_account_def)
qed

lemma ledger_sized_put:
  "ledger_sized l \<Longrightarrow> account_sized (a, x) \<Longrightarrow> ledger_sized (put_account a x l)"
  using set_hm_insert [of a x "accounts l"] by (auto simp: ledger_sized_def put_account_def)

lemma account_sized_money [simp]:
  "account_sized (a, x\<lparr>owed_plur := n\<rparr>) = account_sized (a, x)"
  "account_sized (a, x\<lparr>reserved_plur := n\<rparr>) = account_sized (a, x)"
  by (simp_all add: account_sized_def)

lemma account_sized_cheque:
  assumes "account_sized (a, x)" "length cb = 20" "length (cheque_signature c) = 65"
  shows "account_sized (a, x\<lparr>last_cumulative_map := hm_insert cb c (last_cumulative_map x)\<rparr>)"
  using assms set_hm_insert [of cb c "last_cumulative_map x"] by (auto simp: account_sized_def)

lemma account_sized_forget:
  "account_sized (a, x) \<Longrightarrow> account_sized (a, x\<lparr>last_cumulative_map := hm_remove cb (last_cumulative_map x)\<rparr>)"
  using set_hm_remove [of cb "last_cumulative_map x"] by (auto simp: account_sized_def)

lemma ledger_sized_binding:
  "ledger_sized l \<Longrightarrow> length cb = 20 \<Longrightarrow> length a = 20 \<Longrightarrow> ledger_sized (l\<lparr>binding := hm_insert cb a (binding l)\<rparr>)"
  "ledger_sized l \<Longrightarrow> ledger_sized (l\<lparr>binding := hm_remove cb (binding l)\<rparr>)"
  using set_hm_insert [of cb a "binding l"] set_hm_remove [of cb "binding l"]
  by (auto simp: ledger_sized_def)

lemma ledger_sized_ops:
  assumes "ledger_sized l" "length a = 20"
  shows "ledger_sized (snd (reserve l a n c))" "ledger_sized (commit l a r n)"
    "ledger_sized (put_account a (ledger_account l a) l)"
  using assms account_sized_account [OF assms]
  by (simp_all add: reserve_def commit_def Let_def ledger_sized_put)

lemma ledger_sized_release:
  assumes "ledger_sized l" "length a = 20"
  shows "ledger_sized (release l a n)"
  using assms account_sized_account [OF assms]
  by (auto simp: release_def ledger_account_def ledger_sized_put split: option.splits)

lemma ledger_sized_credit:
  assumes "ledger_sized l" "length a = 20" "length cb = 20" "length sig = 65"
  shows "ledger_sized (snd (credit l a cb cum sig))"
proof -
  let ?x = "ledger_account l a"
  let ?c = "\<lparr>cumulative_plur = cum, cheque_signature = sig\<rparr>"
  have x: "account_sized (a, ?x)" by (rule account_sized_account [OF assms(1,2)])
  have x': "account_sized (a, ?x\<lparr>last_cumulative_map := hm_insert cb ?c (last_cumulative_map ?x), owed_plur := n\<rparr>)" for n
    using account_sized_cheque [OF x assms(3), of ?c] assms(4) by simp
  have l1: "ledger_sized (put_account a ?x l)" by (rule ledger_sized_ops(3) [OF assms(1,2)])
  show ?thesis
    using assms l1 ledger_sized_binding(1) [OF ledger_sized_put [OF l1 x'], of cb a]
    by (simp add: credit_def Let_def)
qed

lemma ledger_sized_rollback:
  assumes "ledger_sized l" "length a = 20" "length cb = 20"
    and "\<And>h. held = Some h \<Longrightarrow> length (cheque_signature h) = 65"
  shows "ledger_sized (rollback_credit l a cb n held b)"
proof -
  have "ledger_sized (put_account a (x\<lparr>owed_plur := n, last_cumulative_map :=
      (case held of Some h \<Rightarrow> hm_insert cb h (last_cumulative_map x) | None \<Rightarrow> hm_remove cb (last_cumulative_map x))\<rparr>) l)"
    if "hm_get (accounts l) a = Some x" for x
  proof (rule ledger_sized_put [OF assms(1)])
    have "account_sized (a, x\<lparr>owed_plur := n\<rparr>)"
      using account_sized_account [OF assms(1,2)] that by (simp add: ledger_account_def)
    then show "account_sized (a, x\<lparr>owed_plur := n, last_cumulative_map :=
      (case held of Some h \<Rightarrow> hm_insert cb h (last_cumulative_map x) | None \<Rightarrow> hm_remove cb (last_cumulative_map x))\<rparr>)"
      using account_sized_cheque [of a "x\<lparr>owed_plur := n\<rparr>" cb] account_sized_forget [of a "x\<lparr>owed_plur := n\<rparr>" cb] assms(3,4)
      by (cases held) simp_all
  qed
  then show ?thesis
    using assms(1) ledger_sized_binding(2) by (simp add: rollback_credit_def Let_def split: option.split)
qed

lemma held_cheque_sized:
  assumes "ledger_sized l" "held_cheque l a cb = Some h"
  shows "length (cheque_signature h) = 65"
proof -
  obtain x where "hm_get (accounts l) a = Some x" "hm_get (last_cumulative_map x) cb = Some h"
    using assms(2) by (auto simp: held_cheque_def split: option.splits)
  then show ?thesis
    using assms(1) by (fastforce simp: ledger_sized_def account_sized_def dest: hm_get_in_set)
qed

section \<open>A reloaded ledger\<close>

lemma hm_wf_of_list: "hm_wf m \<Longrightarrow> hm_wf (hm_of_list xs m)"
  proof (induction xs arbitrary: m)
  case (Cons x xs)
  then show ?case by (cases x) (simp add: hm_wf_insert)
qed simp

lemma load_disk_reloads:
  assumes "serde_ok ser" "ledger_sized l" "ledger_inv l" "json_encode ser (to_on_disk ser l) = Some body"
  obtains l' where "load_disk ser p body = Inr l'" "ledger_restarted l l'" "path l' = Some p"
    "ledger_inv l'" "ledger_sized l'"
proof -
  obtain l' where l': "load_disk ser p body = Inr l'" "ledger_restarted l l'" "path l' = Some p"
    using load_disk_restarts [OF assms, of p] by blast
  let ?accs = "map (\<lambda>(k, a). (k, reload_account ser a))
     (sort_key (\<lambda>e. od_account (on_disk_account_of ser e))
       (filter (\<lambda>(_, a). owed_plur a > 0 \<or> last_cumulative_map a \<noteq> []) (accounts l)))"
  let ?bnd = "sort_key (\<lambda>(cb, a). (hex_encode ser cb, hex_encode ser a)) (binding l)"
  have eq: "accounts l' = hm_of_list ?accs []" "binding l' = hm_of_list ?bnd []" "secret l' = secret l"
    using load_disk_persisted [OF assms(1,2,4), of p] l'(1) by auto
  have sized: "account_sized (k, reload_account ser a)" if "(k, a) \<in> set (accounts l)" for k a
  proof -
    have "account_sized (k, a)" using that assms(2) by (auto simp: ledger_sized_def)
    then show ?thesis
      using set_hm_of_list [of "sort_key (on_disk_cheque ser) (last_cumulative_map a)" "[]"]
      by (auto simp: account_sized_def reload_account_def)
  qed
  have "ledger_sized l'"
    unfolding ledger_sized_def eq
    using assms(2) set_hm_of_list [of ?accs "[]"] set_hm_of_list [of ?bnd "[]"] sized
    by (auto simp: ledger_sized_def)
  moreover have "hm_wf (last_cumulative_map (ledger_account l' a))" for a
  proof (cases "hm_get (accounts l') a")
    case None
    then show ?thesis by (simp add: ledger_account_def default_account_def)
  next
    case (Some x)
    then have "(a, x) \<in> set ?accs" using hm_get_in_set [OF Some] set_hm_of_list [of ?accs "[]"] by (auto simp: eq)
    then show ?thesis using Some by (auto simp: ledger_account_def reload_account_def hm_wf_of_list)
  qed
  then have "ledger_inv l'"
    using assms(3) l'(2)
    by (simp add: hm_wf_of_list ledger_inv_def ledger_restarted_def eq(1,2) last_cumulative_eq)
  ultimately show thesis using that l' by blast
qed

section \<open>Properties\<close>

text \<open>
  C15. Conservation: whatever sequence of reservations, releases, commits and cheques a fresh
  ledger goes through, each account's debt plus the value of the cheques held from it is
  exactly what was billed to it, as long as the bill fits in the integer type.
\<close>

theorem ledger_conservation:
  assumes "billed_total a ops < 2 ^ 128"
  shows "unat (owed (ledger_run (ephemeral s) ops) a) + paid_total (ledger_run (ephemeral s) ops) a =
    billed_total a ops"
proof -
  have "owed (ephemeral s) a = 0" "paid_total (ephemeral s) a = 0"
    by (simp_all add: owed_def ephemeral_def paid_total_def ledger_account_def default_account_def
        hm_sum_def)
  then show ?thesis using ledger_run_conserves [of "ephemeral s" a ops] assms by simp
qed

definition demo_account :: bytes where "demo_account = replicate 20 1"
definition demo_chequebook :: bytes where "demo_chequebook = replicate 20 2"
definition demo_ops :: "ledger_op list" where
  "demo_ops =
     [Reserve demo_account 500 1000, Commit demo_account 500 400,
      Credit demo_account demo_chequebook 300 (replicate 65 7)]"

lemma demo_run:
  "ledger_run (ephemeral s) demo_ops =
     \<lparr>accounts = [(demo_account, \<lparr>owed_plur = 100, reserved_plur = 0,
        last_cumulative_map = [(demo_chequebook, \<lparr>cumulative_plur = 300, cheque_signature = replicate 65 7\<rparr>)]\<rparr>)],
      binding = [(demo_chequebook, demo_account)], secret = s, path = None\<rparr>"
  by (simp add: demo_ops_def ledger_run_def reserve_def commit_def credit_def ephemeral_def Let_def
      put_account_def ledger_account_def default_account_def saturating_add_def saturating_sub_def
      MAX_CUMULATIVE_PLUR_def hm_insert_def hm_get_def)

theorem ledger_conservation_witness:
  "billed_total demo_account demo_ops = 400 \<and>
   unat (owed (ledger_run (ephemeral []) demo_ops) demo_account) = 100 \<and>
   paid_total (ledger_run (ephemeral []) demo_ops) demo_account = 300"
proof -
  have b: "billed_total demo_account demo_ops = 400" by (simp add: demo_ops_def billed_total_def)
  have o: "unat (owed (ledger_run (ephemeral []) demo_ops) demo_account) = 100"
    by (simp add: demo_run owed_def hm_get_def)
  show ?thesis
    using ledger_conservation [of demo_account demo_ops "[]"] b o by simp
qed

text \<open>
  C27. Cheques and bindings agree in every state a fresh ledger can reach: a cheque from a
  chequebook is held under an account exactly when the chequebook is bound to that account (so
  no two accounts ever share one chequebook), and no accepted cumulative is implausibly large.
\<close>

theorem ledger_reachable_binding:
  fixes s ops
  defines "l \<equiv> ledger_run (ephemeral s) ops"
  shows "(held_cheque l a cb \<noteq> None) = (hm_get (binding l) cb = Some a) \<and>
    last_cumulative l a cb \<le> MAX_CUMULATIVE_PLUR"
  using ledger_run_inv [OF ledger_inv_ephemeral, of s ops] by (simp add: l_def ledger_inv_def)

text \<open>
  C16. A restart loses nothing durable: loading the file a successful \<^verbatim>\<open>persist\<close> wrote gives the
  same debts, cheques with their signatures, bindings and secret, and no reservation.
\<close>

theorem restart_keeps_durable_state:
  assumes "serde_ok ser" "ledger_sized l" "ledger_inv l" "path l = Some p"
    and "persist ser io l fs = (Inr u, fs')" "io_read_ok io'"
  shows "\<exists>l'. load_or_create ser io' entropy p fs' = (Inr l', fs') \<and> secret l' = secret l \<and>
    (\<forall>a. owed l' a = owed l a \<and> reserved l' a = 0 \<and> hm_get (binding l') a = hm_get (binding l) a) \<and>
    (\<forall>a cb. held_cheque l' a cb = held_cheque l a cb)"
proof -
  obtain l' where "load_or_create ser io' entropy p fs' = (Inr l', fs')" "ledger_restarted l l'"
    using load_after_persist [OF assms] by blast
  then show ?thesis by (intro exI [of _ l']) (simp add: ledger_restarted_def)
qed

definition hex_serde :: "on_disk \<Rightarrow> serde" where
  "hex_serde d =
     \<lparr>hex_encode = plain_hex_encode, hex_decode = plain_hex_decode,
      json_encode = (\<lambda>d'. if d' = d then Some ''doc'' else None),
      json_decode = (\<lambda>t. if t = ''doc'' then Some d else None)\<rparr>"

lemma serde_ok_hex_serde: "serde_ok (hex_serde d)"
  by (simp add: serde_ok_def hex_serde_def plain_hex_roundtrip plain_hex_no_x)

definition blank_disk :: on_disk where
  "blank_disk = \<lparr>version = 2, secret_hex = [], od_accounts = [], od_binding = []\<rparr>"

definition demo_serde :: "ledger \<Rightarrow> serde" where
  "demo_serde l = hex_serde (to_on_disk (hex_serde blank_disk) l)"

lemma to_on_disk_hex_serde: "to_on_disk (hex_serde d) l = to_on_disk (hex_serde d') l"
  by (simp add: to_on_disk_def on_disk_account_of_def on_disk_cheque_def hex_serde_def cong: if_cong)

lemma json_encode_demo_serde: "json_encode (demo_serde l) (to_on_disk (demo_serde l) l) = Some ''doc''"
  unfolding demo_serde_def
  by (subst to_on_disk_hex_serde [of _ l blank_disk]) (simp add: hex_serde_def)

definition demo_io :: io where
  "demo_io = \<lparr>io_read_ok = True, io_write_fails = None, io_rename_ok = True\<rparr>"

definition demo_ledger :: ledger where
  "demo_ledger = (ledger_run (ephemeral (replicate 32 9)) demo_ops)\<lparr>path := Some ''s/ledger.json''\<rparr>"

definition demo_ledger_before :: ledger where
  "demo_ledger_before =
     \<lparr>accounts = [(demo_account, \<lparr>owed_plur = 400, reserved_plur = 0, last_cumulative_map = []\<rparr>)],
      binding = [], secret = replicate 32 9, path = Some ''s/ledger.json''\<rparr>"

lemma serde_ok_demo_serde: "serde_ok (demo_serde l)"
  by (simp add: demo_serde_def serde_ok_hex_serde)

lemma demo_before_inv: "ledger_inv demo_ledger_before"
  by (auto simp: demo_ledger_before_def ledger_inv_def ledger_readings ledger_account_def hm_get_def
      hm_wf_def default_account_def held_cheque_def)

lemma demo_ledger_sized: "ledger_sized demo_ledger"
  by (simp add: demo_ledger_def demo_run ledger_sized_def account_sized_def demo_account_def demo_chequebook_def)

lemma demo_ledger_inv: "ledger_inv demo_ledger"
  using ledger_run_inv [OF ledger_inv_ephemeral, of "replicate 32 9" demo_ops]
  by (simp add: demo_ledger_def ledger_inv_def ledger_readings ledger_account_def)

lemma persist_demo: "persist (demo_serde demo_ledger) demo_io demo_ledger [] =
    (Inr (), hm_insert ''s/ledger.json'' ''doc''
      (hm_remove (with_extension_tmp ''s/ledger.json'') (hm_insert (with_extension_tmp ''s/ledger.json'') ''doc'' [])))"
  using json_encode_demo_serde [of demo_ledger]
  by (simp add: persist_def demo_io_def demo_ledger_def Let_def)

lemma persist_demo_snd:
  "snd (persist (demo_serde demo_ledger) demo_io demo_ledger []) =
    hm_insert ''s/ledger.json'' ''doc''
      (hm_remove (with_extension_tmp ''s/ledger.json'') (hm_insert (with_extension_tmp ''s/ledger.json'') ''doc'' []))"
  by (simp add: persist_demo)

theorem restart_keeps_durable_state_witness:
  "\<exists>l' fs'. load_or_create (demo_serde demo_ledger) demo_io [] ''s/ledger.json'' fs' = (Inr l', fs') \<and>
     owed l' demo_account = 100 \<and> reserved l' demo_account = 0"
proof -
  have p: "path demo_ledger = Some ''s/ledger.json''" by (simp add: demo_ledger_def)
  have io: "io_read_ok demo_io" by (simp add: demo_io_def)
  have o: "owed demo_ledger demo_account = 100" by (simp add: demo_ledger_def demo_run owed_def hm_get_def)
  show ?thesis
    using restart_keeps_durable_state [OF serde_ok_demo_serde demo_ledger_sized demo_ledger_inv p persist_demo io, of "[]"] o
    by force
qed


text \<open>
  A cheque is credited at most once, also across a restart: once a cheque of cumulative
  \<^term>\<open>cum\<close> is accepted, then after any further operations, a successful \<^verbatim>\<open>persist\<close> and a
  reload, a cheque of that chequebook with no larger cumulative is refused and changes nothing.
\<close>

lemma cheque_not_replayable:
  assumes "serde_ok ser" "ledger_inv l" "path l = Some p" "io_read_ok io'"
    and "credit l a cb cum sig = (Inr d, l1)" "ledger_sized (ledger_run l1 ops)"
    and "persist ser io (ledger_run l1 ops) fs = (Inr u, fs')" "cum' \<le> cum"
  shows "\<exists>l2 e l3. load_or_create ser io' entropy p fs' = (Inr l2, fs') \<and>
    credit l2 a cb cum' sig' = (Inl e, l3) \<and> ledger_eqv l3 l2"
proof -
  let ?l = "ledger_run l1 ops"
  have l1: "l1 = ledger_step l (Credit a cb cum sig)" using assms(5) by simp
  have inv: "ledger_inv ?l" unfolding l1 by (intro ledger_run_inv ledger_step_inv assms(2))
  have "path l1 = path (ledger_run l [Credit a cb cum sig])" by (simp add: l1 ledger_run_def)
  then have p: "path ?l = Some p" by (simp add: assms(3))
  obtain l2 where l2: "load_or_create ser io' entropy p fs' = (Inr l2, fs')" "ledger_restarted ?l l2"
    using load_after_persist [OF assms(1,6) inv p assms(7,4)] by blast
  have "cum' \<le> last_cumulative l1 a cb"
    using assms(8) credit_accepted_cumulative [OF assms(5)] by simp
  also have "\<dots> \<le> last_cumulative ?l a cb" by (rule last_cumulative_run_mono)
  also have "\<dots> = last_cumulative l2 a cb"
    using l2(2) by (simp add: ledger_restarted_def last_cumulative_eq)
  finally obtain e l3 where "credit l2 a cb cum' sig' = (Inl e, l3)" "ledger_eqv l3 l2"
    by (rule credit_refuses_stale)
  then show ?thesis using l2(1) by blast
qed

lemma demo_credit_replay:
  "credit (demo_ledger_before) demo_account demo_chequebook 300 (replicate 65 7) = (Inr 300, demo_ledger)"
  by (simp add: demo_ledger_before_def demo_ledger_def demo_run credit_def Let_def ledger_account_def
      put_account_def MAX_CUMULATIVE_PLUR_def hm_insert_def hm_get_def)

lemma cheque_not_replayable_example:
  "\<exists>l2 e l3 fs'. load_or_create (demo_serde demo_ledger) demo_io [] ''s/ledger.json'' fs' = (Inr l2, fs') \<and>
    credit l2 demo_account demo_chequebook 300 (replicate 65 7) = (Inl e, l3) \<and> ledger_eqv l3 l2"
proof -
  have run: "ledger_run demo_ledger [] = demo_ledger" by (simp add: ledger_run_def)
  have p: "path demo_ledger_before = Some ''s/ledger.json''" by (simp add: demo_ledger_before_def)
  have io: "io_read_ok demo_io" by (simp add: demo_io_def)
  note replay = cheque_not_replayable [OF serde_ok_demo_serde demo_before_inv p io demo_credit_replay]
  have "\<exists>l2 e l3. load_or_create (demo_serde demo_ledger) demo_io [] ''s/ledger.json''
      (snd (persist (demo_serde demo_ledger) demo_io demo_ledger [])) =
      (Inr l2, snd (persist (demo_serde demo_ledger) demo_io demo_ledger [])) \<and>
    credit l2 demo_account demo_chequebook 300 (replicate 65 7) = (Inl e, l3) \<and> ledger_eqv l3 l2"
    by (rule replay [of "[]", unfolded run, OF demo_ledger_sized persist_demo order_refl,
          folded persist_demo_snd])
  then show ?thesis by blast
qed



text \<open>
  C37. The cash-out list is exact in every reachable state: it is sorted and free of duplicates,
  names every held cheque with its account, signature and amount and nothing else, and lists
  each chequebook once.
\<close>

theorem held_cheques_exact:
  fixes s ops
  defines "l \<equiv> ledger_run (ephemeral s) ops"
  shows "sorted_wrt (<) (map (\<lambda>(_, cb, _). cb) (held_cheques l)) \<and>
    set (held_cheques l) = {(a, cb, c). held_cheque l a cb = Some c}"
  using set_held_cheques held_cheques_one_per_chequebook ledger_run_inv [OF ledger_inv_ephemeral]
  by (simp add: l_def)

text \<open>
  Admission: \<^verbatim>\<open>reserve\<close> reports over-cap exactly when debt, earlier reservations and the new
  one together (capped at the integer maximum, which the code saturates to) exceed the cap, and
  releasing what was reserved restores every reading unless the reservations overflowed.
\<close>

lemma reserve_admission_exact:
  "adm_over_cap (fst (reserve l a amount cap)) =
      (min (2 ^ 128 - 1) (unat (owed l a) + unat (reserved l a) + unat amount) > unat cap) \<and>
   (unat (reserved l a) + unat amount < 2 ^ 128 \<longrightarrow>
      ledger_eqv (release (snd (reserve l a amount cap)) a amount) l)"
proof
  have "adm_over_cap (fst (reserve l a amount cap)) =
      (unat (saturating_add (owed l a) (saturating_add (reserved l a) amount)) > unat cap)"
    by (simp add: reserve_def Let_def account_outstanding_def ledger_readings word_less_nat_alt)
  then show "adm_over_cap (fst (reserve l a amount cap)) =
      (min (2 ^ 128 - 1) (unat (owed l a) + unat (reserved l a) + unat amount) > unat cap)"
    by (simp add: unat_simps min_def add.assoc)
  show "unat (reserved l a) + unat amount < 2 ^ 128 \<longrightarrow>
      ledger_eqv (release (snd (reserve l a amount cap)) a amount) l"
  proof
    assume "unat (reserved l a) + unat amount < 2 ^ 128"
    then have "saturating_sub (saturating_add (reserved l a) amount) amount = reserved l a"
      by (simp add: word_unat_eq_iff unat_simps)
    then show "ledger_eqv (release (snd (reserve l a amount cap)) a amount) l"
      by (auto simp: ledger_eqv_def fun_eq_iff ledger_readings)
  qed
qed

lemma reserve_admission_exact_example:
  "unat (reserved demo_ledger demo_account) = 0 \<and>
   adm_over_cap (fst (reserve demo_ledger demo_account 50 120)) \<and>
   ledger_eqv (release (snd (reserve demo_ledger demo_account 50 120)) demo_account 50) demo_ledger"
proof -
  have "unat (reserved demo_ledger demo_account) = 0" "unat (owed demo_ledger demo_account) = 100"
    by (simp_all add: demo_ledger_def demo_run owed_def reserved_def hm_get_def)
  then show ?thesis
    using reserve_admission_exact [of demo_ledger demo_account 50 120] by simp
qed

end
