(* ===== verification/Meter.thy ===== *)
theory Meter
  imports Ledger
begin

text \<open>
  The shadow meter and the settlement parameters, \<^verbatim>\<open>src/meter.rs\<close>: a per-request tally of
  admitted and deduplicated bytes, its fold into the bounded per-batch table with totals that
  survive eviction, the reports built from them, and the pricing rules a metered relay enforces.
  Floating-point operations take the rounding function \<^verbatim>\<open>fl\<close> to the nearest double as an
  argument; JSON values are trees of the keys the code writes.
\<close>

section \<open>Data\<close>

definition PRICE_PLUR_PER_KIB :: u128 where "PRICE_PLUR_PER_KIB = 480000000"
definition SETTLE_EVERY_PLUR :: u128 where "SETTLE_EVERY_PLUR = 15600000000000"
definition MAX_OUTSTANDING_PLUR :: u128 where "MAX_OUTSTANDING_PLUR = 62200000000000"
definition CASHOUT_THRESHOLD_PLUR :: u128 where "CASHOUT_THRESHOLD_PLUR = 2500000000000000"
definition CREDIT_RATIO :: u128 where "CREDIT_RATIO = 1000"
definition METER_ROW_CAP :: usize where "METER_ROW_CAP = 4096"
definition MIN_CHEQUE_PLUR :: u128 where "MIN_CHEQUE_PLUR = 3900000000000"

datatype account_batch = AccountBatch (ab_owner: bytes) (ab_batch: bytes)

text \<open>The derived order: owner first, then batch.\<close>

instantiation account_batch :: linorder
begin

definition less_eq_account_batch :: "account_batch \<Rightarrow> account_batch \<Rightarrow> bool" where
  "less_eq_account_batch x y = ((ab_owner x, ab_batch x) \<le> (ab_owner y, ab_batch y))"

definition less_account_batch :: "account_batch \<Rightarrow> account_batch \<Rightarrow> bool" where
  "less_account_batch x y = ((ab_owner x, ab_batch x) < (ab_owner y, ab_batch y))"

instance
proof
  fix x y z :: account_batch
  show "x < y \<longleftrightarrow> x \<le> y \<and> \<not> y \<le> x"
    by (auto simp: less_eq_account_batch_def less_account_batch_def less_le_not_le)
  show "x \<le> x" by (simp add: less_eq_account_batch_def)
  show "x \<le> y \<Longrightarrow> y \<le> z \<Longrightarrow> x \<le> z"
    unfolding less_eq_account_batch_def by (rule order_trans)
  show "x \<le> y \<Longrightarrow> y \<le> x \<Longrightarrow> x = y"
    unfolding less_eq_account_batch_def by (cases x; cases y) (auto dest: antisym)
  show "x \<le> y \<or> y \<le> x" unfolding less_eq_account_batch_def by (rule linear)
qed

end

record row =
  kib_admitted :: u64
  kib_dedup :: u64
  r_frames :: u64
  dedup_frames :: u64
  remaining_value_plur :: u128
  first_seen :: instant
  last_seen :: instant

definition billable_kib :: "row \<Rightarrow> u64" where
  "billable_kib r = saturating_sub (kib_admitted r) (kib_dedup r)"

definition credit_plur :: "row \<Rightarrow> u128" where
  "credit_plur r = min (remaining_value_plur r div CREDIT_RATIO) MAX_OUTSTANDING_PLUR"

definition credit_kib :: "row \<Rightarrow> u64" where
  "credit_kib r = ucast (min (credit_plur r div PRICE_PLUR_PER_KIB) (ucast (- 1 :: u64)))"

record owner_totals =
  ot_kib :: u64
  ot_kib_dedup :: u64
  ot_frames :: u64
  ot_batches :: u64

definition default_owner_totals :: owner_totals where
  "default_owner_totals = \<lparr>ot_kib = 0, ot_kib_dedup = 0, ot_frames = 0, ot_batches = 0\<rparr>"

definition ot_owed_plur :: "owner_totals \<Rightarrow> u128" where
  "ot_owed_plur t = ucast (saturating_sub (ot_kib t) (ot_kib_dedup t)) * PRICE_PLUR_PER_KIB"

record tally_row =
  tr_key :: account_batch
  tr_remaining_value_plur :: u128
  tr_bytes_admitted :: u64
  tr_bytes_dedup :: u64
  tr_frames :: u64
  tr_dedup_frames :: u64

type_synonym post_tally = "tally_row list"

section \<open>The per-request tally\<close>

definition tally_is_empty :: "post_tally \<Rightarrow> bool" where
  "tally_is_empty t = (t = [])"

text \<open>
  \<^verbatim>\<open>slot\<close> returns a mutable reference to the row of a key, which it creates when absent; here it
  returns the rows with that row present, and its index.
\<close>

fun row_position :: "account_batch \<Rightarrow> tally_row list \<Rightarrow> usize option" where
  "row_position key [] = None"
| "row_position key (r # rs) =
     (if tr_key r = key then Some 0 else map_option Suc (row_position key rs))"

definition slot :: "post_tally \<Rightarrow> account_batch \<Rightarrow> u128 \<Rightarrow> post_tally \<times> usize" where
  "slot rows key remaining =
     (case row_position key rows of
        Some i \<Rightarrow>
          (if tr_remaining_value_plur (rows ! i) = 0
           then (rows[i := (rows ! i)\<lparr>tr_remaining_value_plur := remaining\<rparr>], i)
           else (rows, i))
      | None \<Rightarrow>
          (rows @ [\<lparr>tr_key = key, tr_remaining_value_plur = remaining, tr_bytes_admitted = 0,
                    tr_bytes_dedup = 0, tr_frames = 0, tr_dedup_frames = 0\<rparr>], length rows))"

definition admit :: "post_tally \<Rightarrow> account_batch \<Rightarrow> u128 \<Rightarrow> u64 \<Rightarrow> post_tally" where
  "admit rows key remaining n =
     (case slot rows key remaining of (rows', i) \<Rightarrow>
        let r = rows' ! i in
        rows'[i := r\<lparr>tr_bytes_admitted := tr_bytes_admitted r + n, tr_frames := tr_frames r + 1\<rparr>])"

definition dedup :: "post_tally \<Rightarrow> account_batch \<Rightarrow> u128 \<Rightarrow> u64 \<Rightarrow> post_tally" where
  "dedup rows key remaining n =
     (case slot rows key remaining of (rows', i) \<Rightarrow>
        let r = rows' ! i in
        rows'[i := r\<lparr>tr_bytes_dedup := tr_bytes_dedup r + n, tr_dedup_frames := tr_dedup_frames r + 1\<rparr>])"

section \<open>The bounded table\<close>

record meter =
  m_rows :: "(account_batch, row) hashmap"
  m_order :: "account_batch list"
  m_cap :: usize
  m_started :: instant
  evicted_rows :: u64
  evicted_kib :: u64
  evicted_kib_dedup :: u64
  evicted_frames :: u64

definition meter_new :: "instant \<Rightarrow> usize \<Rightarrow> meter" where
  "meter_new now c =
     \<lparr>m_rows = [], m_order = [], m_cap = max c 1, m_started = now, evicted_rows = 0, evicted_kib = 0,
      evicted_kib_dedup = 0, evicted_frames = 0\<rparr>"

definition meter_default :: "instant \<Rightarrow> meter" where
  "meter_default now = meter_new now METER_ROW_CAP"

definition merge_row :: "instant \<Rightarrow> meter \<Rightarrow> tally_row \<Rightarrow> meter" where
  "merge_row now m t =
     (let kib = div_ceil (tr_bytes_admitted t) 1024;
          kdedup = min (div_ceil (tr_bytes_dedup t) 1024) kib
      in case hm_get (m_rows m) (tr_key t) of
           Some r \<Rightarrow>
             m\<lparr>m_rows := hm_insert (tr_key t)
                 (r\<lparr>kib_admitted := kib_admitted r + kib, kib_dedup := kib_dedup r + kdedup,
                    r_frames := r_frames r + tr_frames t, dedup_frames := dedup_frames r + tr_dedup_frames t,
                    remaining_value_plur :=
                      (if tr_remaining_value_plur t > 0 then tr_remaining_value_plur t
                       else remaining_value_plur r),
                    last_seen := now\<rparr>) (m_rows m)\<rparr>
         | None \<Rightarrow>
             m\<lparr>m_rows := hm_insert (tr_key t)
                 \<lparr>kib_admitted = kib, kib_dedup = kdedup, r_frames = tr_frames t,
                  dedup_frames = tr_dedup_frames t,
                  remaining_value_plur = tr_remaining_value_plur t,
                  first_seen = now, last_seen = now\<rparr> (m_rows m),
               m_order := m_order m @ [tr_key t]\<rparr>)"

definition evict_key :: "account_batch \<Rightarrow> meter \<Rightarrow> meter" where
  "evict_key old m =
     (case hm_get (m_rows m) old of
        Some r \<Rightarrow>
          m\<lparr>m_rows := hm_remove old (m_rows m), evicted_rows := evicted_rows m + 1,
            evicted_kib := evicted_kib m + kib_admitted r,
            evicted_kib_dedup := evicted_kib_dedup m + kib_dedup r,
            evicted_frames := evicted_frames m + r_frames r\<rparr>
      | None \<Rightarrow> m)"

function evict :: "meter \<Rightarrow> meter" where
  "evict m =
     (if length (m_order m) > m_cap m then
        (case m_order m of
           [] \<Rightarrow> m
         | old # rest \<Rightarrow> evict (evict_key old (m\<lparr>m_order := rest\<rparr>)))
      else m)"
  by pat_completeness auto
termination
  by (relation "measure (\<lambda>m. length (m_order m))") (auto simp: evict_key_def split: option.split)

declare evict.simps [simp del]

definition merge :: "instant \<Rightarrow> meter \<Rightarrow> post_tally \<Rightarrow> meter" where
  "merge now m tally = evict (foldl (merge_row now) m tally)"

section \<open>Reports\<close>

definition window_secs :: "instant \<Rightarrow> meter \<Rightarrow> nat" where
  "window_secs now m = (now - m_started m) div secs 1"

definition add_owner :: "(bytes, owner_totals) hashmap \<Rightarrow> account_batch \<times> row \<Rightarrow> (bytes, owner_totals) hashmap" where
  "add_owner out = (\<lambda>(k, r).
     let e = (case hm_get out (ab_owner k) of None \<Rightarrow> default_owner_totals | Some e \<Rightarrow> e)
     in hm_insert (ab_owner k)
          (e\<lparr>ot_kib := ot_kib e + kib_admitted r, ot_kib_dedup := ot_kib_dedup e + kib_dedup r,
             ot_frames := ot_frames e + r_frames r, ot_batches := ot_batches e + 1\<rparr>) out)"

definition by_owner :: "meter \<Rightarrow> (bytes, owner_totals) hashmap" where
  "by_owner m = foldl add_owner [] (m_rows m)"

text \<open>\<^verbatim>\<open>f64::round\<close>: to the nearest integer, ties away from zero.\<close>

definition f64_round :: "real \<Rightarrow> real" where
  "f64_round x = (if x \<ge> 0 then of_int \<lfloor>x + 1 / 2\<rfloor> else of_int \<lceil>x - 1 / 2\<rceil>)"

definition round3 :: "(real \<Rightarrow> real) \<Rightarrow> real \<Rightarrow> real" where
  "round3 fl v = fl (f64_round (fl (v * 1000)) / 1000)"

definition round6 :: "(real \<Rightarrow> real) \<Rightarrow> real \<Rightarrow> real" where
  "round6 fl v = fl (f64_round (fl (v * 1000000)) / 1000000)"

definition plur_to_usd :: "(real \<Rightarrow> real) \<Rightarrow> u128 \<Rightarrow> real" where
  "plur_to_usd fl plur = round6 fl (fl (fl (fl (real (unat plur)) / 10 ^ 16) * fl (2 / 5)))"

definition egress :: "(real \<Rightarrow> real) \<Rightarrow> u64 \<Rightarrow> u64 \<Rightarrow> u64 \<Rightarrow> json" where
  "egress fl nframes billable attempts =
     (if nframes = 0 then JObject [(''frames'', JInt 0), (''stream_attempts'', JWord attempts)]
      else
        let per = fl (fl (real (unat attempts)) / fl (real (unat nframes)));
            out = [(''frames'', JWord nframes), (''stream_attempts'', JWord attempts),
                   (''attempts_per_frame'', JReal (round3 fl per)),
                   (''modelled_attempts_per_frame'', JReal (fl (345 / 100)))]
        in JObject
             (if billable > 0 then
                let ratio = fl (fl (fl (real (unat attempts)) * fl (44 / 10)) / fl (real (unat billable)))
                in out @ [(''egress_ratio_estimate'', JReal (round3 fl ratio)),
                          (''modelled_egress_ratio'', JReal (fl (37 / 10)))]
              else out))"

definition pct :: "u64 list \<Rightarrow> usize \<Rightarrow> u64" where
  "pct xs p = (if xs = [] then 0 else xs ! min (length xs * p div 100) (length xs - 1))"

definition credit_summary :: "meter \<Rightarrow> u64 \<Rightarrow> json" where
  "credit_summary m full_post_kib =
     (let priced = filter (\<lambda>r. remaining_value_plur r > 0) (map snd (m_rows m));
          lines = map credit_kib priced
      in if lines = [] then JObject [(''batches_priced'', JInt 0)]
         else
           let lines = sort lines;
               below_post = length (filter (\<lambda>c. c < full_post_kib) lines);
               capped = length (filter (\<lambda>r. remaining_value_plur r div CREDIT_RATIO < MAX_OUTSTANDING_PLUR) priced)
           in JObject
                [(''batches_priced'', JNat (length lines)), (''credit_ratio'', JWord CREDIT_RATIO),
                 (''full_post_kib'', JWord full_post_kib),
                 (''batches_below_one_full_post'', JNat below_post),
                 (''batches_capped_below_ceiling'', JNat capped),
                 (''credit_kib_p10'', JWord (pct lines 10)), (''credit_kib_p50'', JWord (pct lines 50)),
                 (''credit_kib_p90'', JWord (pct lines 90))])"

definition total_kib :: "meter \<Rightarrow> u64" where
  "total_kib m = hm_sum kib_admitted (m_rows m) + evicted_kib m"

definition total_dedup :: "meter \<Rightarrow> u64" where
  "total_dedup m =
     min (hm_sum kib_admitted (m_rows m)) (hm_sum kib_dedup (m_rows m)) + evicted_kib_dedup m"

definition total_frames :: "meter \<Rightarrow> u64" where
  "total_frames m = hm_sum r_frames (m_rows m) + evicted_frames m"

definition total_owed :: "meter \<Rightarrow> u128" where
  "total_owed m = ucast (saturating_sub (total_kib m) (total_dedup m)) * PRICE_PLUR_PER_KIB"

definition summary :: "(real \<Rightarrow> real) \<Rightarrow> instant \<Rightarrow> meter \<Rightarrow> u64 \<Rightarrow> u64 \<Rightarrow> json" where
  "summary fl now m full_post_kib attempts =
     (let billable = saturating_sub (total_kib m) (total_dedup m);
          owners = by_owner m;
          would_settle = length (filter (\<lambda>t. ot_owed_plur t \<ge> SETTLE_EVERY_PLUR) (map snd owners));
          would_cash = length (filter (\<lambda>t. ot_owed_plur t \<ge> CASHOUT_THRESHOLD_PLUR) (map snd owners))
      in JObject
           [(''window_secs'', JNat (window_secs now m)),
            (''price_plur_per_kib'', JString (uint_to_string PRICE_PLUR_PER_KIB)),
            (''accounts'', JNat (length owners)), (''batches'', JNat (length (m_rows m))),
            (''evicted_batches'', JWord (evicted_rows m)), (''kib_admitted'', JWord (total_kib m)),
            (''kib_dedup'', JWord (total_dedup m)), (''frames_admitted'', JWord (total_frames m)),
            (''owed_plur'', JString (uint_to_string (total_owed m))),
            (''owed_usd'', JReal (plur_to_usd fl (total_owed m))),
            (''accounts_reaching_settlement'', JNat would_settle),
            (''accounts_reaching_cashout'', JNat would_cash),
            (''egress'', egress fl (total_frames m) billable attempts),
            (''credit'', credit_summary m full_post_kib)])"

definition detail_account :: "(real \<Rightarrow> real) \<Rightarrow> (bytes \<Rightarrow> string) \<Rightarrow> bytes \<times> owner_totals \<Rightarrow> json" where
  "detail_account fl hex = (\<lambda>(owner, t).
     let due = ot_owed_plur t in
     JObject
       [(''account'', JString (''0x'' @ hex owner)), (''batches'', JWord (ot_batches t)),
        (''kib_admitted'', JWord (ot_kib t)), (''kib_dedup'', JWord (ot_kib_dedup t)),
        (''frames'', JWord (ot_frames t)), (''owed_plur'', JString (uint_to_string due)),
        (''owed_usd'', JReal (plur_to_usd fl due)),
        (''settlements'', JWord (ucast (due div SETTLE_EVERY_PLUR) :: u64)),
        (''reaches_cashout'', JBool (due \<ge> CASHOUT_THRESHOLD_PLUR))])"

definition detail_batch :: "instant \<Rightarrow> (bytes \<Rightarrow> string) \<Rightarrow> u64 \<Rightarrow> account_batch \<times> row \<Rightarrow> json" where
  "detail_batch now hex full_post_kib = (\<lambda>(k, r).
     JObject
       [(''account'', JString (''0x'' @ hex (ab_owner k))), (''batch'', JString (''0x'' @ hex (ab_batch k))),
        (''kib_admitted'', JWord (kib_admitted r)), (''kib_dedup'', JWord (kib_dedup r)),
        (''frames'', JWord (r_frames r)), (''dedup_frames'', JWord (dedup_frames r)),
        (''remaining_value_plur'', JString (uint_to_string (remaining_value_plur r))),
        (''credit_plur'', JString (uint_to_string (credit_plur r))), (''credit_kib'', JWord (credit_kib r)),
        (''fits_full_post'', JBool (credit_kib r \<ge> full_post_kib)),
        (''billable_kib'', JWord (billable_kib r)),
        (''age_secs'', JNat ((now - first_seen r) div secs 1)),
        (''idle_secs'', JNat ((now - last_seen r) div secs 1))])"

text \<open>Both listings sort by volume, largest first, and then by key.\<close>

definition detail :: "(real \<Rightarrow> real) \<Rightarrow> (bytes \<Rightarrow> string) \<Rightarrow> instant \<Rightarrow> meter \<Rightarrow> u64 \<Rightarrow> u64 \<Rightarrow> usize \<Rightarrow> json" where
  "detail fl hex now m full_post_kib attempts limit =
     (let owners = sort_key (\<lambda>(k, t). (- uint (ot_kib t), k)) (by_owner m);
          listed = sort_key (\<lambda>(k, r). (- uint (kib_admitted r), k)) (m_rows m)
      in JObject
           [(''summary'', summary fl now m full_post_kib attempts),
            (''accounts'', JArray (map (detail_account fl hex) (take limit owners))),
            (''batches'', JArray (map (detail_batch now hex full_post_kib) (take limit listed))),
            (''truncated_to'', JNat limit)])"

section \<open>Settlement parameters\<close>

record params =
  price_plur_per_kib :: u128
  min_cheque_plur :: u128
  settle_every_plur :: u128
  max_outstanding_plur :: u128
  credit_ratio :: u128

definition default_params :: params where
  "default_params =
     \<lparr>price_plur_per_kib = PRICE_PLUR_PER_KIB, min_cheque_plur = MIN_CHEQUE_PLUR,
      settle_every_plur = SETTLE_EVERY_PLUR, max_outstanding_plur = MAX_OUTSTANDING_PLUR,
      credit_ratio = CREDIT_RATIO\<rparr>"

datatype params_error =
    PriceZero
  | CreditRatioZero
  | MinChequeAboveSettle u128 u128
  | SettleNotBelowMax u128 u128

definition validate :: "params \<Rightarrow> params_error + unit" where
  "validate p =
     (if price_plur_per_kib p = 0 then Inl PriceZero
      else if credit_ratio p = 0 then Inl CreditRatioZero
      else if min_cheque_plur p > settle_every_plur p
      then Inl (MinChequeAboveSettle (min_cheque_plur p) (settle_every_plur p))
      else if settle_every_plur p \<ge> max_outstanding_plur p
      then Inl (SettleNotBelowMax (settle_every_plur p) (max_outstanding_plur p))
      else Inr ())"

text \<open>The division panics on a zero ratio, which is the value \<^term>\<open>None\<close>.\<close>

definition credit_line :: "params \<Rightarrow> u128 \<Rightarrow> u128 option" where
  "credit_line p remaining =
     (if credit_ratio p = 0 then None
      else Some (min (remaining div credit_ratio p) (max_outstanding_plur p)))"

definition price_bytes :: "params \<Rightarrow> u64 \<Rightarrow> u128" where
  "price_bytes p n = ucast (div_ceil n 1024) * price_plur_per_kib p"

record effective_params =
  eff_min_cheque_plur :: u128
  eff_settle_every_plur :: u128

definition effective :: "params \<Rightarrow> u128 \<Rightarrow> effective_params" where
  "effective p line =
     (let settle_every = max (min (settle_every_plur p) (line div 2)) 1
      in \<lparr>eff_min_cheque_plur = max (min (min_cheque_plur p) settle_every) 1,
          eff_settle_every_plur = settle_every\<rparr>)"

section \<open>The tally adds up\<close>

lemma admit_Nil [simp]:
  "admit [] k v n = [\<lparr>tr_key = k, tr_remaining_value_plur = v, tr_bytes_admitted = n,
      tr_bytes_dedup = 0, tr_frames = 1, tr_dedup_frames = 0\<rparr>]"
  by (simp add: admit_def slot_def)

lemma row_position_bound: "row_position k rs = Some i \<Longrightarrow> i < length rs"
  by (induction rs arbitrary: i) (auto split: if_splits)

lemma admit_Cons [simp]:
  "admit (r # rs) k v n =
     (if tr_key r = k
      then r\<lparr>tr_remaining_value_plur := (if tr_remaining_value_plur r = 0 then v else tr_remaining_value_plur r),
             tr_bytes_admitted := tr_bytes_admitted r + n, tr_frames := tr_frames r + 1\<rparr> # rs
      else r # admit rs k v n)"
  by (auto simp: admit_def slot_def Let_def nth_append split: option.split prod.split)

definition tally_bytes :: "account_batch \<Rightarrow> post_tally \<Rightarrow> u64" where
  "tally_bytes k rs = sum_list (map tr_bytes_admitted (filter (\<lambda>r. tr_key r = k) rs))"

definition tally_of :: "(account_batch \<times> u128 \<times> u64) list \<Rightarrow> post_tally" where
  "tally_of fs = foldl (\<lambda>rs (k, v, n). admit rs k v n) [] fs"

lemma keys_admit: "tr_key ` set (admit rs k v n) = insert k (tr_key ` set rs)"
  by (induction rs) auto

lemma distinct_admit: "distinct (map tr_key rs) \<Longrightarrow> distinct (map tr_key (admit rs k v n))"
  by (induction rs) (auto simp: keys_admit)

lemma tally_bytes_admit:
  "distinct (map tr_key rs) \<Longrightarrow>
     tally_bytes k' (admit rs k v n) = tally_bytes k' rs + (if k' = k then n else 0)"
  by (induction rs) (auto simp: tally_bytes_def ac_simps)

lemma tally_of_snoc: "tally_of (fs @ [(k, v, n)]) = admit (tally_of fs) k v n"
  by (simp add: tally_of_def)

lemma tally_of_keys: "distinct (map tr_key (tally_of fs))" "tr_key ` set (tally_of fs) = fst ` set fs"
proof (induction fs rule: rev_induct)
  case (snoc f fs)
  { case 1 then show ?case using snoc by (cases f) (simp add: tally_of_snoc distinct_admit) }
  { case 2 then show ?case using snoc by (cases f) (simp add: tally_of_snoc keys_admit) }
qed (simp_all add: tally_of_def)

lemma tally_of_bytes:
  "tally_bytes k (tally_of fs) = sum_list (map (\<lambda>(_, _, n). n) (filter (\<lambda>f. fst f = k) fs))"
proof (induction fs rule: rev_induct)
  case (snoc f fs)
  then show ?case by (cases f) (simp add: tally_of_snoc tally_bytes_admit tally_of_keys)
qed (simp add: tally_of_def tally_bytes_def)

lemma tally_row_bytes:
  assumes "r \<in> set (tally_of fs)"
  shows "tr_bytes_admitted r = sum_list (map (\<lambda>(_, _, n). n) (filter (\<lambda>f. fst f = tr_key r) fs))"
proof -
  have "filter (\<lambda>x. tr_key x = tr_key r) rs = [r]" if "distinct (map tr_key rs)" "r \<in> set rs" for rs
    using that by (induction rs) (auto simp: filter_empty_conv image_iff)
  then show ?thesis
    using tally_of_bytes [of "tr_key r" fs] assms tally_of_keys(1) by (simp add: tally_bytes_def)
qed

section \<open>Merging loses nothing\<close>

definition meter_inv :: "meter \<Rightarrow> bool" where
  "meter_inv m =
     (hm_wf (m_rows m) \<and> distinct (m_order m) \<and> set (m_order m) = fst ` set (m_rows m) \<and> 1 \<le> m_cap m)"

definition merged_kib :: "post_tally \<Rightarrow> u64" where
  "merged_kib t = sum_list (map (\<lambda>r. div_ceil (tr_bytes_admitted r) 1024) t)"

definition merged_frames :: "post_tally \<Rightarrow> u64" where
  "merged_frames t = sum_list (map tr_frames t)"

lemma meter_inv_new: "meter_inv (meter_new now c)"
  by (simp add: meter_inv_def meter_new_def)

lemma merge_row_inv: "meter_inv m \<Longrightarrow> meter_inv (merge_row now m t)"
  using hm_get_None_iff [of "m_rows m" "tr_key t"]
  by (auto simp: meter_inv_def merge_row_def Let_def keys_hm_insert split: option.split)

lemma merge_row_frame [simp]: "m_cap (merge_row now m t) = m_cap m"
  by (simp add: merge_row_def Let_def split: option.split)

lemma merge_row_total:
  "total_kib (merge_row now m t) = total_kib m + div_ceil (tr_bytes_admitted t) 1024"
  "total_frames (merge_row now m t) = total_frames m + tr_frames t"
proof -
  have *: "hm_sum f (hm_insert k v m) = hm_sum f m + f v - (case hm_get m k of None \<Rightarrow> 0 | Some v0 \<Rightarrow> f v0)"
    for f :: "_ \<Rightarrow> u64" and k v and m :: "(account_batch, row) hashmap"
    using hm_sum_insert [of f k v m] by (simp add: eq_diff_eq)
  show "total_kib (merge_row now m t) = total_kib m + div_ceil (tr_bytes_admitted t) 1024"
    by (simp add: total_kib_def merge_row_def Let_def * split: option.split)
  show "total_frames (merge_row now m t) = total_frames m + tr_frames t"
    by (simp add: total_frames_def merge_row_def Let_def * split: option.split)
qed

lemma evict_key_step:
  assumes "meter_inv m" "m_order m = old # rest"
  shows "meter_inv (evict_key old (m\<lparr>m_order := rest\<rparr>))"
    "total_kib (evict_key old (m\<lparr>m_order := rest\<rparr>)) = total_kib m"
    "total_frames (evict_key old (m\<lparr>m_order := rest\<rparr>)) = total_frames m"
    "m_order (evict_key old (m\<lparr>m_order := rest\<rparr>)) = rest"
    "m_cap (evict_key old (m\<lparr>m_order := rest\<rparr>)) = m_cap m"
proof -
  have "old \<in> fst ` set (m_rows m)" using assms by (auto simp: meter_inv_def)
  then obtain r where r: "hm_get (m_rows m) old = Some r"
    using hm_get_None_iff [of "m_rows m" old] by auto
  have *: "hm_sum f (hm_remove old (m_rows m)) + f r = hm_sum f (m_rows m)" for f :: "row \<Rightarrow> u64"
    using assms(1) r by (simp add: meter_inv_def hm_sum_remove)
  show "meter_inv (evict_key old (m\<lparr>m_order := rest\<rparr>))"
    using assms r by (auto simp: meter_inv_def evict_key_def keys_hm_remove)
  show "total_kib (evict_key old (m\<lparr>m_order := rest\<rparr>)) = total_kib m"
    by (simp add: r evict_key_def total_kib_def flip: *) 
  show "total_frames (evict_key old (m\<lparr>m_order := rest\<rparr>)) = total_frames m"
    by (simp add: r evict_key_def total_frames_def flip: *)
  show "m_order (evict_key old (m\<lparr>m_order := rest\<rparr>)) = rest"
    "m_cap (evict_key old (m\<lparr>m_order := rest\<rparr>)) = m_cap m"
    by (simp_all add: r evict_key_def)
qed

lemma evict_keeps:
  "meter_inv m \<Longrightarrow> meter_inv (evict m) \<and> total_kib (evict m) = total_kib m \<and>
     total_frames (evict m) = total_frames m \<and> m_cap (evict m) = m_cap m \<and>
     length (m_order (evict m)) \<le> m_cap m"
proof (induction m rule: evict.induct)
  case (1 m)
  show ?case
  proof (cases "length (m_order m) > m_cap m")
    case True
    then obtain old rest where o: "m_order m = old # rest" by (cases "m_order m") auto
    note s = evict_key_step [OF "1.prems" o]
    have "evict m = evict (evict_key old (m\<lparr>m_order := rest\<rparr>))"
      using True o by (subst evict.simps) simp
    then show ?thesis using "1.IH" [OF True o s(1)] s by simp
  next
    case False
    then show ?thesis using "1.prems" by (simp add: evict.simps)
  qed
qed

lemma merge_rows_keep:
  "meter_inv m \<Longrightarrow> meter_inv (foldl (merge_row now) m t) \<and>
     total_kib (foldl (merge_row now) m t) = total_kib m + merged_kib t \<and>
     total_frames (foldl (merge_row now) m t) = total_frames m + merged_frames t \<and>
     m_cap (foldl (merge_row now) m t) = m_cap m"
  by (induction t arbitrary: m)
    (simp_all add: merged_kib_def merged_frames_def merge_row_inv merge_row_total add.assoc)

lemma merge_keeps:
  assumes "meter_inv m"
  shows "meter_inv (merge now m t) \<and> total_kib (merge now m t) = total_kib m + merged_kib t \<and>
    total_frames (merge now m t) = total_frames m + merged_frames t \<and>
    m_cap (merge now m t) = m_cap m \<and> length (m_order (merge now m t)) \<le> m_cap m"
  using merge_rows_keep [OF assms, of now t] evict_keeps [of "foldl (merge_row now) m t"]
  by (simp add: merge_def)

definition meter_run :: "meter \<Rightarrow> (instant \<times> post_tally) list \<Rightarrow> meter" where
  "meter_run = foldl (\<lambda>m (now, t). merge now m t)"

lemma meter_run_keeps:
  "meter_inv m \<Longrightarrow> length (m_order m) \<le> m_cap m \<Longrightarrow> meter_inv (meter_run m ps) \<and>
     total_kib (meter_run m ps) = total_kib m + sum_list (map (merged_kib \<circ> snd) ps) \<and>
     total_frames (meter_run m ps) = total_frames m + sum_list (map (merged_frames \<circ> snd) ps) \<and>
     m_cap (meter_run m ps) = m_cap m \<and> length (m_order (meter_run m ps)) \<le> m_cap m"
proof (induction ps arbitrary: m)
  case (Cons p ps)
  obtain now t where p: "p = (now, t)" by (cases p)
  have "meter_run m (p # ps) = meter_run (merge now m t) ps" by (simp add: meter_run_def p)
  then show ?case
    using merge_keeps [OF Cons.prems(1), of now t] Cons.IH [of "merge now m t"] by (simp add: p add.assoc)
qed (simp add: meter_run_def)

lemma rows_le_order: "meter_inv m \<Longrightarrow> length (m_rows m) = length (m_order m)"
  unfolding meter_inv_def hm_wf_def by (metis distinct_card length_map list.set_map)

text \<open>
  C35. The table stays bounded and the headline figures lose nothing: after any sequence of
  requests the kibibytes and frames reported (live rows plus evicted totals) are exactly the sums
  over all requests, each rounded up once per batch, while at most \<^verbatim>\<open>cap\<close> rows are held.
\<close>

theorem meter_totals_survive_eviction:
  "total_kib (meter_run (meter_new t0 c) ps) = sum_list (map (merged_kib \<circ> snd) ps) \<and>
   total_frames (meter_run (meter_new t0 c) ps) = sum_list (map (merged_frames \<circ> snd) ps) \<and>
   length (m_rows (meter_run (meter_new t0 c) ps)) \<le> max c 1"
proof -
  have "total_kib (meter_new t0 c) = 0" "total_frames (meter_new t0 c) = 0"
    "length (m_order (meter_new t0 c)) \<le> m_cap (meter_new t0 c)" "m_cap (meter_new t0 c) = max c 1"
    by (simp_all add: meter_new_def total_kib_def total_frames_def hm_sum_def)
  then show ?thesis
    using meter_run_keeps [OF meter_inv_new, of t0 c ps] rows_le_order by fastforce
qed

text \<open>
  Each row a request adds to the table is billed for the bytes of its own batch's frames,
  summed before rounding: the row's kibibytes are the ceiling of the exact byte total.
\<close>

lemma post_rounds_once:
  assumes "r \<in> set (tally_of fs)"
    and "(\<Sum>(k, _, n) \<leftarrow> filter (\<lambda>f. fst f = tr_key r) fs. unat n) < 2 ^ 64"
  shows "unat (div_ceil (tr_bytes_admitted r) 1024) =
    ((\<Sum>(k, _, n) \<leftarrow> filter (\<lambda>f. fst f = tr_key r) fs. unat n) + 1023) div 1024"
proof -
  have sum: "unat (sum_list ws) = sum_list (map unat ws)" if "sum_list (map unat ws) < 2 ^ 64"
    for ws :: "u64 list"
    using that by (induction ws) (auto simp: unat_word_ariths)
  have "unat (tr_bytes_admitted r) = (\<Sum>(k, _, n) \<leftarrow> filter (\<lambda>f. fst f = tr_key r) fs. unat n)"
    unfolding tally_row_bytes [OF assms(1)]
    by (subst sum) (use assms(2) in \<open>simp_all add: o_def split_def\<close>)
  then show ?thesis by (simp add: unat_simps nat_div_ceil)
qed

definition demo_frames :: "(account_batch \<times> u128 \<times> u64) list" where
  "demo_frames = [(AccountBatch [1] [2], 7, 4251), (AccountBatch [1] [3], 7, 4251), (AccountBatch [1] [2], 7, 4251)]"

lemma post_rounds_once_example:
  "\<exists>r \<in> set (tally_of demo_frames). tr_key r = AccountBatch [1] [2] \<and> unat (div_ceil (tr_bytes_admitted r) 1024) = 9"
proof -
  define r where "r = \<lparr>tr_key = AccountBatch [1] [2], tr_remaining_value_plur = 7,
    tr_bytes_admitted = 8502, tr_bytes_dedup = 0, tr_frames = 2, tr_dedup_frames = 0\<rparr>"
  have r: "r \<in> set (tally_of demo_frames)"
    by (simp add: r_def tally_of_def demo_frames_def)
  have "unat (div_ceil (tr_bytes_admitted r) 1024) = (8502 + 1023) div 1024"
    using post_rounds_once [OF r] by (simp add: r_def demo_frames_def)
  then show ?thesis using r by (intro bexI [of _ r]) (simp_all add: r_def)
qed

section \<open>The per-owner view\<close>

lemma by_owner_sum:
  fixes f :: "owner_totals \<Rightarrow> u64" and g :: "row \<Rightarrow> u64"
  assumes "\<And>e r. f (e\<lparr>ot_kib := ot_kib e + kib_admitted r, ot_kib_dedup := ot_kib_dedup e + kib_dedup r,
      ot_frames := ot_frames e + r_frames r, ot_batches := ot_batches e + 1\<rparr>) = f e + g r"
    and "f default_owner_totals = 0"
  shows "hm_sum f (by_owner m) = hm_sum g (m_rows m)"
proof -
  have "hm_sum f (add_owner out (k, r)) = hm_sum f out + g r" for out k r
    using hm_sum_insert [of f "ab_owner k" _ out] assms
    by (fastforce simp: add_owner_def Let_def eq_diff_eq [symmetric] split: option.split)
  then have "hm_sum f (foldl add_owner out rs) = hm_sum f out + hm_sum g rs" for out rs
    by (induction rs arbitrary: out) (auto simp: hm_sum_def)
  then show ?thesis by (simp add: by_owner_def hm_sum_def)
qed

text \<open>
  The per-account view is a partition of the per-batch view: the accounts' kibibytes,
  deduplicated kibibytes and frames add up to those of the rows.
\<close>

lemma by_owner_partitions_rows:
  "hm_sum ot_kib (by_owner m) = hm_sum kib_admitted (m_rows m) \<and>
   hm_sum ot_kib_dedup (by_owner m) = hm_sum kib_dedup (m_rows m) \<and>
   hm_sum ot_frames (by_owner m) = hm_sum r_frames (m_rows m) \<and>
   hm_sum ot_batches (by_owner m) = of_nat (length (m_rows m))"
proof -
  have len: "hm_sum (\<lambda>_. 1 :: u64) rs = of_nat (length rs)" for rs :: "(account_batch, row) hashmap"
    by (induction rs) (auto simp: hm_sum_def)
  show ?thesis
    using by_owner_sum [of ot_kib kib_admitted m] by_owner_sum [of ot_kib_dedup kib_dedup m]
      by_owner_sum [of ot_frames r_frames m] by_owner_sum [of ot_batches "\<lambda>_. 1" m]
    by (simp add: default_owner_totals_def len)
qed

section \<open>Prices and thresholds\<close>

lemma unat_price_bytes:
  assumes "unat (price_plur_per_kib p) < 2 ^ 64"
  shows "unat (price_bytes p n) = ((unat n + 1023) div 1024) * unat (price_plur_per_kib p)"
proof -
  have c: "unat (div_ceil n 1024) = (unat n + 1023) div 1024"
    by (simp add: unat_simps)
  have "unat (ucast (div_ceil n 1024) :: u128) = unat (div_ceil n 1024)"
    by (rule unat_ucast_up) simp
  moreover have "unat (div_ceil n 1024) * unat (price_plur_per_kib p) < 2 ^ 64 * 2 ^ 64"
    using assms unsigned_less [of "div_ceil n 1024"] by (intro mult_strict_mono) auto
  ultimately show ?thesis by (simp add: price_bytes_def unat_word_ariths c)
qed

text \<open>
  A body's price is the exact number of kibibytes, rounded up once, times the price; it
  does not wrap for any price below \<^verbatim>\<open>2^64\<close>, and splitting a body never makes it cheaper.
\<close>

lemma price_bytes_exact:
  assumes "unat (price_plur_per_kib p) < 2 ^ 64"
  shows "unat (price_bytes p n) = ((unat n + 1023) div 1024) * unat (price_plur_per_kib p) \<and>
    (unat a + unat b < 2 ^ 64 \<longrightarrow> unat (price_bytes p (a + b)) \<le> unat (price_bytes p a) + unat (price_bytes p b))"
proof -
  have "(x + y + 1023) div 1024 \<le> (x + 1023) div 1024 + (y + 1023) div 1024" for x y :: nat
    by linarith
  then show ?thesis
    by (auto simp: unat_price_bytes [OF assms] unat_word_ariths simp flip: add_mult_distrib)
qed

lemma price_bytes_exact_example:
  "unat (price_plur_per_kib default_params) < 2 ^ 64 \<and>
   unat (price_bytes default_params 4251) = 5 * 480000000"
  using price_bytes_exact [of default_params 4251]
  by (simp add: default_params_def PRICE_PLUR_PER_KIB_def)

text \<open>
  C34. No account is locked out by the settlement thresholds: with parameters that pass
  \<^verbatim>\<open>validate\<close>, the thresholds that apply at any credit line satisfy
  \<open>1 \<le> min_cheque \<le> settle_every\<close>, and at a line of at least two settlement falls due at no more
  than half of it, so whatever brings an account to its line is at least a cheque the relay accepts.
\<close>

theorem effective_thresholds_clearable:
  assumes "validate p = Inr ()"
  shows "\<exists>line. credit_line p remaining = Some line \<and> line \<le> max_outstanding_plur p \<and>
    1 \<le> eff_min_cheque_plur (effective p line) \<and>
    eff_min_cheque_plur (effective p line) \<le> eff_settle_every_plur (effective p line) \<and>
    (2 \<le> line \<longrightarrow> 2 * unat (eff_settle_every_plur (effective p line)) \<le> unat line) \<and>
    (line < 2 \<longrightarrow> effective p line = \<lparr>eff_min_cheque_plur = 1, eff_settle_every_plur = 1\<rparr>)"
proof -
  let ?line = "min (remaining div credit_ratio p) (max_outstanding_plur p)"
  have "credit_ratio p \<noteq> 0" using assms by (auto simp: validate_def split: if_splits)
  then have "credit_line p remaining = Some ?line" by (simp add: credit_line_def)
  moreover have half: "2 * unat (eff_settle_every_plur (effective p line)) \<le> unat line" if "2 \<le> line" for line
  proof -
    have "unat (max (min (settle_every_plur p) (line div 2)) 1) = max (min (unat (settle_every_plur p)) (unat line div 2)) 1"
      by (simp add: unat_max unat_min unat_div)
    moreover have "2 \<le> unat line" using that by (simp add: word_le_nat_alt)
    ultimately show ?thesis by (simp add: effective_def Let_def)
  qed
  moreover have "effective p line = \<lparr>eff_min_cheque_plur = 1, eff_settle_every_plur = 1\<rparr>" if "line < 2" for line
  proof -
    have "line div 2 = 0" using that by (simp add: word_unat_eq_iff word_less_nat_alt unat_div)
    then show ?thesis by (simp add: effective_def Let_def min_def max_def)
  qed
  moreover have "1 \<le> eff_min_cheque_plur (effective p line)"
    "eff_min_cheque_plur (effective p line) \<le> eff_settle_every_plur (effective p line)" for line
    by (simp_all add: effective_def Let_def)
  ultimately show ?thesis by auto
qed

theorem effective_thresholds_clearable_witness:
  "credit_line default_params 679783122862000 = Some 679783122862 \<and>
   unat (eff_min_cheque_plur (effective default_params 679783122862)) \<le> 339891561431"
proof -
  have v: "validate default_params = Inr ()"
    by (simp add: validate_def default_params_def PRICE_PLUR_PER_KIB_def CREDIT_RATIO_def
        MIN_CHEQUE_PLUR_def SETTLE_EVERY_PLUR_def MAX_OUTSTANDING_PLUR_def)
  have l: "credit_line default_params 679783122862000 = Some 679783122862"
    by (simp add: credit_line_def default_params_def CREDIT_RATIO_def MAX_OUTSTANDING_PLUR_def)
  show ?thesis
    using effective_thresholds_clearable [OF v, of 679783122862000] l
    by (auto simp: word_le_nat_alt)
qed

end
