(* ===== verification/Caches.thy ===== *)
theory Caches
  imports Interfaces
begin

text \<open>
  The in-memory caches of the relay (\<^verbatim>\<open>StateCache\<close> and \<^verbatim>\<open>DeployedCache\<close> of \<^verbatim>\<open>src/metered.rs\<close>,
  \<^verbatim>\<open>OwnerCache\<close> and \<^verbatim>\<open>RecentAcks\<close> of \<^verbatim>\<open>src/pusher.rs\<close>), first-in-first-out and bounded, and the
  daemon-wide chunk cache of \<^verbatim>\<open>src/cache.rs\<close>. The four relay caches have the same layout and the same
  insertion code, which is written once here; they differ in their keys and in how long an entry
  lives. They are instances of the \<^verbatim>\<open>ttl_cache\<close> and \<^verbatim>\<open>bounded_cache\<close> contracts. A poisoned lock is
  not modelled.
\<close>

section \<open>Layout and operations\<close>

record ('k, 'v) fifo_cache =
  fc_map :: "('k, 'v \<times> instant) hashmap"
  fc_order :: "'k list"
  fc_cap :: usize

definition fifo_new :: "usize \<Rightarrow> ('k, 'v) fifo_cache" where
  "fifo_new cap = \<lparr>fc_map = [], fc_order = [], fc_cap = max cap 1\<rparr>"

text \<open>The eviction loop: pop the oldest key while the queue is longer than the cap.\<close>

function fifo_trim :: "('k, 'v) fifo_cache \<Rightarrow> ('k, 'v) fifo_cache" where
  "fifo_trim c =
     (if length (fc_order c) > fc_cap c then
        (case fc_order c of
           [] \<Rightarrow> c
         | old # rest \<Rightarrow> fifo_trim (c\<lparr>fc_order := rest, fc_map := hm_remove old (fc_map c)\<rparr>))
      else c)"
  by pat_completeness auto
termination
  by (relation "measure (\<lambda>c. length (fc_order c))") auto

declare fifo_trim.simps [simp del]

definition fifo_insert :: "'k \<Rightarrow> 'v \<times> instant \<Rightarrow> ('k, 'v) fifo_cache \<Rightarrow> ('k, 'v) fifo_cache" where
  "fifo_insert k v c =
     (let c1 = c\<lparr>fc_map := hm_insert k v (fc_map c)\<rparr>;
          c2 = (if hm_get (fc_map c) k = None then c1\<lparr>fc_order := fc_order c @ [k]\<rparr> else c1)
      in fifo_trim c2)"

definition fifo_remove :: "'k \<Rightarrow> ('k, 'v) fifo_cache \<Rightarrow> ('k, 'v) fifo_cache" where
  "fifo_remove k c =
     c\<lparr>fc_map := hm_remove k (fc_map c), fc_order := filter (\<lambda>x. x \<noteq> k) (fc_order c)\<rparr>"

definition fifo_entry :: "('k, 'v) fifo_cache \<Rightarrow> 'k \<Rightarrow> ('v \<times> instant) option" where
  "fifo_entry c = hm_get (fc_map c)"

subsection \<open>The chequebook state cache\<close>

record chequebook_state =
  cs_issuer :: bytes
  cs_liquid_for_us :: "256 word"
  cs_paid_out_to_us :: "256 word"
  cs_bounced :: bool

definition STATE_TTL :: nat where "STATE_TTL = secs 30"
definition STATE_CACHE_CAP :: usize where "STATE_CACHE_CAP = 2048"

definition state_get :: "instant \<Rightarrow> 'k \<Rightarrow> ('k, 'v) fifo_cache \<Rightarrow> 'v option" where
  "state_get now k c =
     (case hm_get (fc_map c) k of
        None \<Rightarrow> None
      | Some (v, ts) \<Rightarrow> if now - ts < STATE_TTL then Some v else None)"

subsection \<open>The deployment cache\<close>

definition DEPLOYED_CACHE_CAP :: usize where "DEPLOYED_CACHE_CAP = 4096"
definition DEPLOYED_OK_TTL :: nat where "DEPLOYED_OK_TTL = secs 86400"
definition DEPLOYED_BAD_TTL :: nat where "DEPLOYED_BAD_TTL = secs 600"

definition deployed_get :: "instant \<Rightarrow> bytes \<Rightarrow> (bytes, bool) fifo_cache \<Rightarrow> bool option" where
  "deployed_get now k c =
     (case hm_get (fc_map c) k of
        None \<Rightarrow> None
      | Some (v, ts) \<Rightarrow>
          let ttl = (if v then DEPLOYED_OK_TTL else DEPLOYED_BAD_TTL) in
          if now - ts < ttl then Some v else None)"

subsection \<open>The batch owner cache\<close>

datatype owner_lookup =
    Owner bytes u128
  | Rejected string

definition OWNER_CACHE_CAP :: usize where "OWNER_CACHE_CAP = 4096"
definition OWNER_OK_TTL_SECS :: nat where "OWNER_OK_TTL_SECS = 1800"
definition OWNER_BAD_TTL_SECS :: nat where "OWNER_BAD_TTL_SECS = 300"

definition owner_ttl :: "owner_lookup \<Rightarrow> nat" where
  "owner_ttl e = (case e of Owner _ _ \<Rightarrow> OWNER_OK_TTL_SECS | Rejected _ \<Rightarrow> OWNER_BAD_TTL_SECS)"

definition owner_get :: "instant \<Rightarrow> string \<Rightarrow> (string, owner_lookup) fifo_cache \<Rightarrow> owner_lookup option" where
  "owner_get now k c =
     (case hm_get (fc_map c) k of
        None \<Rightarrow> None
      | Some (e, ts) \<Rightarrow> if now - ts < secs (owner_ttl e) then Some e else None)"

subsection \<open>The recent acknowledgements\<close>

definition RECENT_ACK_CAP :: usize where "RECENT_ACK_CAP = 8192"
definition RECENT_ACK_TTL_SECS :: nat where "RECENT_ACK_TTL_SECS = 120"

text \<open>A set of (address, batch) pairs, so the entries carry no value but the time.\<close>

type_synonym recent_acks = "(bytes \<times> bytes, unit) fifo_cache"

definition recent_contains :: "instant \<Rightarrow> bytes \<Rightarrow> bytes \<Rightarrow> recent_acks \<Rightarrow> bool" where
  "recent_contains now addr batch c =
     (case hm_get (fc_map c) (addr, batch) of
        None \<Rightarrow> False
      | Some (_, ts) \<Rightarrow> now - ts < secs RECENT_ACK_TTL_SECS)"

definition recent_insert :: "instant \<Rightarrow> bytes \<Rightarrow> bytes \<Rightarrow> recent_acks \<Rightarrow> recent_acks" where
  "recent_insert now addr batch c = fifo_insert (addr, batch) ((), now) c"

subsection \<open>The chunk cache\<close>

record cached_chunk =
  cc_data :: bytes
  cc_stamp :: bytes

type_synonym chunk_cache = "(bytes, cached_chunk) hashmap"

definition chunk_cache_new :: chunk_cache where
  "chunk_cache_new = []"

definition chunk_cache_get :: "chunk_cache \<Rightarrow> bytes \<Rightarrow> cached_chunk option" where
  "chunk_cache_get c addr = hm_get c addr"

definition chunk_cache_contains :: "chunk_cache \<Rightarrow> bytes \<Rightarrow> bool" where
  "chunk_cache_contains c addr = hm_contains c addr"

definition chunk_cache_put :: "chunk_cache \<Rightarrow> bytes \<Rightarrow> bytes \<Rightarrow> bytes \<Rightarrow> chunk_cache" where
  "chunk_cache_put c addr data stamp = hm_insert addr \<lparr>cc_data = data, cc_stamp = stamp\<rparr> c"

primrec chunk_cache_put_many :: "chunk_cache \<Rightarrow> (bytes \<times> bytes \<times> bytes) list \<Rightarrow> chunk_cache" where
  "chunk_cache_put_many c [] = c"
| "chunk_cache_put_many c (item # items) =
     (case item of (addr, data, stamp) \<Rightarrow>
        chunk_cache_put_many (hm_insert addr \<lparr>cc_data = data, cc_stamp = stamp\<rparr> c) items)"

definition chunk_cache_len :: "chunk_cache \<Rightarrow> usize" where
  "chunk_cache_len c = length c"

definition chunk_cache_is_empty :: "chunk_cache \<Rightarrow> bool" where
  "chunk_cache_is_empty c = (c = [])"

section \<open>The caches keep their contracts\<close>

definition fifo_inv :: "('k, 'v) fifo_cache \<Rightarrow> bool" where
  "fifo_inv c =
     (hm_wf (fc_map c) \<and> distinct (fc_order c) \<and> set (fc_order c) = fst ` set (fc_map c) \<and>
      length (fc_order c) \<le> fc_cap c \<and> 1 \<le> fc_cap c)"

lemma fifo_inv_new: "fifo_inv (fifo_new cap)"
  by (simp add: fifo_inv_def fifo_new_def hm_wf_def)

lemma fifo_trim_id [simp]: "length (fc_order c) \<le> fc_cap c \<Longrightarrow> fifo_trim c = c"
  by (simp add: fifo_trim.simps)

lemma fifo_insert_present:
  "fifo_inv c \<Longrightarrow> hm_get (fc_map c) k \<noteq> None \<Longrightarrow>
     fifo_insert k v c = c\<lparr>fc_map := hm_insert k v (fc_map c)\<rparr>"
  by (auto simp: fifo_insert_def fifo_inv_def Let_def)

lemma fifo_insert_room:
  "fifo_inv c \<Longrightarrow> hm_get (fc_map c) k = None \<Longrightarrow> length (fc_order c) < fc_cap c \<Longrightarrow>
     fifo_insert k v c = c\<lparr>fc_map := hm_insert k v (fc_map c), fc_order := fc_order c @ [k]\<rparr>"
  by (simp add: fifo_insert_def Let_def)

lemma fifo_insert_full:
  assumes "fifo_inv c" "hm_get (fc_map c) k = None" "fc_order c = old # rest"
    "length (fc_order c) = fc_cap c"
  shows "fifo_insert k v c =
     c\<lparr>fc_map := hm_remove old (hm_insert k v (fc_map c)), fc_order := rest @ [k]\<rparr>"
proof -
  have "fifo_trim (c\<lparr>fc_map := hm_insert k v (fc_map c), fc_order := fc_order c @ [k]\<rparr>) =
      fifo_trim (c\<lparr>fc_order := rest @ [k], fc_map := hm_remove old (hm_insert k v (fc_map c))\<rparr>)"
    using assms by (subst fifo_trim.simps) simp
  then show ?thesis using assms by (simp add: fifo_insert_def Let_def)
qed

lemma fifo_insert_cases [consumes 1, case_names present room full]:
  assumes "fifo_inv c"
  obtains
    (present) "hm_get (fc_map c) k \<noteq> None"
      "fifo_insert k v c = c\<lparr>fc_map := hm_insert k v (fc_map c)\<rparr>"
  | (room) "hm_get (fc_map c) k = None" "length (fc_order c) < fc_cap c"
      "fifo_insert k v c = c\<lparr>fc_map := hm_insert k v (fc_map c), fc_order := fc_order c @ [k]\<rparr>"
  | (full) old rest where "hm_get (fc_map c) k = None" "fc_order c = old # rest" "old \<noteq> k"
      "length (fc_order c) = fc_cap c"
      "fifo_insert k v c =
         c\<lparr>fc_map := hm_remove old (hm_insert k v (fc_map c)), fc_order := rest @ [k]\<rparr>"
proof -
  consider (p) "hm_get (fc_map c) k \<noteq> None"
    | (r) "hm_get (fc_map c) k = None" "length (fc_order c) < fc_cap c"
    | (f) "hm_get (fc_map c) k = None" "length (fc_order c) = fc_cap c" "fc_order c \<noteq> []"
    using assms by (fastforce simp: fifo_inv_def)
  then show thesis
  proof cases
    case p
    then show thesis by (rule present) (rule fifo_insert_present [OF assms p])
  next
    case r
    then show thesis by (rule room) (rule fifo_insert_room [OF assms r])
  next
    case f
    then obtain old rest where o: "fc_order c = old # rest" by (cases "fc_order c") auto
    have "old \<in> fst ` set (fc_map c)" using assms o by (auto simp: fifo_inv_def)
    then have "old \<noteq> k" using f(1) by (auto simp: hm_get_None_iff)
    then show thesis using full f(1,2) o fifo_insert_full [OF assms f(1) o f(2)] by blast
  qed
qed

lemma fifo_inv_insert:
  assumes i: "fifo_inv c"
  shows "fifo_inv (fifo_insert k v c)"
  using i
proof (cases rule: fifo_insert_cases [of _ k v])
  case present
  moreover from present have "k \<in> fst ` set (fc_map c)" using hm_get_None_iff [of "fc_map c" k] by simp
  ultimately show ?thesis using i by (auto simp: fifo_inv_def keys_hm_insert)
next
  case room
  then show ?thesis using i by (auto simp: fifo_inv_def keys_hm_insert hm_get_None_iff)
next
  case (full old rest)
  then show ?thesis using i by (auto simp: fifo_inv_def keys_hm_insert keys_hm_remove hm_get_None_iff)
qed

lemma fifo_inv_remove: "fifo_inv c \<Longrightarrow> fifo_inv (fifo_remove k c)"
  by (auto simp: fifo_inv_def fifo_remove_def keys_hm_remove intro: order_trans [OF length_filter_le])

lemma fifo_entry_remove: "fifo_entry (fifo_remove k c) k' = (if k' = k then None else fifo_entry c k')"
  by (simp add: fifo_entry_def fifo_remove_def hm_simps)

lemma fifo_bound: "fifo_inv c \<Longrightarrow> card (dom (fifo_entry c)) \<le> fc_cap c"
proof -
  assume i: "fifo_inv c"
  have "dom (fifo_entry c) = set (fc_order c)"
    using i by (simp add: fifo_inv_def fifo_entry_def hm_get_def [abs_def] dom_map_of_conv_image_fst)
  then show ?thesis using i by (metis card_length fifo_inv_def order_trans)
qed

lemma fifo_bounded_cache: "bounded_cache fifo_inv fifo_insert fifo_entry fc_cap"
proof
  fix c :: "('k, 'v) fifo_cache" and k k' v
  assume i: "fifo_inv c"
  then show "fifo_inv (fifo_insert k v c)" by (rule fifo_inv_insert)
  show "fifo_entry (fifo_insert k v c) k = Some v"
    using i by (cases rule: fifo_insert_cases [of _ k v]) (auto simp: fifo_entry_def hm_simps)
  show "k' \<noteq> k \<Longrightarrow> fifo_entry (fifo_insert k v c) k' \<in> {None, fifo_entry c k'}"
    using i by (cases rule: fifo_insert_cases [of _ k v]) (auto simp: fifo_entry_def hm_simps)
  show "finite (dom (fifo_entry c)) \<and> card (dom (fifo_entry c)) \<le> fc_cap c"
    using fifo_bound [OF i] by (simp add: fifo_entry_def hm_get_def [abs_def] finite_dom_map_of)
  show "fc_cap (fifo_insert k v c) = fc_cap c"
    using i by (cases rule: fifo_insert_cases [of _ k v]) auto
qed

interpretation state_cache: ttl_cache fifo_inv fifo_insert fifo_entry fc_cap state_get "\<lambda>_. STATE_TTL"
  by (intro ttl_cache.intro fifo_bounded_cache ttl_cache_axioms.intro)
    (auto simp: state_get_def fifo_entry_def split: option.splits if_splits)

interpretation deployed_cache: ttl_cache fifo_inv fifo_insert fifo_entry fc_cap deployed_get
  "\<lambda>v. if v then DEPLOYED_OK_TTL else DEPLOYED_BAD_TTL"
  by (intro ttl_cache.intro fifo_bounded_cache ttl_cache_axioms.intro)
    (auto simp: deployed_get_def fifo_entry_def Let_def split: option.splits if_splits)

interpretation owner_cache: ttl_cache fifo_inv fifo_insert fifo_entry fc_cap owner_get
  "\<lambda>e. secs (owner_ttl e)"
  by (intro ttl_cache.intro fifo_bounded_cache ttl_cache_axioms.intro)
    (auto simp: owner_get_def fifo_entry_def split: option.splits if_splits)

interpretation recent_acks: bounded_cache fifo_inv "fifo_insert :: bytes \<times> bytes \<Rightarrow> _" fifo_entry fc_cap
  by (rule fifo_bounded_cache)

lemma chunk_cache_get_put_many:
  "chunk_cache_get (chunk_cache_put_many c items) addr =
     (case map_of (rev items) addr of
        None \<Rightarrow> chunk_cache_get c addr
      | Some (data, stamp) \<Rightarrow> Some \<lparr>cc_data = data, cc_stamp = stamp\<rparr>)"
  by (induction items arbitrary: c)
    (auto simp: chunk_cache_get_def hm_simps map_add_def split: option.splits)

end
