(* ===== verification/Limiters.thy ===== *)
theory Limiters
  imports Prelude
begin

text \<open>
  The two rate limiters. \<^verbatim>\<open>src/ratelimit.rs\<close> paces outgoing dials per peer with the generic cell
  rate algorithm over a theoretical arrival time; \<^verbatim>\<open>src/inbound_limit.rs\<close> limits incoming
  requests per key with token buckets in a bounded table. Mutex guards are the sequential order
  of the calls. Floating-point operations of the token bucket take the rounding function \<^verbatim>\<open>fl\<close>.
\<close>

section \<open>Outgoing dials\<close>

definition EMISSION_INTERVAL :: nat where "EMISSION_INTERVAL = 125 * 1000000"
definition BURST_TOLERANCE :: nat where "BURST_TOLERANCE = 125 * 32 * 1000000"

record dial_rate_limiter =
  tat :: "(bytes, instant) hashmap"
  emission_interval :: nat
  burst_tolerance :: nat

definition drl_new :: "nat \<Rightarrow> nat \<Rightarrow> dial_rate_limiter" where
  "drl_new interval tolerance =
     \<lparr>tat = [], emission_interval = interval, burst_tolerance = tolerance\<rparr>"

definition drl_default :: dial_rate_limiter where
  "drl_default = drl_new EMISSION_INTERVAL BURST_TOLERANCE"

definition wait_for :: "(bytes, instant) hashmap \<Rightarrow> bytes \<Rightarrow> instant \<Rightarrow> nat \<Rightarrow> nat" where
  "wait_for m peer now tolerance =
     (let t = max (case hm_get m peer of None \<Rightarrow> now | Some t \<Rightarrow> t) now
      in (t - now) - tolerance)"

definition peek :: "dial_rate_limiter \<Rightarrow> bytes \<Rightarrow> instant \<Rightarrow> nat" where
  "peek l peer now = wait_for (tat l) peer now (burst_tolerance l)"

definition reserve_at :: "dial_rate_limiter \<Rightarrow> bytes \<Rightarrow> instant \<Rightarrow> nat \<Rightarrow> (nat + nat) \<times> dial_rate_limiter" where
  "reserve_at l peer now max_wait =
     (let t = max (case hm_get (tat l) peer of None \<Rightarrow> now | Some t \<Rightarrow> t) now;
          wait = (t - now) - burst_tolerance l
      in if wait > max_wait then (Inl wait, l)
         else (Inr wait, l\<lparr>tat := hm_insert peer (t + emission_interval l) (tat l)\<rparr>))"

section \<open>Incoming requests\<close>

record bucket =
  tokens :: real
  last_refill :: instant

record inbound_limiter =
  buckets :: "(bytes, bucket) hashmap"
  il_cap :: usize
  il_rate :: real
  il_burst :: real

text \<open>\<^verbatim>\<open>Duration::as_secs_f64\<close>: whole seconds plus the fraction, both as doubles.\<close>

definition as_secs_f64 :: "(real \<Rightarrow> real) \<Rightarrow> nat \<Rightarrow> real" where
  "as_secs_f64 fl d = fl (fl (real (d div secs 1)) + fl (real (d mod secs 1) / 10 ^ 9))"

definition refill :: "(real \<Rightarrow> real) \<Rightarrow> instant \<Rightarrow> real \<Rightarrow> real \<Rightarrow> bucket \<Rightarrow> bucket" where
  "refill fl now rate burst b =
     (let dt = as_secs_f64 fl (now - last_refill b)
      in b\<lparr>tokens := min (fl (tokens b + fl (dt * rate))) burst, last_refill := now\<rparr>)"

definition is_full :: "real \<Rightarrow> bucket \<Rightarrow> bool" where
  "is_full burst b = (tokens b \<ge> burst)"

definition F64_MIN_POSITIVE :: real where "F64_MIN_POSITIVE = 1 / 2 ^ 1022"

definition il_new :: "real \<Rightarrow> real \<Rightarrow> usize \<Rightarrow> inbound_limiter" where
  "il_new rate burst cap =
     \<lparr>buckets = [], il_cap = max cap 1, il_rate = max rate F64_MIN_POSITIVE, il_burst = max burst 1\<rparr>"

definition sweep :: "(real \<Rightarrow> real) \<Rightarrow> instant \<Rightarrow> inbound_limiter \<Rightarrow> inbound_limiter" where
  "sweep fl now l =
     l\<lparr>buckets := filter (\<lambda>(_, b). \<not> is_full (il_burst l) b)
         (map (\<lambda>(k, b). (k, refill fl now (il_rate l) (il_burst l) b)) (buckets l))\<rparr>"

definition allow_at :: "(real \<Rightarrow> real) \<Rightarrow> inbound_limiter \<Rightarrow> bytes \<Rightarrow> instant \<Rightarrow> bool \<times> inbound_limiter" where
  "allow_at fl l key now =
     (case hm_get (buckets l) key of
        Some b \<Rightarrow>
          let b1 = refill fl now (il_rate l) (il_burst l) b in
          if tokens b1 < 1 then (False, l\<lparr>buckets := hm_insert key b1 (buckets l)\<rparr>)
          else (True, l\<lparr>buckets := hm_insert key (b1\<lparr>tokens := fl (tokens b1 - 1)\<rparr>) (buckets l)\<rparr>)
      | None \<Rightarrow>
          let l1 = (if length (buckets l) \<ge> il_cap l then sweep fl now l else l) in
          if length (buckets l1) \<ge> il_cap l1 then (False, l1)
          else (True, l1\<lparr>buckets := hm_insert key
                  \<lparr>tokens = fl (il_burst l1 - 1), last_refill = now\<rparr> (buckets l1)\<rparr>))"

definition tracked :: "inbound_limiter \<Rightarrow> usize" where
  "tracked l = length (buckets l)"

section \<open>Pacing of dials\<close>

text \<open>
  A sequence of reservations, each a peer, the clock reading and the longest acceptable park; the
  result lists, in order, when the reserved dials of one peer take place.
\<close>

fun dial_times :: "bytes \<Rightarrow> dial_rate_limiter \<Rightarrow> (bytes \<times> instant \<times> nat) list \<Rightarrow> instant list" where
  "dial_times p l [] = []"
| "dial_times p l ((q, now, mw) # reqs) =
     (case reserve_at l q now mw of
        (Inl _, l') \<Rightarrow> dial_times p l' reqs
      | (Inr wait, l') \<Rightarrow> (if q = p then [now + wait] else []) @ dial_times p l' reqs)"

lemma reserve_at_cases:
  obtains
    (refused) wait where "wait > mw" "reserve_at l q now mw = (Inl wait, l)"
  | (taken) t where "t = max (case hm_get (tat l) q of None \<Rightarrow> now | Some t \<Rightarrow> t) now"
      "reserve_at l q now mw =
         (Inr (t - now - burst_tolerance l), l\<lparr>tat := hm_insert q (t + emission_interval l) (tat l)\<rparr>)"
  by (simp add: reserve_at_def Let_def) (metis (no_types))

text \<open>
  The \<^term>\<open>n\<close>-th dial from now comes no earlier than the stored arrival time plus
  \<^term>\<open>n\<close> intervals, less the tolerance.
\<close>

lemma dial_times_lower:
  assumes "n < length (dial_times p l reqs)"
  shows "(case hm_get (tat l) p of None \<Rightarrow> 0 | Some t \<Rightarrow> t) + n * emission_interval l \<le>
    dial_times p l reqs ! n + burst_tolerance l"
  using assms
proof (induction reqs arbitrary: l n)
  case (Cons r reqs)
  obtain q now mw where r: "r = (q, now, mw)" by (cases r)
  show ?case
  proof (cases rule: reserve_at_cases [of mw l q now])
    case (refused wait)
    then show ?thesis using Cons by (simp add: r)
  next
    case (taken t)
    let ?l = "l\<lparr>tat := hm_insert q (t + emission_interval l) (tat l)\<rparr>"
    show ?thesis
    proof (cases "q = p \<and> n = 0")
      case True
      then show ?thesis using taken Cons.prems by (auto simp: r split: option.splits)
    next
      case False
      then have idx: "dial_times p l (r # reqs) ! n = dial_times p ?l reqs ! (if q = p then n - 1 else n)"
        "(if q = p then n - 1 else n) < length (dial_times p ?l reqs)"
        using Cons.prems taken by (auto simp: r split: if_splits)
      then show ?thesis
        using Cons.IH [OF idx(2)] taken False
        by (cases n) (auto simp: idx(1) split: option.splits if_splits)
    qed
  qed
qed simp

lemma dial_times_spaced:
  assumes "i + n < length (dial_times p l reqs)"
  shows "dial_times p l reqs ! i + n * emission_interval l \<le> dial_times p l reqs ! (i + n) + burst_tolerance l"
  using assms
proof (induction reqs arbitrary: l i)
  case (Cons r reqs)
  obtain q now mw where r: "r = (q, now, mw)" by (cases r)
  show ?case
  proof (cases rule: reserve_at_cases [of mw l q now])
    case (refused wait)
    then show ?thesis using Cons by (simp add: r)
  next
    case (taken t)
    let ?l = "l\<lparr>tat := hm_insert q (t + emission_interval l) (tat l)\<rparr>"
    show ?thesis
    proof (cases "q = p")
      case False
      then show ?thesis using Cons.IH [of i ?l] Cons.prems taken by (simp add: r)
    next
      case True
      show ?thesis
      proof (cases i)
        case 0
        show ?thesis
        proof (cases n)
          case (Suc m)
          then show ?thesis
            using dial_times_lower [of m p ?l reqs] Cons.prems taken True 0 by (simp add: r)
        qed (use 0 in simp)
      next
        case (Suc i')
        then show ?thesis using Cons.IH [of i' ?l] Cons.prems taken True by (simp add: r)
      qed
    qed
  qed
qed simp

lemma filter_index_spread:
  assumes "filter P xs \<noteq> []"
  shows "\<exists>i j. i + (length (filter P xs) - 1) \<le> j \<and> j < length xs \<and> P (xs ! i) \<and> P (xs ! j)"
  using assms
proof (induction xs)
  case (Cons x xs)
  show ?case
  proof (cases "filter P xs = []")
    case True
    then show ?thesis using Cons.prems by (intro exI [of _ 0]) (auto split: if_splits)
  next
    case False
    then obtain i j where ij: "i + (length (filter P xs) - 1) \<le> j" "j < length xs" "P (xs ! i)" "P (xs ! j)"
      using Cons.IH by blast
    show ?thesis
    proof (cases "P x")
      case True
      have "length (filter P xs) > 0" using False by simp
      then show ?thesis using True ij by (intro exI [of _ 0] exI [of _ "Suc j"]) auto
    next
      case False
      then show ?thesis using ij by (intro exI [of _ "Suc i"] exI [of _ "Suc j"]) auto
    qed
  qed
qed simp

text \<open>
  C33. Pacing: whatever reservations are made for whatever peers at whatever times, the dials to
  one peer that fall in any window of length \<^term>\<open>w\<close> number at most
  \<open>(w + tolerance) / interval + 1\<close>, so the configured rate and burst are never exceeded.
\<close>

theorem dial_rate_bounded:
  "length (filter (\<lambda>d. s \<le> d \<and> d \<le> s + w) (dial_times p l reqs)) * emission_interval l \<le>
     w + burst_tolerance l + emission_interval l"
proof (cases "filter (\<lambda>d. s \<le> d \<and> d \<le> s + w) (dial_times p l reqs) = []")
  case False
  let ?k = "length (filter (\<lambda>d. s \<le> d \<and> d \<le> s + w) (dial_times p l reqs))"
  obtain i j where ij: "i + (?k - 1) \<le> j" "j < length (dial_times p l reqs)"
    "s \<le> dial_times p l reqs ! i" "dial_times p l reqs ! j \<le> s + w"
    using filter_index_spread [OF False] by auto
  have "dial_times p l reqs ! i + (j - i) * emission_interval l \<le> dial_times p l reqs ! j + burst_tolerance l"
    using dial_times_spaced [of i "j - i" p l reqs] ij(1,2) by simp
  then have "(j - i) * emission_interval l \<le> w + burst_tolerance l" using ij(3,4) by linarith
  moreover have "(?k - 1) * emission_interval l \<le> (j - i) * emission_interval l"
    using ij(1) by (intro mult_right_mono) auto
  moreover have "?k * emission_interval l = (?k - 1) * emission_interval l + emission_interval l"
    using False by (cases ?k) auto
  ultimately show ?thesis by linarith
qed simp

text \<open>
  \<^verbatim>\<open>peek\<close> predicts \<^verbatim>\<open>reserve_at\<close>: a reservation is granted exactly when the wait \<^verbatim>\<open>peek\<close> reports is
  acceptable, it reports that same wait, a refusal charges nothing, and another peer's
  reservation leaves the wait of a peer as it was.
\<close>

lemma peek_predicts_reserve:
  "reserve_at l q now mw =
     (if peek l q now \<le> mw then (Inr (peek l q now), snd (reserve_at l q now mw))
      else (Inl (peek l q now), l)) \<and>
   (p = q \<or> peek (snd (reserve_at l q now mw)) p t = peek l p t)"
  by (auto simp: reserve_at_def peek_def wait_for_def Let_def)

section \<open>Token buckets\<close>

lemma F64_MIN_POSITIVE_le_1: "F64_MIN_POSITIVE \<le> 1"
  by (simp add: F64_MIN_POSITIVE_def)

definition il_inv :: "inbound_limiter \<Rightarrow> bool" where
  "il_inv l =
     (hm_wf (buckets l) \<and> length (buckets l) \<le> il_cap l \<and> 1 \<le> il_cap l \<and> 1 \<le> il_burst l \<and> 0 < il_rate l)"

lemma il_inv_new: "il_inv (il_new rate burst cap)"
  by (simp add: il_inv_def il_new_def less_max_iff_disj F64_MIN_POSITIVE_def)

lemma hm_wf_filter_map: "hm_wf m \<Longrightarrow> hm_wf (filter P (map (\<lambda>(k, b). (k, f b)) m))"
proof -
  assume "hm_wf m"
  then have "hm_wf (map (\<lambda>(k, b). (k, f b)) m)" by (simp add: hm_wf_def o_def split_def)
  then show ?thesis by (simp add: hm_wf_def distinct_map_filter)
qed

lemma sweep_frame [simp]:
  "il_cap (sweep fl now l) = il_cap l" "il_rate (sweep fl now l) = il_rate l" "il_burst (sweep fl now l) = il_burst l"
  by (simp_all add: sweep_def)

lemma length_sweep: "length (buckets (sweep fl now l)) \<le> length (buckets l)"
  by (simp add: sweep_def length_filter_le [THEN order_trans])

lemma il_inv_sweep: "il_inv l \<Longrightarrow> il_inv (sweep fl now l)"
  using length_sweep [of fl now l]
  by (simp add: il_inv_def) (simp add: sweep_def hm_wf_filter_map)

lemma allow_at_frame [simp]:
  "il_cap (snd (allow_at fl l k now)) = il_cap l" "il_rate (snd (allow_at fl l k now)) = il_rate l"
  "il_burst (snd (allow_at fl l k now)) = il_burst l"
  by (simp_all add: allow_at_def Let_def split: option.split)

lemma il_inv_allow_at: "il_inv l \<Longrightarrow> il_inv (snd (allow_at fl l k now))"
proof -
  assume i: "il_inv l"
  have present: "length (hm_insert k b (buckets l)) = length (buckets l)" if "hm_get (buckets l) k \<noteq> None" for b
    using that by (simp add: length_hm_insert hm_contains_def)
  have absent: "length (hm_insert k b m) \<le> Suc (length m)" for b and m :: "(bytes, bucket) hashmap"
    by (simp add: length_hm_insert)
  show ?thesis
    using i il_inv_sweep [OF i, of fl now] present
      absent [of _ "buckets l"] absent [of _ "buckets (sweep fl now l)"]
    by (auto simp: allow_at_def Let_def il_inv_def split: option.split intro: order_trans [OF absent])
qed

text \<open>
  The budget of a key at a moment, in exact arithmetic: its tokens refilled up to then, and a full
  burst for a key the table does not know.
\<close>

definition budget :: "inbound_limiter \<Rightarrow> bytes \<Rightarrow> instant \<Rightarrow> real" where
  "budget l k now =
     (case hm_get (buckets l) k of
        None \<Rightarrow> il_burst l
      | Some b \<Rightarrow> min (tokens b + real (now - last_refill b) / 10 ^ 9 * il_rate l) (il_burst l))"

lemma as_secs_exact: "as_secs_f64 (\<lambda>x. x) d = real d / 10 ^ 9"
proof -
  have "d = d div secs 1 * secs 1 + d mod secs 1" by simp
  then have "real d = real (d div secs 1) * real (secs 1) + real (d mod secs 1)"
    by (metis of_nat_add of_nat_mult)
  then show ?thesis by (simp add: as_secs_f64_def field_simps)
qed


definition il_times :: "instant \<Rightarrow> inbound_limiter \<Rightarrow> bool" where
  "il_times now l = (\<forall>k b. hm_get (buckets l) k = Some b \<longrightarrow> last_refill b \<le> now \<and> 0 \<le> tokens b)"

lemma refill_exact:
  "refill (\<lambda>x. x) now rate burst b =
     b\<lparr>tokens := min (tokens b + real (now - last_refill b) / 10 ^ 9 * rate) burst, last_refill := now\<rparr>"
  by (simp add: refill_def as_secs_exact Let_def)

lemma budget_nonneg: "il_inv l \<Longrightarrow> il_times now l \<Longrightarrow> 0 \<le> budget l k now"
  by (auto simp: budget_def il_times_def il_inv_def split: option.split)

lemma budget_le_burst: "budget l k now \<le> il_burst l"
  by (simp add: budget_def split: option.split)

lemma budget_elapse:
  assumes "il_times now l" "now \<le> now'" "il_inv l"
  shows "budget l k now' \<le> budget l k now + il_rate l * real (now' - now) / 10 ^ 9"
proof (cases "hm_get (buckets l) k")
  case None
  then show ?thesis using assms by (simp add: budget_def il_inv_def)
next
  case (Some b)
  have le: "last_refill b \<le> now" using assms(1) Some by (simp add: il_times_def)
  have "real (now' - last_refill b) / 10 ^ 9 * il_rate l =
      real (now - last_refill b) / 10 ^ 9 * il_rate l + il_rate l * real (now' - now) / 10 ^ 9"
    using le assms(2) by (simp add: of_nat_diff field_simps)
  moreover have "0 \<le> il_rate l * real (now' - now) / 10 ^ 9" using assms(3) by (simp add: il_inv_def)
  ultimately show ?thesis unfolding budget_def Some option.case by linarith
qed

lemma hm_get_sweep:
  "hm_wf (buckets l) \<Longrightarrow> hm_get (buckets (sweep fl now l)) k =
     (case hm_get (buckets l) k of
        None \<Rightarrow> None
      | Some b \<Rightarrow> if is_full (il_burst l) (refill fl now (il_rate l) (il_burst l) b) then None
                  else Some (refill fl now (il_rate l) (il_burst l) b))"
proof -
  have "map_of (filter (\<lambda>(_, b). \<not> P b) (map (\<lambda>(k, b). (k, f b)) m)) k =
      (case map_of m k of None \<Rightarrow> None | Some b \<Rightarrow> if P (f b) then None else Some (f b))"
    if "distinct (map fst m)" for P f and m :: "(bytes, bucket) hashmap"
    using that by (induction m) (force split: option.splits)+
  then show "hm_wf (buckets l) \<Longrightarrow> ?thesis"
    by (simp add: sweep_def hm_get_def hm_wf_def)
qed

lemma sweep_exact:
  assumes "il_inv l" "il_times now l"
  shows "budget (sweep (\<lambda>x. x) now l) k now = budget l k now" "il_times now (sweep (\<lambda>x. x) now l)"
proof -
  have wf: "hm_wf (buckets l)" and r: "0 < il_rate l" "1 \<le> il_burst l" using assms(1) by (auto simp: il_inv_def)
  show "budget (sweep (\<lambda>x. x) now l) k now = budget l k now"
    by (auto simp: budget_def hm_get_sweep [OF wf] is_full_def refill_exact split: option.split)
  show "il_times now (sweep (\<lambda>x. x) now l)"
    using assms(2) r
    by (auto simp: il_times_def hm_get_sweep [OF wf] refill_exact split: option.splits if_splits)
qed

lemma budget_insert:
  "budget (m\<lparr>buckets := hm_insert k b (buckets m)\<rparr>) k' now =
     (if k' = k then min (tokens b + real (now - last_refill b) / 10 ^ 9 * il_rate m) (il_burst m)
      else budget m k' now)"
  by (simp add: budget_def split: option.split)

lemma allow_at_exact:
  assumes "il_inv l" "il_times now l"
  shows "budget (snd (allow_at (\<lambda>x. x) l k now)) k' now =
      budget l k' now - (if k' = k \<and> fst (allow_at (\<lambda>x. x) l k now) then 1 else 0)"
    "il_times now (snd (allow_at (\<lambda>x. x) l k now))"
proof -
  have r: "0 < il_rate l" "1 \<le> il_burst l" using assms(1) by (auto simp: il_inv_def)
  let ?l1 = "if length (buckets l) \<ge> il_cap l then sweep (\<lambda>x. x) now l else l"
  have l1: "budget ?l1 k' now = budget l k' now" "il_times now ?l1" "il_burst ?l1 = il_burst l"
    "il_rate ?l1 = il_rate l"
    using sweep_exact [OF assms] assms(2) by auto
  have wf: "hm_wf (buckets l)" using assms(1) by (simp add: il_inv_def)
  have none: "hm_get (buckets ?l1) k = None" if "hm_get (buckets l) k = None"
    using that hm_get_sweep [OF wf] by simp
  show "budget (snd (allow_at (\<lambda>x. x) l k now)) k' now =
      budget l k' now - (if k' = k \<and> fst (allow_at (\<lambda>x. x) l k now) then 1 else 0)"
  proof (cases "hm_get (buckets l) k")
    case None
    define m where "m = ?l1"
    have "allow_at (\<lambda>x. x) l k now = (if length (buckets m) \<ge> il_cap m then (False, m)
          else (True, m\<lparr>buckets := hm_insert k \<lparr>tokens = il_burst m - 1, last_refill = now\<rparr> (buckets m)\<rparr>))"
      by (simp add: allow_at_def None m_def Let_def)
    moreover have "budget m k' now = budget l k' now" "hm_get (buckets m) k = None" "il_burst m = il_burst l"
      using l1 none [OF None] by (simp_all add: m_def)
    moreover have "budget l k now = il_burst l" by (simp add: budget_def None)
    ultimately show ?thesis by (auto simp: budget_insert)
  next
    case (Some b)
    have "budget l k now = min (tokens b + real (now - last_refill b) / 10 ^ 9 * il_rate l) (il_burst l)"
      by (simp add: budget_def Some)
    then show ?thesis by (auto simp: allow_at_def Some refill_exact Let_def budget_insert)
  qed
  show "il_times now (snd (allow_at (\<lambda>x. x) l k now))"
  proof (cases "hm_get (buckets l) k")
    case None
    define m where "m = ?l1"
    have "allow_at (\<lambda>x. x) l k now = (if length (buckets m) \<ge> il_cap m then (False, m)
          else (True, m\<lparr>buckets := hm_insert k \<lparr>tokens = il_burst m - 1, last_refill = now\<rparr> (buckets m)\<rparr>))"
      by (simp add: allow_at_def None m_def Let_def)
    then show ?thesis using l1 r by (auto simp: il_times_def m_def [symmetric])
  next
    case (Some b)
    then show ?thesis
      using assms(2) r by (auto simp: allow_at_def il_times_def refill_exact Let_def)
  qed
qed

definition il_run :: "(real \<Rightarrow> real) \<Rightarrow> inbound_limiter \<Rightarrow> (bytes \<times> instant) list \<Rightarrow> inbound_limiter" where
  "il_run fl = foldl (\<lambda>l (k, now). snd (allow_at fl l k now))"

fun allowed_count :: "(real \<Rightarrow> real) \<Rightarrow> bytes \<Rightarrow> inbound_limiter \<Rightarrow> (bytes \<times> instant) list \<Rightarrow> nat" where
  "allowed_count fl k l [] = 0"
| "allowed_count fl k l ((k', now) # reqs) =
     (if k' = k \<and> fst (allow_at fl l k' now) then 1 else 0) +
     allowed_count fl k (snd (allow_at fl l k' now)) reqs"

lemma il_times_mono: "il_times now l \<Longrightarrow> now \<le> now' \<Longrightarrow> il_times now' l"
  by (fastforce simp: il_times_def)

lemma il_run_inv: "il_inv l \<Longrightarrow> il_inv (il_run fl l reqs)"
  unfolding il_run_def by (induction reqs arbitrary: l) (auto simp: il_inv_allow_at)

lemma il_run_frame: "il_rate (il_run fl l reqs) = il_rate l" "il_burst (il_run fl l reqs) = il_burst l"
  "il_cap (il_run fl l reqs) = il_cap l"
  unfolding il_run_def by (induction reqs arbitrary: l) auto

lemma il_run_times:
  "il_inv l \<Longrightarrow> il_times t0 l \<Longrightarrow> sorted (map snd reqs) \<Longrightarrow> \<forall>r \<in> set reqs. t0 \<le> snd r \<and> snd r \<le> t1 \<Longrightarrow>
     t0 \<le> t1 \<Longrightarrow> il_times t1 (il_run (\<lambda>x. x) l reqs)"
proof (induction reqs arbitrary: l t0)
  case Nil
  then show ?case by (simp add: il_run_def il_times_mono)
next
  case (Cons r reqs)
  obtain k now where r: "r = (k, now)" by (cases r)
  have t: "il_times now l" using Cons.prems by (auto simp: r intro: il_times_mono)
  have "il_times t1 (il_run (\<lambda>x. x) (snd (allow_at (\<lambda>x. x) l k now)) reqs)"
    by (rule Cons.IH [of _ now])
      (use Cons.prems t in \<open>auto simp: r il_inv_allow_at allow_at_exact\<close>)
  then show ?case by (simp add: il_run_def r)
qed

lemma allowed_count_budget:
  "il_inv l \<Longrightarrow> il_times t0 l \<Longrightarrow> sorted (map snd reqs) \<Longrightarrow> \<forall>r \<in> set reqs. t0 \<le> snd r \<and> snd r \<le> t1 \<Longrightarrow>
     t0 \<le> t1 \<Longrightarrow> real (allowed_count (\<lambda>x. x) k l reqs) \<le> budget l k t0 + il_rate l * real (t1 - t0) / 10 ^ 9"
proof (induction reqs arbitrary: l t0)
  case Nil
  then show ?case using budget_nonneg [of l t0 k] by (simp add: il_inv_def)
next
  case (Cons r reqs)
  obtain k' now where r: "r = (k', now)" by (cases r)
  let ?l = "snd (allow_at (\<lambda>x. x) l k' now)"
  have le: "t0 \<le> now" "now \<le> t1" using Cons.prems by (auto simp: r)
  have t: "il_times now l" using Cons.prems le(1) by (blast intro: il_times_mono)
  have "real (allowed_count (\<lambda>x. x) k ?l reqs) \<le> budget ?l k now + il_rate ?l * real (t1 - now) / 10 ^ 9"
    by (rule Cons.IH) (use Cons.prems t in \<open>auto simp: r il_inv_allow_at allow_at_exact\<close>)
  also have "budget ?l k now = budget l k now - (if k' = k \<and> fst (allow_at (\<lambda>x. x) l k' now) then 1 else 0)"
    using allow_at_exact(1) [OF Cons.prems(1) t, of k' k] by auto
  finally have "real (allowed_count (\<lambda>x. x) k l (r # reqs)) \<le> budget l k now + il_rate l * real (t1 - now) / 10 ^ 9"
    by (auto simp: r split: if_splits)
  also have "budget l k now \<le> budget l k t0 + il_rate l * real (now - t0) / 10 ^ 9"
    by (rule budget_elapse) (use Cons.prems le in auto)
  finally show ?case using le by (simp add: of_nat_diff field_simps)
qed

lemma sorted_map_last: "sorted (map f xs) \<Longrightarrow> x \<in> set xs \<Longrightarrow> f x \<le> f (last xs)"
  by (induction xs) auto



end
