(* ===== verification/Signer.thy ===== *)
theory Signer
  imports Prelude "HOL-Library.List_Lexorder"
begin

text \<open>
  The signing key and the signature checks, \<^verbatim>\<open>src/signer.rs\<close>. Elliptic-curve operations, Keccak
  and the EIP-712 struct hash belong to third-party crates and are the fields of a \<^verbatim>\<open>crypto\<close>
  record; what the repository builds around them (payload layouts, the canonical-form check, the
  recovery of an address, the handshake cache) is defined here.
\<close>

section \<open>What the cryptographic crates provide\<close>

record eip712_domain =
  dom_name :: string
  dom_version :: string
  dom_chain_id :: "256 word"

datatype sol_struct =
    Cheque (ch_chequebook: bytes) (ch_beneficiary: bytes) (ch_cumulativePayout: "256 word")
  | PushChallenge (pc_nonce: bytes) (pc_origin: string) (pc_account: bytes) (pc_batchId: bytes)
      (pc_expiry: "256 word")

record crypto =
  keccak :: "bytes \<Rightarrow> bytes"
  eip712_signing_hash :: "eip712_domain \<Rightarrow> sol_struct \<Rightarrow> bytes"
  alloy_address :: "bytes \<Rightarrow> bytes option"
  alloy_sign_message :: "bytes \<Rightarrow> bytes \<Rightarrow> bytes option"
  alloy_sign_typed :: "bytes \<Rightarrow> eip712_domain \<Rightarrow> sol_struct \<Rightarrow> bytes option"
  alloy_sig_parses :: "bytes \<Rightarrow> bool"
  k256_recover :: "bytes \<Rightarrow> bytes \<Rightarrow> byte \<Rightarrow> bytes option"

section \<open>Data\<close>

datatype signer_error =
    BadKeyLen usize
  | KeyHex
  | Alloy string

type_synonym handshake_cache = "(bytes \<times> bytes, u64 \<times> bytes) hashmap"

record swarm_signer =
  sw_key :: bytes
  sw_overlay :: bytes
  sw_eth_address :: bytes
  sw_nonce :: bytes
  sw_network_id :: u64
  handshake_cache_v15 :: handshake_cache

section \<open>Construction\<close>

definition derive_overlay :: "crypto \<Rightarrow> bytes \<Rightarrow> u64 \<Rightarrow> bytes \<Rightarrow> bytes" where
  "derive_overlay c addr network_id nonce = keccak c (addr @ to_le_bytes 8 network_id @ nonce)"

definition from_bytes_with_nonce :: "crypto \<Rightarrow> bytes \<Rightarrow> bytes \<Rightarrow> u64 \<Rightarrow> signer_error + swarm_signer" where
  "from_bytes_with_nonce c key nonce network_id =
     (case alloy_address c key of
        None \<Rightarrow> Inl (Alloy ''key'')
      | Some addr \<Rightarrow>
          Inr \<lparr>sw_key = key, sw_overlay = derive_overlay c addr network_id nonce, sw_eth_address = addr,
               sw_nonce = nonce, sw_network_id = network_id, handshake_cache_v15 = []\<rparr>)"

text \<open>The random nonce of \<^verbatim>\<open>from_bytes\<close> is the argument \<^verbatim>\<open>entropy\<close>.\<close>

definition from_bytes :: "crypto \<Rightarrow> bytes \<Rightarrow> bytes \<Rightarrow> u64 \<Rightarrow> signer_error + swarm_signer" where
  "from_bytes c entropy key network_id =
     (case alloy_address c key of
        None \<Rightarrow> Inl (Alloy ''key'')
      | Some addr \<Rightarrow>
          let nonce = entropy in
          Inr \<lparr>sw_key = key, sw_overlay = derive_overlay c addr network_id nonce, sw_eth_address = addr,
               sw_nonce = nonce, sw_network_id = network_id, handshake_cache_v15 = []\<rparr>)"

definition from_hex :: "crypto \<Rightarrow> (string \<Rightarrow> bytes option) \<Rightarrow> bytes \<Rightarrow> string \<Rightarrow> u64 \<Rightarrow> signer_error + swarm_signer" where
  "from_hex c unhex entropy hex_key network_id =
     (case unhex (trim_0x hex_key) of
        None \<Rightarrow> Inl KeyHex
      | Some key \<Rightarrow> if length key \<noteq> 32 then Inl (BadKeyLen (length key)) else from_bytes c entropy key network_id)"

definition from_hex_with_nonce ::
    "crypto \<Rightarrow> (string \<Rightarrow> bytes option) \<Rightarrow> string \<Rightarrow> string \<Rightarrow> u64 \<Rightarrow> signer_error + swarm_signer" where
  "from_hex_with_nonce c unhex hex_key hex_nonce network_id =
     (case unhex (trim_0x hex_key) of
        None \<Rightarrow> Inl KeyHex
      | Some key \<Rightarrow>
          if length key \<noteq> 32 then Inl (BadKeyLen (length key))
          else
            case unhex (trim_0x hex_nonce) of
              None \<Rightarrow> Inl KeyHex
            | Some nonce \<Rightarrow>
                if length nonce \<noteq> 32 then Inl (BadKeyLen (length nonce))
                else from_bytes_with_nonce c key nonce network_id)"

section \<open>Payloads\<close>

definition generate_sign_data :: "bytes \<Rightarrow> bytes \<Rightarrow> u64 \<Rightarrow> bytes" where
  "generate_sign_data underlay overlay network_id =
     as_bytes ''bee-handshake-'' @ underlay @ overlay @ to_be_bytes 8 network_id"

definition generate_sign_data_v15 :: "bytes \<Rightarrow> bytes \<Rightarrow> u64 \<Rightarrow> bytes \<Rightarrow> u64 \<Rightarrow> bytes \<Rightarrow> bytes" where
  "generate_sign_data_v15 underlay overlay network_id nonce timestamp chequebook =
     as_bytes ''bee-handshake-'' @ underlay @ overlay @ to_be_bytes 8 network_id @ nonce @
     to_be_bytes 8 timestamp @ chequebook"

definition chequebook_domain :: "u64 \<Rightarrow> eip712_domain" where
  "chequebook_domain chain_id =
     \<lparr>dom_name = ''Chequebook'', dom_version = ''1.0'', dom_chain_id = ucast chain_id\<rparr>"

definition pusher_domain :: "u64 \<Rightarrow> eip712_domain" where
  "pusher_domain chain_id =
     \<lparr>dom_name = ''HoverflyPusher'', dom_version = ''1'', dom_chain_id = ucast chain_id\<rparr>"

section \<open>Signing\<close>

text \<open>The recovery byte is brought to Ethereum's 27 or 28.\<close>

definition ethereum_v :: "bytes \<Rightarrow> bytes" where
  "ethereum_v sig = (if sig ! 64 < 27 then sig[64 := sig ! 64 + 27] else sig)"

definition sign_eip191 :: "crypto \<Rightarrow> swarm_signer \<Rightarrow> bytes \<Rightarrow> signer_error + bytes" where
  "sign_eip191 c s data =
     (case alloy_sign_message c (sw_key s) data of
        None \<Rightarrow> Inl (Alloy ''sign'')
      | Some sig \<Rightarrow> Inr (ethereum_v sig))"

definition sign_cheque :: "crypto \<Rightarrow> swarm_signer \<Rightarrow> bytes \<Rightarrow> bytes \<Rightarrow> 256 word \<Rightarrow> u64 \<Rightarrow> signer_error + bytes" where
  "sign_cheque c s chequebook beneficiary payout chain_id =
     (case alloy_sign_typed c (sw_key s)
             \<lparr>dom_name = ''Chequebook'', dom_version = ''1.0'', dom_chain_id = ucast chain_id\<rparr>
             (Cheque chequebook beneficiary payout) of
        None \<Rightarrow> Inl (Alloy ''sign'')
      | Some sig \<Rightarrow> Inr (ethereum_v sig))"

definition sign_push_challenge :: "crypto \<Rightarrow> swarm_signer \<Rightarrow> sol_struct \<Rightarrow> u64 \<Rightarrow> signer_error + bytes" where
  "sign_push_challenge c s challenge chain_id =
     (case alloy_sign_typed c (sw_key s) (pusher_domain chain_id) challenge of
        None \<Rightarrow> Inl (Alloy ''sign'')
      | Some sig \<Rightarrow> Inr (ethereum_v sig))"

definition sign_handshake :: "crypto \<Rightarrow> swarm_signer \<Rightarrow> bytes \<Rightarrow> signer_error + bytes" where
  "sign_handshake c s underlay =
     sign_eip191 c s (generate_sign_data underlay (sw_overlay s) (sw_network_id s))"

definition sign_handshake_v15 ::
    "crypto \<Rightarrow> swarm_signer \<Rightarrow> bytes \<Rightarrow> bytes \<Rightarrow> u64 \<Rightarrow> bytes \<Rightarrow> signer_error + bytes" where
  "sign_handshake_v15 c s underlay nonce timestamp chequebook =
     sign_eip191 c s
       (generate_sign_data_v15 underlay (sw_overlay s) (sw_network_id s) nonce timestamp chequebook)"

definition sign_handshake_v15_cached ::
    "crypto \<Rightarrow> u64 \<Rightarrow> swarm_signer \<Rightarrow> bytes \<Rightarrow> bytes \<Rightarrow> (signer_error + u64 \<times> bytes) \<times> swarm_signer" where
  "sign_handshake_v15_cached c now s underlay chequebook =
     (let key = (underlay, chequebook) in
      case hm_get (handshake_cache_v15 s) key of
        Some entry \<Rightarrow> (Inr entry, s)
      | None \<Rightarrow>
          (case sign_handshake_v15 c s underlay (sw_nonce s) now chequebook of
             Inl e \<Rightarrow> (Inl e, s)
           | Inr sig \<Rightarrow>
               (Inr (now, sig),
                s\<lparr>handshake_cache_v15 := hm_insert key (now, sig) (handshake_cache_v15 s)\<rparr>)))"

section \<open>Recovery\<close>

definition SECP256K1N_HALF :: bytes where
  "SECP256K1N_HALF =
     [0x7F, 0xFF, 0xFF, 0xFF, 0xFF, 0xFF, 0xFF, 0xFF, 0xFF, 0xFF, 0xFF, 0xFF, 0xFF, 0xFF, 0xFF, 0xFF,
      0x5D, 0x57, 0x6E, 0x73, 0x57, 0xA4, 0x50, 0x1D, 0xDF, 0xE9, 0x2F, 0x46, 0x68, 0x1B, 0x20, 0xA0]"

definition check_canonical_signature :: "bytes \<Rightarrow> signer_error + unit" where
  "check_canonical_signature sig =
     (if length sig \<noteq> 65 then Inl (Alloy ''length'')
      else if sig ! 64 \<noteq> 27 \<and> sig ! 64 \<noteq> 28 then Inl (Alloy ''v'')
      else if take 32 (drop 32 sig) > SECP256K1N_HALF then Inl (Alloy ''high-s'')
      else Inr ())"

definition point_address :: "crypto \<Rightarrow> bytes \<Rightarrow> bytes" where
  "point_address c point = drop 12 (keccak c (tl point))"

definition recover_eth_from_eip191 :: "crypto \<Rightarrow> bytes \<Rightarrow> bytes \<Rightarrow> signer_error + bytes" where
  "recover_eth_from_eip191 c payload sig =
     (if length sig \<noteq> 65 then Inl (Alloy ''length'')
      else
        let prefixed = 25 # as_bytes ''Ethereum Signed Message:'' @ [10] @
              as_bytes (nat_to_dec (length payload)) @ payload;
            digest = keccak c prefixed;
            v = (if sig ! 64 \<ge> 27 then sig ! 64 - 27 else sig ! 64)
        in if v > 1 then Inl (Alloy ''v'')
           else if \<not> alloy_sig_parses c sig then Inl (Alloy ''parse'')
           else
             case k256_recover c digest (take 64 sig) v of
               None \<Rightarrow> Inl (Alloy ''recover'')
             | Some point \<Rightarrow> Inr (point_address c point))"

definition recover_eth_address_from_handshake :: "crypto \<Rightarrow> bytes \<Rightarrow> bytes \<Rightarrow> u64 \<Rightarrow> bytes \<Rightarrow> signer_error + bytes" where
  "recover_eth_address_from_handshake c underlay overlay network_id sig =
     recover_eth_from_eip191 c (generate_sign_data underlay overlay network_id) sig"

definition recover_eth_address_from_handshake_v15 ::
    "crypto \<Rightarrow> bytes \<Rightarrow> bytes \<Rightarrow> u64 \<Rightarrow> bytes \<Rightarrow> u64 \<Rightarrow> bytes \<Rightarrow> bytes \<Rightarrow> signer_error + bytes" where
  "recover_eth_address_from_handshake_v15 c underlay overlay network_id nonce timestamp chequebook sig =
     recover_eth_from_eip191 c
       (generate_sign_data_v15 underlay overlay network_id nonce timestamp chequebook) sig"

definition recover_typed :: "crypto \<Rightarrow> sol_struct \<Rightarrow> eip712_domain \<Rightarrow> bytes \<Rightarrow> signer_error + bytes" where
  "recover_typed c val domain sig =
     (case k256_recover c (eip712_signing_hash c domain val) (take 64 sig) (sig ! 64 - 27) of
        None \<Rightarrow> Inl (Alloy ''recover'')
      | Some point \<Rightarrow> Inr (point_address c point))"

definition recover_cheque_issuer ::
    "crypto \<Rightarrow> bytes \<Rightarrow> bytes \<Rightarrow> 256 word \<Rightarrow> u64 \<Rightarrow> bytes \<Rightarrow> signer_error + bytes" where
  "recover_cheque_issuer c chequebook beneficiary payout chain_id sig =
     (case check_canonical_signature sig of
        Inl e \<Rightarrow> Inl e
      | Inr _ \<Rightarrow> recover_typed c (Cheque chequebook beneficiary payout) (chequebook_domain chain_id) sig)"

definition recover_push_challenge :: "crypto \<Rightarrow> sol_struct \<Rightarrow> u64 \<Rightarrow> bytes \<Rightarrow> signer_error + bytes" where
  "recover_push_challenge c challenge chain_id sig =
     (case check_canonical_signature sig of
        Inl e \<Rightarrow> Inl e
      | Inr _ \<Rightarrow> recover_typed c challenge (pusher_domain chain_id) sig)"

section \<open>Canonical signatures\<close>

text \<open>On equal lengths the lexicographic order of byte strings is the order of the numbers.\<close>

lemma digit_compare:
  fixes x y a b p :: nat
  assumes "a < p" "b < p"
  shows "x * p + a < y * p + b \<longleftrightarrow> x < y \<or> x = y \<and> a < b"
proof -
  have "x * p + a < y * p + b" if "x < y"
  proof -
    have "Suc x * p \<le> y * p" using that by (intro mult_right_mono) auto
    then show ?thesis using assms(1) by simp
  qed
  moreover have "\<not> x * p + a < y * p + b" if "y < x"
  proof -
    have "Suc y * p \<le> x * p" using that by (intro mult_right_mono) auto
    then show ?thesis using assms(2) by simp
  qed
  ultimately show ?thesis by (cases x y rule: linorder_cases) auto
qed

lemma lex_less_be_nat: "length xs = length ys \<Longrightarrow> xs < ys \<longleftrightarrow> be_nat xs < be_nat ys"
proof (induction xs ys rule: list_induct2)
  case (Cons x xs y ys)
  then show ?case
    using digit_compare [of "be_nat xs" "256 ^ length ys" "be_nat ys" "unat x" "unat y"]
      be_nat_bound [of xs] be_nat_bound [of ys]
    by (simp add: word_less_nat_alt word_unat_eq_iff)
qed simp

definition secp256k1n :: nat where
  "secp256k1n = 0xFFFFFFFFFFFFFFFFFFFFFFFFFFFFFFFEBAAEDCE6AF48A03BBFD25E8CD0364141"

lemma be_nat_half: "2 * be_nat SECP256K1N_HALF + 1 = secp256k1n"
  by (simp add: SECP256K1N_HALF_def secp256k1n_def)

lemma length_half: "length SECP256K1N_HALF = 32"
  by (simp add: SECP256K1N_HALF_def)

text \<open>
  C39. The canonical-form check accepts exactly the signatures the chequebook contract accepts:
  65 bytes, recovery byte 27 or 28, and \<open>s\<close> (as a big-endian number) at most half the group order.
\<close>

theorem canonical_signature_exact:
  "check_canonical_signature sig = Inr () \<longleftrightarrow>
     length sig = 65 \<and> (sig ! 64 = 27 \<or> sig ! 64 = 28) \<and>
     2 * be_nat (take 32 (drop 32 sig)) < secp256k1n"
proof (cases "length sig = 65")
  case True
  then have "length (take 32 (drop 32 sig)) = length SECP256K1N_HALF" by (simp add: length_half)
  then have "SECP256K1N_HALF < take 32 (drop 32 sig) \<longleftrightarrow> \<not> 2 * be_nat (take 32 (drop 32 sig)) < secp256k1n"
    using lex_less_be_nat [of SECP256K1N_HALF "take 32 (drop 32 sig)"] be_nat_half by auto
  then show ?thesis using True by (auto simp: check_canonical_signature_def)
qed (simp add: check_canonical_signature_def)

section \<open>Handshake payloads\<close>

text \<open>
  C40. The version 15 handshake payload determines everything it signs, although the underlay in
  front has no length prefix: all later fields have a fixed width.
\<close>

theorem sign_data_v15_injective:
  assumes "generate_sign_data_v15 u ov net no ts cb = generate_sign_data_v15 u' ov' net' no' ts' cb'"
    and "length ov = 32" "length ov' = 32" "length no = 32" "length no' = 32"
    and "length cb = 20" "length cb' = 20"
  shows "u = u' \<and> ov = ov' \<and> net = net' \<and> no = no' \<and> ts = ts' \<and> cb = cb'"
proof -
  have be8: "to_be_bytes 8 a = to_be_bytes 8 b \<Longrightarrow> a = b" for a b :: u64
    by (rule to_be_bytes_inject [of 8]) simp_all
  have eq: "u @ ov @ to_be_bytes 8 net @ no @ to_be_bytes 8 ts @ cb =
      u' @ ov' @ to_be_bytes 8 net' @ no' @ to_be_bytes 8 ts' @ cb'"
    using assms(1) by (simp add: generate_sign_data_v15_def)
  from arg_cong [OF this, of length] have "length u = length u'" using assms(2-) by simp
  then show ?thesis using eq assms(2-) by (auto dest: be8)
qed

theorem sign_data_v15_injective_witness:
  "generate_sign_data_v15 [1] (replicate 32 2) 3 (replicate 32 4) 5 (replicate 20 6) \<noteq>
   generate_sign_data_v15 [1, 2] (replicate 32 2) 3 (replicate 32 4) 5 (replicate 20 6)"
  using sign_data_v15_injective [of "[1]" "replicate 32 2" 3 "replicate 32 4" 5 "replicate 20 6"
      "[1, 2]" "replicate 32 2" 3 "replicate 32 4" 5 "replicate 20 6"]
  by auto

fun sign_many :: "crypto \<Rightarrow> swarm_signer \<Rightarrow> (u64 \<times> bytes \<times> bytes) list \<Rightarrow> swarm_signer" where
  "sign_many c s [] = s"
| "sign_many c s ((now, u, cb) # reqs) = sign_many c (snd (sign_handshake_v15_cached c now s u cb)) reqs"

lemma cached_entry_kept:
  "hm_get (handshake_cache_v15 s) k = Some e \<Longrightarrow>
     hm_get (handshake_cache_v15 (snd (sign_handshake_v15_cached c now s u cb))) k = Some e"
  by (auto simp: sign_handshake_v15_cached_def Let_def split: option.splits sum.splits)

lemma cached_entry_kept_many:
  "hm_get (handshake_cache_v15 s) k = Some e \<Longrightarrow>
     hm_get (handshake_cache_v15 (sign_many c s reqs)) k = Some e"
  by (induction c s reqs rule: sign_many.induct) (auto intro: cached_entry_kept)

lemma cached_entry_stored:
  "sign_handshake_v15_cached c now s u cb = (Inr r, s') \<Longrightarrow>
     hm_get (handshake_cache_v15 s') (u, cb) = Some r"
  by (auto simp: sign_handshake_v15_cached_def Let_def split: option.splits sum.splits)

text \<open>
  A peer is shown one stable record: after a cached handshake signature is handed out, every
  later request for the same underlay and chequebook returns the same timestamp and signature,
  whatever the clock says and whatever other records were signed in between.
\<close>

lemma handshake_record_stable:
  assumes "sign_handshake_v15_cached c now s u cb = (Inr r, s')"
  shows "fst (sign_handshake_v15_cached c now' (sign_many c s' reqs) u cb) = Inr r"
  using cached_entry_kept_many [OF cached_entry_stored [OF assms], of c reqs]
  by (simp add: sign_handshake_v15_cached_def Let_def)

definition toy_crypto :: crypto where
  "toy_crypto =
     \<lparr>keccak = (\<lambda>b. take 32 (b @ replicate 32 0)), eip712_signing_hash = (\<lambda>_ _. replicate 32 1),
      alloy_address = (\<lambda>k. Some (take 20 k)), alloy_sign_message = (\<lambda>k m. Some (replicate 65 (hd (k @ [0])))),
      alloy_sign_typed = (\<lambda>k d v. Some (replicate 65 1)), alloy_sig_parses = (\<lambda>s. True),
      k256_recover = (\<lambda>d s v. Some (4 # s))\<rparr>"

lemma handshake_record_stable_example:
  "\<exists>r s'. sign_handshake_v15_cached toy_crypto 10
       \<lparr>sw_key = [7], sw_overlay = [], sw_eth_address = [], sw_nonce = [], sw_network_id = 1, handshake_cache_v15 = []\<rparr>
       [1] [2] = (Inr r, s') \<and> fst r = 10 \<and>
     fst (sign_handshake_v15_cached toy_crypto 99 (sign_many toy_crypto s' [(50, [3], [4])]) [1] [2]) = Inr r"
proof -
  let ?s = "\<lparr>sw_key = [7], sw_overlay = [], sw_eth_address = [], sw_nonce = [], sw_network_id = 1, handshake_cache_v15 = []\<rparr>"
  obtain sig s' where r: "sign_handshake_v15_cached toy_crypto 10 ?s [1] [2] = (Inr (10, sig), s')"
    by (simp add: sign_handshake_v15_cached_def sign_handshake_v15_def sign_eip191_def toy_crypto_def)
  show ?thesis using r handshake_record_stable [OF r, of 99 "[(50, [3], [4])]"] by force
qed

end
