(* ===== verification/Challenge.thy ===== *)
theory Challenge
  imports Signer
begin

text \<open>
  The admission challenge, \<^verbatim>\<open>src/challenge.rs\<close>: the bytes the relay's MAC covers, issuing and
  verifying the MAC, and the header a client presents it in. Keccak comes from the \<^verbatim>\<open>crypto\<close>
  record; base64, JSON text and hex are the fields of a \<^verbatim>\<open>wire_codec\<close> record.
\<close>

unbundle bit_operations_syntax

section \<open>Data\<close>

definition DOMAIN_TAG :: bytes where
  "DOMAIN_TAG = as_bytes ''hoverfly-pusher-challenge-v1''"

definition CHALLENGE_TTL_SECS :: u64 where "CHALLENGE_TTL_SECS = 300"

definition MAX_CHALLENGE_HEADER :: usize where "MAX_CHALLENGE_HEADER = 2048"

record challenge_fields =
  cf_account :: bytes
  cf_batch :: bytes
  cf_origin :: string
  cf_expiry_unix :: u64
  cf_cap_plur :: u128

datatype challenge_error =
    BadMac
  | Expired u64
  | OriginMismatch string "string list"
  | EmptyOrigin
  | OriginTooLong usize

section \<open>The MAC\<close>

definition preimage :: "challenge_fields \<Rightarrow> challenge_error + bytes" where
  "preimage f =
     (if cf_origin f = [] then Inl EmptyOrigin
      else
        let olen = length (cf_origin f) in
        if olen > 65535 then Inl (OriginTooLong olen)
        else Inr (DOMAIN_TAG @ cf_account f @ cf_batch f @ to_be_bytes 8 (cf_expiry_unix f) @
                  to_be_bytes 16 (cf_cap_plur f) @ to_be_bytes 2 (of_nat olen :: u16) @
                  as_bytes (cf_origin f)))"

definition nonce :: "crypto \<Rightarrow> bytes \<Rightarrow> challenge_fields \<Rightarrow> challenge_error + bytes" where
  "nonce c sec f =
     (case preimage f of Inl e \<Rightarrow> Inl e | Inr p \<Rightarrow> Inr (keccak c (sec @ p)))"

definition constant_time_eq :: "bytes \<Rightarrow> bytes \<Rightarrow> bool" where
  "constant_time_eq a b =
     (length a = length b \<and> foldl (\<lambda>acc (x, y). acc OR (x XOR y)) 0 (zip a b) = 0)"

definition verify :: "crypto \<Rightarrow> bytes \<Rightarrow> challenge_fields \<Rightarrow> bytes \<Rightarrow> u64 \<Rightarrow> string list \<Rightarrow> challenge_error + unit" where
  "verify c sec f presented now origins =
     (if \<not> list_ex (\<lambda>o'. o' = cf_origin f) origins then Inl (OriginMismatch (cf_origin f) origins)
      else
        case nonce c sec f of
          Inl e \<Rightarrow> Inl e
        | Inr want \<Rightarrow>
            if \<not> constant_time_eq presented want then Inl BadMac
            else if now > cf_expiry_unix f then Inl (Expired (now - cf_expiry_unix f))
            else Inr ())"

section \<open>The header\<close>

record wire_codec =
  wc_hex_encode :: "bytes \<Rightarrow> string"
  wc_hex_decode :: "string \<Rightarrow> bytes option"
  b64_encode :: "string \<Rightarrow> string"
  b64_decode :: "string \<Rightarrow> bytes option"
  json_print :: "json \<Rightarrow> string"
  json_parse :: "bytes \<Rightarrow> json option"

record issued_challenge =
  ic_fields :: challenge_fields
  ic_nonce :: bytes

definition issued_to_json :: "wire_codec \<Rightarrow> issued_challenge \<Rightarrow> json" where
  "issued_to_json w i =
     (let f = ic_fields i in
      JObject
        [(''nonce'', JString (''0x'' @ wc_hex_encode w (ic_nonce i))),
         (''account'', JString (''0x'' @ wc_hex_encode w (cf_account f))),
         (''batch'', JString (''0x'' @ wc_hex_encode w (cf_batch f))),
         (''origin'', JString (cf_origin f)),
         (''expiry'', JWord (cf_expiry_unix f)),
         (''max_outstanding_plur'', JString (uint_to_string (cf_cap_plur f))),
         (''expires_ms'', JWord (saturating_mul (cf_expiry_unix f) 1000))])"

record presented_challenge =
  pr_fields :: challenge_fields
  pr_nonce :: bytes
  pr_sig :: bytes

datatype header_error =
    HeaderBase64
  | HeaderJson
  | HeaderMissing string
  | HeaderHex string
  | HeaderLength string usize usize
  | HeaderCap

definition json_get :: "json \<Rightarrow> string \<Rightarrow> json option" where
  "json_get v k = (case v of JObject kvs \<Rightarrow> map_of kvs k | _ \<Rightarrow> None)"

definition as_str :: "json \<Rightarrow> string option" where
  "as_str v = (case v of JString s \<Rightarrow> Some s | _ \<Rightarrow> None)"

definition as_u64 :: "json \<Rightarrow> u64 option" where
  "as_u64 v = (case v of JInt i \<Rightarrow> (if 0 \<le> i \<and> i < 2 ^ 64 then Some (word_of_int i) else None) | _ \<Rightarrow> None)"

definition get_str :: "json \<Rightarrow> string \<Rightarrow> header_error + string" where
  "get_str v k =
     (case json_get v k of
        None \<Rightarrow> Inl (HeaderMissing k)
      | Some x \<Rightarrow> (case as_str x of None \<Rightarrow> Inl (HeaderMissing k) | Some s \<Rightarrow> Inr s))"

definition get_fixed :: "wire_codec \<Rightarrow> json \<Rightarrow> string \<Rightarrow> usize \<Rightarrow> header_error + bytes" where
  "get_fixed w v k n =
     (case get_str v k of
        Inl e \<Rightarrow> Inl e
      | Inr s \<Rightarrow>
          (case wc_hex_decode w (trim_0x s) of
             None \<Rightarrow> Inl (HeaderHex k)
           | Some raw \<Rightarrow> if length raw \<noteq> n then Inl (HeaderLength k n (length raw)) else Inr raw))"

definition bind_sum :: "'e + 'a \<Rightarrow> ('a \<Rightarrow> 'e + 'b) \<Rightarrow> 'e + 'b" where
  "bind_sum r f = (case r of Inl e \<Rightarrow> Inl e | Inr x \<Rightarrow> f x)"

definition presented_decode :: "wire_codec \<Rightarrow> string \<Rightarrow> header_error + presented_challenge" where
  "presented_decode w raw =
     (case b64_decode w (str_trim raw) of
        None \<Rightarrow> Inl HeaderBase64
      | Some bs \<Rightarrow>
          (case json_parse w bs of
             None \<Rightarrow> Inl HeaderJson
           | Some v \<Rightarrow>
               bind_sum (get_fixed w v ''account'' 20) (\<lambda>account.
               bind_sum (get_fixed w v ''batch'' 32) (\<lambda>batch.
               bind_sum (get_fixed w v ''nonce'' 32) (\<lambda>nonce.
               bind_sum (get_fixed w v ''sig'' 65) (\<lambda>sig.
               bind_sum (case json_get v ''expiry'' of
                           None \<Rightarrow> Inl (HeaderMissing ''expiry'')
                         | Some x \<Rightarrow> (case as_u64 x of None \<Rightarrow> Inl (HeaderMissing ''expiry'') | Some e \<Rightarrow> Inr e)) (\<lambda>expiry.
               bind_sum (get_str v ''max_outstanding_plur'') (\<lambda>cap_text.
               bind_sum (case uint_from_str cap_text of None \<Rightarrow> Inl HeaderCap | Some n \<Rightarrow> Inr n) (\<lambda>cap.
               bind_sum (get_str v ''origin'') (\<lambda>origin.
                 Inr \<lparr>pr_fields = \<lparr>cf_account = account, cf_batch = batch, cf_origin = origin,
                        cf_expiry_unix = expiry, cf_cap_plur = cap\<rparr>,
                      pr_nonce = nonce, pr_sig = sig\<rparr>))))))))))"

definition challenge_header_json :: "wire_codec \<Rightarrow> issued_challenge \<Rightarrow> bytes \<Rightarrow> json" where
  "challenge_header_json w i sig =
     (let f = ic_fields i in
      JObject
        [(''nonce'', JString (''0x'' @ wc_hex_encode w (ic_nonce i))),
         (''account'', JString (''0x'' @ wc_hex_encode w (cf_account f))),
         (''batch'', JString (''0x'' @ wc_hex_encode w (cf_batch f))),
         (''origin'', JString (cf_origin f)),
         (''expiry'', JWord (cf_expiry_unix f)),
         (''max_outstanding_plur'', JString (uint_to_string (cf_cap_plur f))),
         (''sig'', JString (''0x'' @ wc_hex_encode w sig))])"

definition encode_challenge_header :: "wire_codec \<Rightarrow> issued_challenge \<Rightarrow> bytes \<Rightarrow> string" where
  "encode_challenge_header w i sig = b64_encode w (json_print w (challenge_header_json w i sig))"

section \<open>The MAC binds what it was issued for\<close>

lemma fold_or_zero: "foldl (\<lambda>acc (x, y). acc OR (x XOR y)) a ps = 0 \<longleftrightarrow> a = 0 \<and> (\<forall>(x, y) \<in> set ps. x = y)"
  for a :: byte
  by (induction ps arbitrary: a) (auto simp: or_eq_0_iff xor_eq_0_iff)

lemma constant_time_eq_iff: "constant_time_eq a b \<longleftrightarrow> a = b"
proof -
  have "(\<forall>(x, y) \<in> set (zip a b). x = y) \<longleftrightarrow> a = b" if "length a = length b"
    using that by (induction a b rule: list_induct2) auto
  then show ?thesis by (auto simp: constant_time_eq_def fold_or_zero)
qed

definition fields_sized :: "challenge_fields \<Rightarrow> bool" where
  "fields_sized f = (length (cf_account f) = 20 \<and> length (cf_batch f) = 32)"

lemma preimage_injective:
  assumes "preimage f = Inr p" "preimage g = Inr p" "fields_sized f" "fields_sized g"
  shows "f = g"
proof -
  have eq: "cf_account f @ cf_batch f @ to_be_bytes 8 (cf_expiry_unix f) @ to_be_bytes 16 (cf_cap_plur f) @
      to_be_bytes 2 (of_nat (length (cf_origin f)) :: u16) @ as_bytes (cf_origin f) =
    cf_account g @ cf_batch g @ to_be_bytes 8 (cf_expiry_unix g) @ to_be_bytes 16 (cf_cap_plur g) @
      to_be_bytes 2 (of_nat (length (cf_origin g)) :: u16) @ as_bytes (cf_origin g)"
    using assms(1,2) by (auto simp: preimage_def Let_def split: if_splits)
  have "to_be_bytes 8 a = to_be_bytes 8 b \<Longrightarrow> a = b" for a b :: u64
    by (rule to_be_bytes_inject [of 8]) simp_all
  moreover have "to_be_bytes 16 a = to_be_bytes 16 b \<Longrightarrow> a = b" for a b :: u128
    by (rule to_be_bytes_inject [of 16]) simp_all
  ultimately have "cf_account f = cf_account g \<and> cf_batch f = cf_batch g \<and>
      cf_expiry_unix f = cf_expiry_unix g \<and> cf_cap_plur f = cf_cap_plur g \<and> cf_origin f = cf_origin g"
    using eq assms(3,4) by (auto simp: fields_sized_def)
  then show ?thesis by (cases f; cases g) simp
qed

lemma verify_ok_iff:
  "verify c sec f n now origins = Inr () \<longleftrightarrow>
     cf_origin f \<in> set origins \<and> nonce c sec f = Inr n \<and> now \<le> cf_expiry_unix f"
  by (auto simp: verify_def constant_time_eq_iff list_ex_iff split: sum.split)

text \<open>
  C20. A nonce is good for one capability only: if the relay issued it for the fields \<^term>\<open>g\<close> and
  it verifies with the fields \<^term>\<open>f\<close>, then, unless Keccak collides on the two byte strings the MAC
  covers, \<^term>\<open>f\<close> is \<^term>\<open>g\<close> (same account, batch, credit line, expiry and origin), the origin is
  one of the relay's own and the challenge has not expired.
\<close>

theorem challenge_binds_fields:
  assumes "nonce c sec g = Inr n" "verify c sec f n now origins = Inr ()"
    and "fields_sized f" "fields_sized g"
    and "\<And>p q. preimage f = Inr p \<Longrightarrow> preimage g = Inr q \<Longrightarrow> keccak c (sec @ p) = keccak c (sec @ q) \<Longrightarrow> p = q"
  shows "f = g \<and> cf_origin g \<in> set origins \<and> now \<le> cf_expiry_unix g"
proof -
  have v: "cf_origin f \<in> set origins" "nonce c sec f = Inr n" "now \<le> cf_expiry_unix f"
    using assms(2) by (auto simp: verify_ok_iff)
  obtain p q where p: "preimage f = Inr p" and q: "preimage g = Inr q"
    and "keccak c (sec @ p) = keccak c (sec @ q)"
    using v(2) assms(1) by (auto simp: nonce_def split: sum.splits)
  then have "p = q" using assms(5) by blast
  then have "f = g" using preimage_injective p q assms(3,4) by blast
  then show ?thesis using v by simp
qed

definition demo_fields :: challenge_fields where
  "demo_fields = \<lparr>cf_account = replicate 20 1, cf_batch = replicate 32 2, cf_origin = ''relay.example'',
     cf_expiry_unix = 1300, cf_cap_plur = 5\<rparr>"

text \<open>A hash that keeps its input, for the witnesses.\<close>

definition id_crypto :: crypto where
  "id_crypto = toy_crypto\<lparr>keccak := (\<lambda>b. b)\<rparr>"

theorem challenge_binds_fields_witness:
  "\<exists>n. nonce id_crypto (replicate 32 9) demo_fields = Inr n \<and>
     verify id_crypto (replicate 32 9) demo_fields n 1000 [''relay.example''] = Inr () \<and>
     (1000 :: u64) \<le> cf_expiry_unix demo_fields"
proof -
  obtain n where n: "nonce id_crypto (replicate 32 9) demo_fields = Inr n"
    by (simp add: nonce_def preimage_def demo_fields_def)
  have v: "verify id_crypto (replicate 32 9) demo_fields n 1000 [''relay.example''] = Inr ()"
    unfolding verify_ok_iff by (simp add: n) (simp add: demo_fields_def)
  show ?thesis
    using challenge_binds_fields [OF n v] n v by (simp add: fields_sized_def demo_fields_def id_crypto_def)
qed

section \<open>The header round trip\<close>

definition codec_ok :: "wire_codec \<Rightarrow> bool" where
  "codec_ok w =
     ((\<forall>b. wc_hex_decode w (wc_hex_encode w b) = Some b \<and> CHR ''x'' \<notin> set (wc_hex_encode w b)) \<and>
      (\<forall>s. b64_decode w (b64_encode w s) = Some (as_bytes s) \<and> (\<forall>ch \<in> set (b64_encode w s). \<not> is_space ch)))"

lemma get_fixed_hex:
  assumes "codec_ok w" "json_get v k = Some (JString (''0x'' @ wc_hex_encode w b))" "length b = n"
  shows "get_fixed w v k n = Inr b"
  using assms by (simp add: get_fixed_def get_str_def as_str_def codec_ok_def trim_0x_id)

lemma as_u64_JWord: "as_u64 (JWord w) = Some w" for w :: u64
  using uint_bounded [of w] by (simp add: as_u64_def)

text \<open>
  C38. What a client puts in the challenge header is what the relay reads back: decoding the
  encoded header gives the issued fields, the nonce and the signature.
\<close>

theorem challenge_header_roundtrip:
  assumes "codec_ok w" "fields_sized (ic_fields i)" "length (ic_nonce i) = 32" "length sig = 65"
    and "json_parse w (as_bytes (json_print w (challenge_header_json w i sig))) = Some (challenge_header_json w i sig)"
  shows "presented_decode w (encode_challenge_header w i sig) =
    Inr \<lparr>pr_fields = ic_fields i, pr_nonce = ic_nonce i, pr_sig = sig\<rparr>"
proof -
  let ?v = "challenge_header_json w i sig"
  have b64: "b64_decode w (str_trim (encode_challenge_header w i sig)) = Some (as_bytes (json_print w ?v))"
    using assms(1) by (simp add: encode_challenge_header_def codec_ok_def str_trim_id)
  have get: "json_get ?v ''account'' = Some (JString (''0x'' @ wc_hex_encode w (cf_account (ic_fields i))))"
    "json_get ?v ''batch'' = Some (JString (''0x'' @ wc_hex_encode w (cf_batch (ic_fields i))))"
    "json_get ?v ''nonce'' = Some (JString (''0x'' @ wc_hex_encode w (ic_nonce i)))"
    "json_get ?v ''sig'' = Some (JString (''0x'' @ wc_hex_encode w sig))"
    "json_get ?v ''expiry'' = Some (JWord (cf_expiry_unix (ic_fields i)))"
    "json_get ?v ''max_outstanding_plur'' = Some (JString (uint_to_string (cf_cap_plur (ic_fields i))))"
    "json_get ?v ''origin'' = Some (JString (cf_origin (ic_fields i)))"
    by (simp_all add: challenge_header_json_def json_get_def Let_def)
  have "get_fixed w ?v ''account'' 20 = Inr (cf_account (ic_fields i))"
    "get_fixed w ?v ''batch'' 32 = Inr (cf_batch (ic_fields i))"
    "get_fixed w ?v ''nonce'' 32 = Inr (ic_nonce i)" "get_fixed w ?v ''sig'' 65 = Inr sig"
    using get assms(1-4) by (auto intro!: get_fixed_hex simp: fields_sized_def)
  then show ?thesis
    by (simp add: presented_decode_def b64 assms(5) get get_str_def as_str_def as_u64_JWord bind_sum_def)
qed

text \<open>A codec for the witnesses: hex in place of base64, and JSON text for one value.\<close>

definition hex_codec :: "json \<Rightarrow> wire_codec" where
  "hex_codec j =
     \<lparr>wc_hex_encode = plain_hex_encode, wc_hex_decode = plain_hex_decode,
      b64_encode = (\<lambda>s. plain_hex_encode (as_bytes s)), b64_decode = plain_hex_decode,
      json_print = (\<lambda>_. ''doc''), json_parse = (\<lambda>_. Some j)\<rparr>"

lemma nibble_char_not_space: "n < 16 \<Longrightarrow> \<not> is_space (nibble_char n)"
proof -
  assume "n < 16"
  then have "(48 :: nat) \<le> of_char (nibble_char n)" by (simp add: nibble_char_def)
  moreover have "is_space ch \<Longrightarrow> of_char ch < (48 :: nat)" for ch by (auto simp: is_space_def)
  ultimately show "\<not> is_space (nibble_char n)" by fastforce
qed

lemma plain_hex_no_space: "ch \<in> set (plain_hex_encode b) \<Longrightarrow> \<not> is_space ch"
proof (induction b)
  case (Cons x b)
  have "unat x < 256" using unat_lt [of x] by simp
  then have "unat x div 16 < 16" "unat x mod 16 < 16" by auto
  then show ?case using Cons by (auto simp: nibble_char_not_space)
qed simp

lemma codec_ok_hex_codec: "codec_ok (hex_codec j)"
  by (simp add: codec_ok_def hex_codec_def plain_hex_roundtrip plain_hex_no_x plain_hex_no_space)

theorem challenge_header_roundtrip_witness:
  "\<exists>w. presented_decode w (encode_challenge_header w
       \<lparr>ic_fields = demo_fields, ic_nonce = replicate 32 3\<rparr> (replicate 65 4)) =
     Inr \<lparr>pr_fields = demo_fields, pr_nonce = replicate 32 3, pr_sig = replicate 65 4\<rparr>"
proof -
  let ?i = "\<lparr>ic_fields = demo_fields, ic_nonce = replicate 32 3\<rparr>"
  define j where "j = challenge_header_json (hex_codec (JInt 0)) ?i (replicate 65 4)"
  have same: "challenge_header_json (hex_codec j) ?i (replicate 65 4) = j"
    unfolding j_def by (simp add: challenge_header_json_def hex_codec_def)
  have "json_parse (hex_codec j) (as_bytes (json_print (hex_codec j) j)) = Some j"
    by (simp add: hex_codec_def)
  moreover have "fields_sized demo_fields" by (simp add: fields_sized_def demo_fields_def)
  ultimately have "presented_decode (hex_codec j) (encode_challenge_header (hex_codec j) ?i (replicate 65 4)) =
      Inr \<lparr>pr_fields = ic_fields ?i, pr_nonce = ic_nonce ?i, pr_sig = replicate 65 4\<rparr>"
    by (intro challenge_header_roundtrip codec_ok_hex_codec) (simp_all add: same)
  then show ?thesis by (intro exI [of _ "hex_codec j"]) simp
qed

end
