(* ===== verification/Swap.thy ===== *)
theory Swap
  imports Challenge
begin

text \<open>
  The cheque messages of \<^verbatim>\<open>src/protocols/swap.rs\<close>: the hand-written JSON a cheque travels in, its
  decoder with the scan for the bare cumulative number, and the settlement rates a peer sends in
  its stream headers. The libp2p streams the messages go over are not modelled. Hex, base64 and
  the JSON parser are fields of \<^verbatim>\<open>wire_codec\<close>; base64 of raw bytes is the field of
  \<^verbatim>\<open>cheque_codec\<close>.
\<close>

section \<open>Data\<close>

record cheque_codec = wire_codec +
  sig_encode :: "bytes \<Rightarrow> string"
  sig_decode :: "string \<Rightarrow> bytes option"

datatype swap_error =
    NoExchangeRate
  | SwapJson string
  | Overflow

record signed_cheque =
  sc_chequebook :: bytes
  sc_beneficiary :: bytes
  sc_cumulative_payout :: "256 word"
  sc_signature :: bytes

record settlement_rates =
  exchange_rate :: "256 word"
  deduction :: "256 word"

definition MAX_CHEQUE_JSON :: usize where "MAX_CHEQUE_JSON = 4096"

section \<open>Settlement rates\<close>

definition from_be_slice :: "bytes \<Rightarrow> 256 word" where
  "from_be_slice bs = of_nat (be_nat bs)"

fun read_rates :: "(string \<times> bytes) list \<Rightarrow> 256 word option \<Rightarrow> 256 word option
    \<Rightarrow> swap_error + 256 word option \<times> 256 word option" where
  "read_rates [] ex de = Inr (ex, de)"
| "read_rates ((k, v) # hs) ex de =
     (if k = ''exchange'' then
        (if length v > 32 then Inl Overflow else read_rates hs (Some (from_be_slice v)) de)
      else if k = ''deduction'' then
        (if length v > 32 then Inl Overflow else read_rates hs ex (Some (from_be_slice v)))
      else read_rates hs ex de)"

definition read_settlement_rates :: "(string \<times> bytes) list \<Rightarrow> swap_error + settlement_rates" where
  "read_settlement_rates hs =
     (case read_rates hs None None of
        Inl e \<Rightarrow> Inl e
      | Inr (ex, de) \<Rightarrow>
          (case ex of
             None \<Rightarrow> Inl NoExchangeRate
           | Some rate \<Rightarrow>
               Inr \<lparr>exchange_rate = rate, deduction = (case de of None \<Rightarrow> 0 | Some d \<Rightarrow> d)\<rparr>))"

section \<open>Encoding\<close>

definition encode_signed_cheque_json :: "'z cheque_codec_scheme \<Rightarrow> bytes \<Rightarrow> bytes \<Rightarrow> 256 word \<Rightarrow> bytes \<Rightarrow> bytes" where
  "encode_signed_cheque_json w chequebook beneficiary payout sig =
     as_bytes
       (''{'' @ [CHR 0x22] @ ''Chequebook'' @ [CHR 0x22] @ '':'' @ [CHR 0x22] @ ''0x'' @ wc_hex_encode w chequebook @
        [CHR 0x22] @ '','' @ [CHR 0x22] @ ''Beneficiary'' @ [CHR 0x22] @ '':'' @ [CHR 0x22] @ ''0x'' @
        wc_hex_encode w beneficiary @ [CHR 0x22] @ '','' @ [CHR 0x22] @ ''CumulativePayout'' @ [CHR 0x22] @ '':'' @
        uint_to_string payout @ '','' @ [CHR 0x22] @ ''Signature'' @ [CHR 0x22] @ '':'' @ [CHR 0x22] @
        sig_encode w sig @ [CHR 0x22] @ ''}'')"

section \<open>Decoding\<close>

definition CUMULATIVE_KEY :: bytes where
  "CUMULATIVE_KEY = as_bytes ([CHR 0x22] @ ''CumulativePayout'' @ [CHR 0x22])"

definition is_ascii_whitespace :: "byte \<Rightarrow> bool" where
  "is_ascii_whitespace b = (b = 0x20 \<or> b = 0x09 \<or> b = 0x0A \<or> b = 0x0C \<or> b = 0x0D)"

definition is_ascii_digit :: "byte \<Rightarrow> bool" where
  "is_ascii_digit b = (0x30 \<le> b \<and> b \<le> 0x39)"

text \<open>The positions at which a window of the input equals the key.\<close>

definition key_hits :: "bytes \<Rightarrow> usize list" where
  "key_hits bs =
     filter (\<lambda>i. take (length CUMULATIVE_KEY) (drop i bs) = CUMULATIVE_KEY)
       [0..<length bs + 1 - length CUMULATIVE_KEY]"

definition digits_value :: "bytes \<Rightarrow> nat" where
  "digits_value ds = foldl (\<lambda>n d. n * 10 + unat (d - 0x30)) 0 ds"

definition extract_cumulative :: "bytes \<Rightarrow> swap_error + 256 word" where
  "extract_cumulative bs =
     (case key_hits bs of
        [] \<Rightarrow> Inl (SwapJson ''missing CumulativePayout'')
      | _ # _ # _ \<Rightarrow> Inl (SwapJson ''duplicate CumulativePayout key'')
      | [i] \<Rightarrow>
          let rest = dropWhile is_ascii_whitespace (drop (i + length CUMULATIVE_KEY) bs) in
          if rest = [] \<or> hd rest \<noteq> 0x3A then Inl (SwapJson ''CumulativePayout is not a field'')
          else
            let rest = dropWhile is_ascii_whitespace (tl rest);
                digits = takeWhile is_ascii_digit rest;
                after = dropWhile is_ascii_digit rest
            in if digits = [] then Inl (SwapJson ''CumulativePayout must be a bare JSON integer'')
               else if after \<noteq> [] \<and>
                  \<not> (hd after = 0x2C \<or> hd after = 0x7D \<or> is_ascii_whitespace (hd after))
               then Inl (SwapJson ''CumulativePayout must be a bare JSON integer'')
               else if digits_value digits < 2 ^ 256 then Inr (of_nat (digits_value digits))
               else Inl (SwapJson ''CumulativePayout overflows u256''))"

fun trim_0X :: "string \<Rightarrow> string" where
  "trim_0X (c # d # s) = (if c = CHR ''0'' \<and> d = CHR ''X'' then trim_0X s else c # d # s)"
| "trim_0X s = s"

definition json_address :: "'z cheque_codec_scheme \<Rightarrow> json \<Rightarrow> string \<Rightarrow> swap_error + bytes" where
  "json_address w v field =
     (case Option.bind (json_get v field) as_str of
        None \<Rightarrow> Inl (SwapJson (''missing '' @ field))
      | Some s \<Rightarrow>
          (case wc_hex_decode w (trim_0X (trim_0x s)) of
             None \<Rightarrow> Inl (SwapJson (field @ '' not hex''))
           | Some raw \<Rightarrow>
               if length raw \<noteq> 20 then Inl (SwapJson (field @ '' must be 20 bytes'')) else Inr raw))"

definition decode_signed_cheque_json :: "'z cheque_codec_scheme \<Rightarrow> bytes \<Rightarrow> swap_error + signed_cheque" where
  "decode_signed_cheque_json w bs =
     (if length bs > MAX_CHEQUE_JSON then Inl (SwapJson ''cheque body too large'')
      else
        case json_parse w bs of
          None \<Rightarrow> Inl (SwapJson ''parse'')
        | Some v \<Rightarrow>
            bind_sum (json_address w v ''Chequebook'') (\<lambda>chequebook.
            bind_sum (json_address w v ''Beneficiary'') (\<lambda>beneficiary.
            bind_sum (extract_cumulative bs) (\<lambda>cumulative.
            bind_sum (case Option.bind (json_get v ''Signature'') as_str of
                        None \<Rightarrow> Inl (SwapJson ''missing Signature'')
                      | Some s \<Rightarrow>
                          (case sig_decode w s of
                             None \<Rightarrow> Inl (SwapJson ''Signature base64'')
                           | Some sig \<Rightarrow> Inr sig)) (\<lambda>sig.
            case check_canonical_signature sig of
              Inl _ \<Rightarrow> Inl (SwapJson ''signature'')
            | Inr _ \<Rightarrow>
                Inr \<lparr>sc_chequebook = chequebook, sc_beneficiary = beneficiary,
                     sc_cumulative_payout = cumulative, sc_signature = sig\<rparr>)))))"

end
