(* ===== verification/Pushframe.thy ===== *)
theory Pushframe
  imports Interfaces
begin

text \<open>
  The push-frame wire codec, \<^verbatim>\<open>src/pushframe.rs\<close>: frames of address, stamp, a two-byte length and
  the wire chunk, concatenated into the body of a push request.
\<close>

section \<open>Frames\<close>

definition STAMP_LEN :: usize where "STAMP_LEN = 113"
definition MAX_WIRE_LEN :: usize where "MAX_WIRE_LEN = 4104"
definition HEADER_LEN :: usize where "HEADER_LEN = 32 + STAMP_LEN + 2"
definition MAX_FRAME_LEN :: usize where "MAX_FRAME_LEN = HEADER_LEN + MAX_WIRE_LEN"

record stamped_chunk =
  addr :: bytes
  wire :: bytes
  stamp :: bytes

datatype frame_error =
    Truncated usize
  | WireTooLong usize
  | TooManyFrames usize usize

definition encode_frame :: "bytes \<Rightarrow> stamped_chunk \<Rightarrow> bytes" where
  "encode_frame out c =
     out @ addr c @ stamp c @ to_le_bytes 2 (of_nat (length (wire c)) :: u16) @ wire c"

definition encode_batch :: "stamped_chunk list \<Rightarrow> bytes" where
  "encode_batch cs = foldl encode_frame [] cs"

text \<open>One iteration of the decoding loop: the chunk and the length of its frame.\<close>

definition decode_frame :: "bytes \<Rightarrow> usize \<Rightarrow> frame_error + stamped_chunk \<times> usize" where
  "decode_frame buf consumed =
     (if length buf < HEADER_LEN then Inl (Truncated consumed)
      else
        let a = take 32 buf;
            s = take STAMP_LEN (drop 32 buf);
            wire_len = unat (from_le_bytes [buf ! (32 + STAMP_LEN), buf ! (32 + STAMP_LEN + 1)] :: u16)
        in if wire_len > MAX_WIRE_LEN then Inl (WireTooLong wire_len)
           else
             let frame_len = HEADER_LEN + wire_len in
             if length buf < frame_len then Inl (Truncated consumed)
             else Inr (\<lparr>addr = a, wire = take wire_len (drop HEADER_LEN buf), stamp = s\<rparr>, frame_len))"

function decode_loop :: "bytes \<Rightarrow> usize \<Rightarrow> stamped_chunk list \<Rightarrow> usize \<Rightarrow> frame_error + stamped_chunk list" where
  "decode_loop buf max_frames out consumed =
     (if buf = [] then Inr out
      else if length out \<ge> max_frames then Inl (TooManyFrames (length out + 1) max_frames)
      else
        case decode_frame buf consumed of
          Inl e \<Rightarrow> Inl e
        | Inr (c, frame_len) \<Rightarrow> decode_loop (drop frame_len buf) max_frames (out @ [c]) (consumed + frame_len))"
  by pat_completeness auto
termination
  by (relation "measure (\<lambda>(buf, _, _, _). length buf)")
    (auto simp: decode_frame_def Let_def HEADER_LEN_def split: if_splits)

declare decode_loop.simps [simp del]

definition decode_batch :: "bytes \<Rightarrow> usize \<Rightarrow> frame_error + stamped_chunk list" where
  "decode_batch buf max_frames = decode_loop buf max_frames [] 0"

section \<open>The codec is exact\<close>

definition chunk_ok :: "stamped_chunk \<Rightarrow> bool" where
  "chunk_ok c = (length (addr c) = 32 \<and> length (stamp c) = STAMP_LEN \<and> length (wire c) \<le> MAX_WIRE_LEN)"

definition frame :: "stamped_chunk \<Rightarrow> bytes" where
  "frame c = encode_frame [] c"

lemmas frame_consts = STAMP_LEN_def MAX_WIRE_LEN_def HEADER_LEN_def MAX_FRAME_LEN_def

lemma frame_eq: "frame c = addr c @ stamp c @ to_le_bytes 2 (of_nat (length (wire c)) :: u16) @ wire c"
  by (simp add: frame_def encode_frame_def)

lemma encode_batch_concat: "encode_batch cs = concat (map frame cs)"
proof -
  have "foldl encode_frame out cs = out @ concat (map frame cs)" for out
    by (induction cs arbitrary: out) (simp_all add: frame_eq encode_frame_def)
  then show ?thesis by (simp add: encode_batch_def)
qed

lemma length_frame: "chunk_ok c \<Longrightarrow> length (frame c) = HEADER_LEN + length (wire c)"
  by (simp add: frame_eq chunk_ok_def frame_consts)

lemma two_bytes: "length bs = 2 \<Longrightarrow> [bs ! 0, bs ! 1] = bs"
  by (cases bs; cases "tl bs") auto

lemma le16_roundtrip: "n < 65536 \<Longrightarrow> unat (from_le_bytes (to_le_bytes 2 (of_nat n :: u16)) :: u16) = n"
  by (simp add: from_le_bytes_def to_le_bytes_def le_nat_nat_le unat_of_nat take_bit_eq_mod)

lemma decode_frame_frame:
  assumes "chunk_ok c"
  shows "decode_frame (frame c @ rest) consumed = Inr (c, HEADER_LEN + length (wire c))"
proof -
  let ?len = "to_le_bytes 2 (of_nat (length (wire c)) :: u16)"
  have sz: "length (addr c) = 32" "length (stamp c) = 113" "length (wire c) \<le> 4104"
    using assms by (simp_all add: chunk_ok_def frame_consts)
  have len: "[(frame c @ rest) ! 145, (frame c @ rest) ! 146] = ?len"
    using two_bytes [of ?len] sz by (simp add: frame_eq nth_append)
  have parts: "take 32 (frame c @ rest) = addr c" "take 113 (drop 32 (frame c @ rest)) = stamp c"
    "take (length (wire c)) (drop 147 (frame c @ rest)) = wire c" "length (frame c @ rest) \<ge> 147 + length (wire c)"
    using sz by (simp_all add: frame_eq)
  show ?thesis
    using sz parts len le16_roundtrip [of "length (wire c)"]
    by (simp add: decode_frame_def frame_consts Let_def)
qed

lemma le16_bytes: "to_le_bytes 2 (of_nat (unat (from_le_bytes [a, b] :: u16)) :: u16) = [a, b]"
proof -
  have "le_nat [a, b] < 65536" using le_nat_bound [of "[a, b]"] by simp
  then have "unat (of_nat (le_nat [a, b]) :: u16) = le_nat [a, b]"
    by (simp add: unat_of_nat take_bit_eq_mod del: le_nat.simps)
  then show ?thesis
    using nat_le_le_nat [of "[a, b]"]
    by (simp add: to_le_bytes_def from_le_bytes_def numeral_2_eq_2 del: le_nat.simps nat_le.simps)
qed

lemma take_drop_split: "take b (drop a xs) @ drop (a + b) xs = drop a xs"
  by (metis add.commute append_take_drop_id drop_drop)

lemma decode_frame_inverse:
  assumes "decode_frame buf k = Inr (c, n)"
  shows "chunk_ok c \<and> n = HEADER_LEN + length (wire c) \<and> buf = frame c @ drop n buf"
proof -
  let ?wl = "unat (from_le_bytes [buf ! 145, buf ! 146] :: u16)"
  have d: "147 + ?wl \<le> length buf" "?wl \<le> 4104" "n = 147 + ?wl"
    "c = \<lparr>addr = take 32 buf, wire = take ?wl (drop 147 buf), stamp = take 113 (drop 32 buf)\<rparr>"
    using assms by (auto simp: decode_frame_def frame_consts Let_def split: if_splits)
  have wl: "length (wire c) = ?wl" using d by simp
  have min: "length (take ?wl (drop 147 buf)) = ?wl" using d(1) by simp
  have mid: "take 2 (drop 145 buf) = [buf ! 145, buf ! 146]"
    using d(1) by (simp add: take_Suc_conv_app_nth numeral_2_eq_2 nth_drop)
  have "take 113 (drop 32 buf) @ drop 145 buf = drop 32 buf" "take 2 (drop 145 buf) @ drop 147 buf = drop 145 buf"
    "take ?wl (drop 147 buf) @ drop n buf = drop 147 buf"
    using take_drop_split [of 113 32 buf] take_drop_split [of 2 145 buf] take_drop_split [of ?wl 147 buf] d(3)
    by simp_all
  then have "buf = take 32 buf @ take 113 (drop 32 buf) @ take 2 (drop 145 buf) @ take ?wl (drop 147 buf) @ drop n buf"
    by simp
  also have "\<dots> = frame c @ drop n buf"
    using d(4) mid le16_bytes [of "buf ! 145" "buf ! 146"] min
    by (simp add: frame_eq del: length_take length_drop)
  finally show ?thesis using d by (simp add: chunk_ok_def frame_consts)
qed

interpretation frames: prefix_codec chunk_ok frame
  "\<lambda>buf. case decode_frame buf 0 of Inl _ \<Rightarrow> None | Inr (c, n) \<Rightarrow> Some (c, drop n buf)"
proof
  fix x :: stamped_chunk and bs rest :: bytes
  show "chunk_ok x \<Longrightarrow>
      (case decode_frame (frame x @ rest) 0 of Inl _ \<Rightarrow> None | Inr (c, n) \<Rightarrow> Some (c, drop n (frame x @ rest))) =
      Some (x, rest)"
    by (simp add: decode_frame_frame length_frame)
  show "(case decode_frame bs 0 of Inl _ \<Rightarrow> None | Inr (c, n) \<Rightarrow> Some (c, drop n bs)) = Some (x, rest) \<Longrightarrow>
      chunk_ok x \<and> bs = frame x @ rest"
    using decode_frame_inverse by (auto split: sum.splits)
  show "chunk_ok x \<Longrightarrow> frame x \<noteq> []"
    using length_frame [of x] by (auto simp: HEADER_LEN_def)
qed

lemma decode_loop_exact:
  "length out \<le> m \<Longrightarrow> decode_loop buf m out k = Inr res \<longleftrightarrow>
     (\<exists>cs. res = out @ cs \<and> buf = concat (map frame cs) \<and> list_all chunk_ok cs \<and> length res \<le> m)"
proof (induction buf m out k arbitrary: res rule: decode_loop.induct)
  case (1 buf m out k)
  show ?case
  proof (cases "buf = []")
    case True
    have "concat (map frame cs) \<noteq> []" if "list_all chunk_ok cs" "cs \<noteq> []" for cs
      using that frames.enc_not_Nil by (cases cs) auto
    then show ?thesis using True "1.prems" by (subst decode_loop.simps) fastforce
  next
    case nonempty: False
    then have cons: "\<exists>c cs'. cs = c # cs'" if "buf = concat (map frame cs)" for cs
      using that by (cases cs) auto
    show ?thesis
    proof (cases "length out \<ge> m")
      case True
      then show ?thesis using nonempty cons by (subst decode_loop.simps) fastforce
    next
      case room: False
      show ?thesis
      proof (cases "decode_frame buf k")
        case (Inl e)
        have "buf \<noteq> frame c @ rest" if "chunk_ok c" for c rest
          using Inl decode_frame_frame [OF that, of rest k] by auto
        then have "\<not> (\<exists>cs. buf = concat (map frame cs) \<and> list_all chunk_ok cs)"
          using cons by fastforce
        then show ?thesis using Inl nonempty room by (subst decode_loop.simps) auto
      next
        case (Inr p)
        obtain c n where p: "p = (c, n)" by (cases p)
        have inv: "chunk_ok c" "buf = frame c @ drop n buf"
          using decode_frame_inverse Inr p by auto
        have "decode_loop buf m out k = decode_loop (drop n buf) m (out @ [c]) (k + n)"
          using Inr p nonempty room by (subst decode_loop.simps) simp
        also have "\<dots> = Inr res \<longleftrightarrow> (\<exists>cs. res = (out @ [c]) @ cs \<and> drop n buf = concat (map frame cs) \<and>
            list_all chunk_ok cs \<and> length res \<le> m)"
          using "1.IH" [OF nonempty _ Inr p [symmetric]] room by simp
        also have "\<dots> \<longleftrightarrow> (\<exists>cs. res = out @ cs \<and> buf = concat (map frame cs) \<and> list_all chunk_ok cs \<and> length res \<le> m)"
        proof
          assume "\<exists>cs. res = (out @ [c]) @ cs \<and> drop n buf = concat (map frame cs) \<and> list_all chunk_ok cs \<and> length res \<le> m"
          then obtain cs where "res = (out @ [c]) @ cs" "drop n buf = concat (map frame cs)"
            "list_all chunk_ok cs" "length res \<le> m" by blast
          then show "\<exists>cs. res = out @ cs \<and> buf = concat (map frame cs) \<and> list_all chunk_ok cs \<and> length res \<le> m"
            using inv by (intro exI [of _ "c # cs"]) simp
        next
          assume "\<exists>cs. res = out @ cs \<and> buf = concat (map frame cs) \<and> list_all chunk_ok cs \<and> length res \<le> m"
          then obtain c' cs where cs: "res = out @ c' # cs" "buf = frame c' @ concat (map frame cs)"
            "chunk_ok c'" "list_all chunk_ok cs" "length res \<le> m"
            using cons by fastforce
          then have "c' = c \<and> concat (map frame cs) = drop n buf"
            using frames.enc_inject [OF cs(3) inv(1)] inv(2) by metis
          then show "\<exists>cs. res = (out @ [c]) @ cs \<and> drop n buf = concat (map frame cs) \<and> list_all chunk_ok cs \<and> length res \<le> m"
            using cs by auto
        qed
        finally show ?thesis .
      qed
    qed
  qed
qed

text \<open>
  C22. Decoding a push body is the exact inverse of encoding a batch: it succeeds with the chunks
  \<^term>\<open>cs\<close> if and only if the body is the encoding of \<^term>\<open>cs\<close>, every chunk is well-formed and
  there are no more than the allowed number; so a body has one reading, and nothing that is not an
  encoding is accepted.
\<close>

theorem decode_batch_exact:
  "decode_batch buf m = Inr cs \<longleftrightarrow> buf = encode_batch cs \<and> list_all chunk_ok cs \<and> length cs \<le> m"
  unfolding decode_batch_def encode_batch_concat using decode_loop_exact [of "[]" m buf 0 cs] by auto

lemma sum_frame_lengths:
  "list_all chunk_ok cs \<Longrightarrow> length (encode_batch cs) = (\<Sum>c \<leftarrow> cs. HEADER_LEN + length (wire c))"
  unfolding encode_batch_concat by (induction cs) (simp_all add: length_frame)

lemma encode_batch_inject:
  "list_all chunk_ok cs \<Longrightarrow> list_all chunk_ok ds \<Longrightarrow> encode_batch cs = encode_batch ds \<Longrightarrow> cs = ds"
  unfolding encode_batch_concat by (rule frames.concat_inject)

end
