(* ===== verification/Metered.thy ===== *)
theory Metered
  imports Meter Caches Limiters Swap
begin

text \<open>
  Metered relay mode, \<^verbatim>\<open>src/metered.rs\<close>: the shared state of the metered endpoints and their
  logic. Locks are the sequential order of the calls. Third-party code is in the fields of a
  \<^verbatim>\<open>relay_env\<close>; answers of the chain RPC are arguments, given with the clock readings around them.
\<close>

section \<open>State\<close>

record relay_env =
  env_crypto :: crypto
  env_codec :: cheque_codec
  env_serde :: serde
  env_fl :: "real \<Rightarrow> real"

record meter_config =
  origins :: "string list"
  beneficiary :: bytes
  chain_id :: u64
  factory :: bytes
  params :: params
  hard_mode :: bool

record metered =
  cfg :: meter_config
  mt_ledger :: ledger
  challenge_limit :: inbound_limiter
  account_limit :: inbound_limiter
  deployed :: "(bytes, bool) fifo_cache"
  cb_state :: "(bytes, chequebook_state) fifo_cache"

record verified_challenge =
  vc_account :: bytes
  vc_batch :: bytes
  vc_cap_plur :: u128

definition MAX_LIVE_RESERVATIONS :: usize where "MAX_LIVE_RESERVATIONS = 4096"

definition metered_new :: "meter_config \<Rightarrow> ledger \<Rightarrow> metered" where
  "metered_new c l =
     \<lparr>cfg = c, mt_ledger = l, challenge_limit = il_new 5 40 8192, account_limit = il_new 20 120 8192,
      deployed = fifo_new DEPLOYED_CACHE_CAP, cb_state = fifo_new STATE_CACHE_CAP\<rparr>"

section \<open>Chain reads behind caches\<close>

text \<open>
  \<^verbatim>\<open>t0\<close> is the clock at the cache lookup and \<^verbatim>\<open>t1\<close> the clock after the RPC, when the answer is stored.
\<close>

definition metered_chequebook_state ::
    "(bytes \<Rightarrow> instant \<Rightarrow> string + chequebook_state) \<Rightarrow> instant \<Rightarrow> instant \<Rightarrow> metered \<Rightarrow> bytes
      \<Rightarrow> (string + chequebook_state) \<times> metered" where
  "metered_chequebook_state rpc t0 t1 m chequebook =
     (case state_get t0 chequebook (cb_state m) of
        Some hit \<Rightarrow> (Inr hit, m)
      | None \<Rightarrow>
          (case rpc chequebook t1 of
             Inl e \<Rightarrow> (Inl e, m)
           | Inr st \<Rightarrow> (Inr st, m\<lparr>cb_state := fifo_insert chequebook (st, t1) (cb_state m)\<rparr>)))"

definition invalidate_chequebook :: "metered \<Rightarrow> bytes \<Rightarrow> metered" where
  "invalidate_chequebook m chequebook = m\<lparr>cb_state := fifo_remove chequebook (cb_state m)\<rparr>"

definition is_deployed ::
    "(bytes \<Rightarrow> instant \<Rightarrow> string + bool) \<Rightarrow> instant \<Rightarrow> instant \<Rightarrow> metered \<Rightarrow> bytes \<Rightarrow> (string + bool) \<times> metered" where
  "is_deployed rpc t0 t1 m chequebook =
     (case deployed_get t0 chequebook (deployed m) of
        Some hit \<Rightarrow> (Inr hit, m)
      | None \<Rightarrow>
          (case rpc chequebook t1 of
             Inl e \<Rightarrow> (Inl e, m)
           | Inr ok \<Rightarrow> (Inr ok, m\<lparr>deployed := fifo_insert chequebook (ok, t1) (deployed m)\<rparr>)))"

section \<open>Limits\<close>

definition allow_challenge :: "relay_env \<Rightarrow> instant \<Rightarrow> metered \<Rightarrow> string \<Rightarrow> bool \<times> metered" where
  "allow_challenge env now m ip =
     (case allow_at (env_fl env) (challenge_limit m) (as_bytes ip) now of
        (ok, l) \<Rightarrow> (ok, m\<lparr>challenge_limit := l\<rparr>))"

definition allow_account :: "relay_env \<Rightarrow> instant \<Rightarrow> metered \<Rightarrow> bytes \<Rightarrow> bool \<times> metered" where
  "allow_account env now m account =
     (case allow_at (env_fl env) (account_limit m) account now of
        (ok, l) \<Rightarrow> (ok, m\<lparr>account_limit := l\<rparr>))"

section \<open>Challenges\<close>

text \<open>A zero credit ratio makes the division panic: the value \<^term>\<open>None\<close>.\<close>

definition issue :: "relay_env \<Rightarrow> metered \<Rightarrow> bytes \<Rightarrow> bytes \<Rightarrow> u128 \<Rightarrow> string \<Rightarrow> u64
    \<Rightarrow> (challenge_error + issued_challenge) option" where
  "issue env m account batch remaining origin now =
     (case credit_line (params (cfg m)) remaining of
        None \<Rightarrow> None
      | Some line \<Rightarrow>
          let fields = \<lparr>cf_account = account, cf_batch = batch, cf_origin = origin,
                cf_expiry_unix = saturating_add now CHALLENGE_TTL_SECS, cf_cap_plur = line\<rparr>
          in Some (case nonce (env_crypto env) (secret (mt_ledger m)) fields of
                     Inl e \<Rightarrow> Inl e
                   | Inr n \<Rightarrow> Inr \<lparr>ic_fields = fields, ic_nonce = n\<rparr>))"

datatype verify_error =
    HeaderTooLarge usize
  | BadHeader header_error
  | BadChallenge challenge_error
  | BadSignature signer_error
  | WrongSigner bytes bytes

definition verify_header :: "relay_env \<Rightarrow> metered \<Rightarrow> string \<Rightarrow> u64 \<Rightarrow> verify_error + verified_challenge" where
  "verify_header env m raw now =
     (if length raw > MAX_CHALLENGE_HEADER then Inl (HeaderTooLarge (length raw))
      else
        case presented_decode (wire_codec.truncate (env_codec env)) raw of
          Inl e \<Rightarrow> Inl (BadHeader e)
        | Inr presented \<Rightarrow>
            (let f = pr_fields presented in
             case verify (env_crypto env) (secret (mt_ledger m)) f (pr_nonce presented) now (origins (cfg m)) of
               Inl e \<Rightarrow> Inl (BadChallenge e)
             | Inr _ \<Rightarrow>
                 (let sol = PushChallenge (pr_nonce presented) (cf_origin f) (cf_account f) (cf_batch f)
                        (ucast (cf_expiry_unix f)) in
                  case recover_push_challenge (env_crypto env) sol (chain_id (cfg m)) (pr_sig presented) of
                    Inl e \<Rightarrow> Inl (BadSignature e)
                  | Inr signer \<Rightarrow>
                      if signer \<noteq> cf_account f then Inl (WrongSigner signer (cf_account f))
                      else Inr \<lparr>vc_account = cf_account f, vc_batch = cf_batch f, vc_cap_plur = cf_cap_plur f\<rparr>)))"

section \<open>Reservations and credit\<close>

definition reserve_for_body :: "metered \<Rightarrow> bytes \<Rightarrow> u64 \<Rightarrow> u128 \<Rightarrow> admission \<times> metered" where
  "reserve_for_body m account content_length line =
     (let amount = price_bytes (params (cfg m)) content_length in
      case reserve (mt_ledger m) account amount line of
        (adm, l) \<Rightarrow> (adm, m\<lparr>mt_ledger := l\<rparr>))"

definition shed_reservations :: "metered \<Rightarrow> bool" where
  "shed_reservations m = (live_reservations (mt_ledger m) \<ge> MAX_LIVE_RESERVATIONS)"

definition metered_credit ::
    "serde \<Rightarrow> io \<Rightarrow> metered \<Rightarrow> fs \<Rightarrow> bytes \<Rightarrow> bytes \<Rightarrow> u128 \<Rightarrow> bytes \<Rightarrow> (ledger_error + u128) \<times> metered \<times> fs" where
  "metered_credit ser io m fs account chequebook cumulative sig =
     (let l = mt_ledger m;
          prev_owed = owed l account;
          prev_held = held_cheque l account chequebook;
          bound = had_binding l chequebook
      in case credit l account chequebook cumulative sig of
           (Inl e, l1) \<Rightarrow> (Inl e, m\<lparr>mt_ledger := l1\<rparr>, fs)
         | (Inr accepted, l1) \<Rightarrow>
             (case persist ser io l1 fs of
                (Inl e, fs1) \<Rightarrow>
                  (Inl (Store e), m\<lparr>mt_ledger := rollback_credit l1 account chequebook prev_owed prev_held bound\<rparr>, fs1)
              | (Inr _, fs1) \<Rightarrow> (Inr accepted, m\<lparr>mt_ledger := l1\<rparr>, fs1)))"

section \<open>Crediting is a transaction\<close>

lemma metered_credit_transact:
  "metered_credit ser io m fs a cb cum sig = (res, m', fs') \<Longrightarrow>
     cheque_update.transact (\<lambda>l. fst (persist ser io l fs)) Store (a, cb, cum, sig) (mt_ledger m) = (res, mt_ledger m') \<and>
     m' = m\<lparr>mt_ledger := mt_ledger m'\<rparr>"
  by (auto simp: metered_credit_def cheque_update.transact_def Let_def split: prod.splits sum.splits)

lemma persist_failed_keeps_file:
  "persist ser io l fs = (Inl e, fs') \<Longrightarrow> path l = Some p \<Longrightarrow> with_extension_tmp p \<noteq> p \<Longrightarrow>
     hm_get fs' p = hm_get fs p"
  by (auto simp: persist_def Let_def split: option.splits if_splits)

lemma credit_path: "path (snd (credit l a cb cum sig)) = path l"
proof -
  have "path (ledger_run l [Credit a cb cum sig]) = path l" by simp
  then show ?thesis by (simp add: ledger_run_def)
qed

text \<open>
  C25. Applying a cheque is all or nothing, also when the disk fails: an error leaves every reading
  of the ledger and the ledger file as they were, and an acceptance leaves the credited ledger in
  memory and exactly that ledger in the file.
\<close>

theorem credit_all_or_nothing:
  assumes "ledger_inv (mt_ledger m)" "path (mt_ledger m) = Some p" "with_extension_tmp p \<noteq> p"
    and "metered_credit ser io m fs a cb cum sig = (res, m', fs')"
  shows "case res of
      Inl e \<Rightarrow> ledger_eqv (mt_ledger m') (mt_ledger m) \<and> hm_get fs' p = hm_get fs p
    | Inr d \<Rightarrow> credit (mt_ledger m) a cb cum sig = (Inr d, mt_ledger m') \<and>
        json_encode ser (to_on_disk ser (mt_ledger m')) \<noteq> None \<and>
        hm_get fs' p = json_encode ser (to_on_disk ser (mt_ledger m'))"
proof (cases res)
  case (Inl e)
  have "ledger_eqv (mt_ledger m') (mt_ledger m)"
    using cheque_update.transact_all_or_nothing [OF assms(1), of "\<lambda>l. fst (persist ser io l fs)" Store "(a, cb, cum, sig)"]
      metered_credit_transact [OF assms(4)] Inl by auto
  moreover have "hm_get fs' p = hm_get fs p"
    using assms(2-4) Inl credit_path [of "mt_ledger m" a cb cum sig] persist_failed_keeps_file
    by (auto simp: metered_credit_def Let_def split: prod.splits sum.splits)
  ultimately show ?thesis by (simp add: Inl)
next
  case (Inr d)
  then obtain u where c: "credit (mt_ledger m) a cb cum sig = (Inr d, mt_ledger m')"
    and u: "persist ser io (mt_ledger m') fs = (Inr u, fs')"
    using assms(4) by (auto simp: metered_credit_def Let_def split: prod.splits sum.splits)
  have "path (mt_ledger m') = Some p" using credit_path [of "mt_ledger m" a cb cum sig] c assms(2) by simp
  then show ?thesis using c persist_ok_contents [OF u] by (auto simp: Inr)
qed

definition demo_config :: meter_config where
  "demo_config = \<lparr>origins = [''relay.example''], beneficiary = replicate 20 5, chain_id = 100,
     factory = replicate 20 6, params = default_params, hard_mode = True\<rparr>"

definition demo_metered :: metered where
  "demo_metered = metered_new demo_config demo_ledger_before"

theorem credit_all_or_nothing_witness:
  "\<exists>m' fs'. metered_credit (demo_serde demo_ledger) demo_io demo_metered [] demo_account demo_chequebook 300
       (replicate 65 7) = (Inr 300, m', fs') \<and>
     hm_get fs' ''s/ledger.json'' = json_encode (demo_serde demo_ledger) (to_on_disk (demo_serde demo_ledger) (mt_ledger m'))"
proof -
  have l: "mt_ledger demo_metered = demo_ledger_before" by (simp add: demo_metered_def metered_new_def)
  have p: "path (mt_ledger demo_metered) = Some ''s/ledger.json''" by (simp add: l demo_ledger_before_def)
  have tmp: "with_extension_tmp ''s/ledger.json'' \<noteq> ''s/ledger.json''" by code_simp
  obtain m' fs' where c: "metered_credit (demo_serde demo_ledger) demo_io demo_metered [] demo_account demo_chequebook 300
       (replicate 65 7) = (Inr 300, m', fs')"
    by (simp add: metered_credit_def l demo_credit_replay persist_demo)
  show ?thesis
    using credit_all_or_nothing [OF _ p tmp c] c demo_before_inv by (auto simp: l)
qed

section \<open>Cached chain reads are recent\<close>

datatype state_call =
    ReadState instant instant bytes
  | Invalidate bytes

fun state_calls :: "(bytes \<Rightarrow> instant \<Rightarrow> string + chequebook_state) \<Rightarrow> metered \<Rightarrow> state_call list
    \<Rightarrow> (instant \<times> instant \<times> bytes \<times> chequebook_state) list" where
  "state_calls rpc m [] = []"
| "state_calls rpc m (ReadState t0 t1 cb # cs) =
     (case metered_chequebook_state rpc t0 t1 m cb of
        (Inl e, m') \<Rightarrow> state_calls rpc m' cs
      | (Inr st, m') \<Rightarrow> (t0, t1, cb, st) # state_calls rpc m' cs)"
| "state_calls rpc m (Invalidate cb # cs) = state_calls rpc (invalidate_chequebook m cb) cs"

text \<open>The clock does not go back along the calls, nor during one.\<close>

fun clocked :: "instant \<Rightarrow> state_call list \<Rightarrow> bool" where
  "clocked t [] = True"
| "clocked t (ReadState t0 t1 cb # cs) = (t \<le> t0 \<and> t0 \<le> t1 \<and> clocked t1 cs)"
| "clocked t (Invalidate cb # cs) = clocked t cs"

abbreviation answered :: "(bytes \<Rightarrow> instant \<Rightarrow> string + chequebook_state) \<Rightarrow> bytes \<Rightarrow> instant \<Rightarrow> chequebook_state option" where
  "answered rpc cb t \<equiv> (case rpc cb t of Inl _ \<Rightarrow> None | Inr st \<Rightarrow> Some st)"

lemma answered_Some: "answered rpc cb t = Some st \<longleftrightarrow> rpc cb t = Inr st"
  by (auto split: sum.split)

lemma state_calls_recent:
  assumes "fifo_inv (cb_state m)" "state_cache.backed (answered rpc) t (cb_state m)" "clocked t cs"
    and "(t0, t1, cb, st) \<in> set (state_calls rpc m cs)"
  shows "\<exists>ts. rpc cb ts = Inr st \<and> (ts = t1 \<or> ts \<le> t0 \<and> t0 - ts < STATE_TTL)"
  using assms
proof (induction rpc m cs arbitrary: t rule: state_calls.induct)
  case (2 rpc m u0 u1 c cs)
  have le: "t \<le> u0" "u0 \<le> u1" "clocked u1 cs" using "2.prems"(3) by auto
  have b0: "state_cache.backed (answered rpc) u0 (cb_state m)"
    by (rule state_cache.backed_mono [OF "2.prems"(2) le(1)])
  have b1: "state_cache.backed (answered rpc) u1 (cb_state m)"
    by (rule state_cache.backed_mono [OF b0 le(2)])
  show ?case
  proof (cases "state_get u0 c (cb_state m)")
    case (Some hit)
    then have call: "metered_chequebook_state rpc u0 u1 m c = (Inr hit, m)"
      by (simp add: metered_chequebook_state_def)
    have "\<exists>ts \<le> u0. answered rpc c ts = Some hit \<and> u0 - ts < STATE_TTL"
      by (rule state_cache.lookup_recent [OF b0 Some])
    then have "\<exists>ts. rpc c ts = Inr hit \<and> ts \<le> u0 \<and> u0 - ts < STATE_TTL"
      by (auto simp: answered_Some)
    moreover have "(t0, t1, cb, st) = (u0, u1, c, hit) \<or> (t0, t1, cb, st) \<in> set (state_calls rpc m cs)"
      using "2.prems"(4) by (simp add: call)
    ultimately show ?thesis using "2.IH"(2) [OF call [symmetric] refl "2.prems"(1) b1 le(3)] by auto
  next
    case None
    show ?thesis
    proof (cases "rpc c u1")
      case (Inl e)
      then have call: "metered_chequebook_state rpc u0 u1 m c = (Inl e, m)"
        by (simp add: metered_chequebook_state_def None)
      then show ?thesis using "2.IH"(1) [OF call [symmetric] refl "2.prems"(1) b1 le(3)] "2.prems"(4) by simp
    next
      case (Inr v)
      let ?m = "m\<lparr>cb_state := fifo_insert c (v, u1) (cb_state m)\<rparr>"
      have call: "metered_chequebook_state rpc u0 u1 m c = (Inr v, ?m)"
        by (simp add: metered_chequebook_state_def None Inr)
      have "fifo_inv (cb_state ?m)" by (simp add: fifo_inv_insert "2.prems"(1))
      moreover have "state_cache.backed (answered rpc) u1 (cb_state ?m)"
        using state_cache.backed_ins [OF "2.prems"(1) b1, of c v] by (simp add: Inr)
      moreover have "(t0, t1, cb, st) = (u0, u1, c, v) \<or> (t0, t1, cb, st) \<in> set (state_calls rpc ?m cs)"
        using "2.prems"(4) by (simp add: call)
      ultimately show ?thesis using "2.IH"(2) [OF call [symmetric] refl _ _ le(3)] Inr by auto
    qed
  qed
next
  case (3 rpc m c cs)
  have "state_cache.backed (answered rpc) t (cb_state (invalidate_chequebook m c))"
    using "3.prems"(2) by (auto simp: state_cache.backed_def invalidate_chequebook_def fifo_entry_remove)
  then show ?case
    using "3.IH" [of t] "3.prems" by (simp add: invalidate_chequebook_def fifo_inv_remove)
qed simp

text \<open>
  A chequebook reading the relay acts on is either fresh from the chain or was read less than
  thirty seconds before it was asked for, through any sequence of reads, evictions and
  invalidations.
\<close>

lemma chequebook_reads_recent:
  assumes "clocked 0 cs"
    and "(t0, t1, cb, st) \<in> set (state_calls rpc (metered_new c l) cs)"
  shows "\<exists>ts. rpc cb ts = Inr st \<and> (ts = t1 \<or> ts \<le> t0 \<and> t0 - ts < 30 * 1000000000)"
proof -
  have "fifo_inv (cb_state (metered_new c l))" by (simp add: metered_new_def fifo_inv_new)
  moreover have "state_cache.backed (answered rpc) 0 (cb_state (metered_new c l))"
    by (simp add: state_cache.backed_def metered_new_def fifo_entry_def fifo_new_def)
  ultimately show ?thesis
    using state_calls_recent assms by (simp add: STATE_TTL_def)
qed

definition demo_rpc :: "bytes \<Rightarrow> instant \<Rightarrow> string + chequebook_state" where
  "demo_rpc cb t = Inr \<lparr>cs_issuer = cb, cs_liquid_for_us = of_nat t, cs_paid_out_to_us = 0, cs_bounced = False\<rparr>"

lemma chequebook_reads_recent_example:
  "clocked 0 [ReadState 5 9 [1], ReadState 20 30 [1]] \<and>
   (\<exists>ts. demo_rpc [1] ts = demo_rpc [1] 9 \<and> (ts = 30 \<or> ts \<le> 20 \<and> 20 - ts < 30 * 1000000000))"
proof -
  have c: "clocked 0 [ReadState 5 9 [1], ReadState 20 30 [1]]" by simp
  define st where "st = \<lparr>cs_issuer = [1], cs_liquid_for_us = 9, cs_paid_out_to_us = 0, cs_bounced = False\<rparr>"
  have r: "demo_rpc [1] 9 = Inr st" by (simp add: demo_rpc_def st_def)
  have "(20, 30, [1], st) \<in> set (state_calls demo_rpc (metered_new demo_config (ephemeral [])) [ReadState 5 9 [1], ReadState 20 30 [1]])"
    by (simp add: metered_chequebook_state_def state_get_def metered_new_def fifo_new_def fifo_insert_def
        r Let_def STATE_CACHE_CAP_def STATE_TTL_def)
  then show ?thesis using chequebook_reads_recent [OF c] c r by simp
qed

end
