(* ===== verification/Stamp.thy ===== *)
theory Stamp
  imports Signer
begin

text \<open>
  Postage stamp validation, \<^verbatim>\<open>src/stamp.rs\<close>: the 113-byte layout, the digest the stamp signs and
  the recovery of the signer.
\<close>

section \<open>Data and operations\<close>

definition STAMP_SIZE :: usize where "STAMP_SIZE = 32 + 8 + 8 + 65"

datatype stamp_error =
    BadLength usize
  | BadSignature string
  | ZeroSigner

record valid_stamp =
  vs_batch_id :: bytes
  vs_index :: bytes
  vs_timestamp :: bytes
  vs_signature :: bytes
  vs_signer :: bytes

definition recover_secp256k1_address :: "crypto \<Rightarrow> bytes \<Rightarrow> bytes \<Rightarrow> stamp_error + bytes" where
  "recover_secp256k1_address c digest sig =
     (if length sig \<noteq> 65 then Inl (BadSignature ''length'')
      else
        let v = (if sig ! 64 \<ge> 27 then sig ! 64 - 27 else sig ! 64) in
        if v > 1 then Inl (BadSignature ''v'')
        else
          case k256_recover c digest (take 64 sig) v of
            None \<Rightarrow> Inl (BadSignature ''recover'')
          | Some point \<Rightarrow> Inr (point_address c point))"

definition stamp_digest :: "crypto \<Rightarrow> bytes \<Rightarrow> bytes \<Rightarrow> bytes \<Rightarrow> bytes \<Rightarrow> bytes" where
  "stamp_digest c chunk_addr batch_id index timestamp =
     keccak c (25 # as_bytes ''Ethereum Signed Message:'' @ [10] @ as_bytes ''32'' @
       keccak c (chunk_addr @ batch_id @ index @ timestamp))"

definition validate_stamp :: "crypto \<Rightarrow> bytes \<Rightarrow> bytes \<Rightarrow> stamp_error + valid_stamp" where
  "validate_stamp c chunk_addr st =
     (if length st \<noteq> STAMP_SIZE then Inl (BadLength (length st))
      else
        let batch_id = take 32 st;
            index = take 8 (drop 32 st);
            timestamp = take 8 (drop 40 st);
            signature = take 65 (drop 48 st)
        in case recover_secp256k1_address c (stamp_digest c chunk_addr batch_id index timestamp) signature of
             Inl e \<Rightarrow> Inl e
           | Inr signer \<Rightarrow>
               if signer = replicate 20 0 then Inl ZeroSigner
               else Inr \<lparr>vs_batch_id = batch_id, vs_index = index, vs_timestamp = timestamp,
                         vs_signature = signature, vs_signer = signer\<rparr>)"

section \<open>The layout is a partition of the stamp\<close>

lemma validate_stamp_parts:
  assumes "validate_stamp c a st = Inr vs"
  shows "vs_batch_id vs @ vs_index vs @ vs_timestamp vs @ vs_signature vs = st"
    "length (vs_batch_id vs) = 32" "length (vs_index vs) = 8" "length (vs_timestamp vs) = 8"
    "length (vs_signature vs) = 65" "vs_signer vs \<noteq> replicate 20 0"
proof -
  have "length st = 113"
    using assms by (auto simp: validate_stamp_def STAMP_SIZE_def split: if_splits)
  moreover have "take 32 st @ take 8 (drop 32 st) @ take 8 (drop 40 st) @ drop 48 st = st"
  proof -
    have "take 8 (drop 40 st) @ drop 48 st = drop 40 st" "take 8 (drop 32 st) @ drop 40 st = drop 32 st"
      using append_take_drop_id [of 8 "drop 40 st"] append_take_drop_id [of 8 "drop 32 st"] by simp_all
    then show ?thesis by simp
  qed
  ultimately show "vs_batch_id vs @ vs_index vs @ vs_timestamp vs @ vs_signature vs = st"
    "length (vs_batch_id vs) = 32" "length (vs_index vs) = 8" "length (vs_timestamp vs) = 8"
    "length (vs_signature vs) = 65" "vs_signer vs \<noteq> replicate 20 0"
    using assms by (auto simp: validate_stamp_def Let_def split: if_splits sum.splits)
qed

end
