(* ===== verification/Relay.thy ===== *)
theory Relay
  imports Metered Stamp Pushframe "HOL-Library.Sublist"
begin

text \<open>
  The metered endpoints of the push relay, \<^verbatim>\<open>src/pusher.rs\<close>: admission of a push request before its
  body is read, the reservation guard with its commit and its release on drop, the admission loop
  over the frames of a body, and the challenge, payment and account endpoints. HTTP transport is
  not modelled: a request is its header values and its body, a response is a status and a JSON
  body, with fixed texts in place of formatted error messages. RPC answers are arguments.
\<close>

section \<open>Requests and responses\<close>

datatype resp = Resp nat json

definition json_line_response :: "nat \<Rightarrow> string \<Rightarrow> resp" where
  "json_line_response status message = Resp status (JObject [(''error'', JString message)])"

definition PUSH_BATCH_MAX :: usize where "PUSH_BATCH_MAX = 512"
definition PUSH_MAX_BODY :: usize where "PUSH_MAX_BODY = PUSH_BATCH_MAX * MAX_FRAME_LEN + 4096"
definition PUSH_MAX_BATCH_LOOKUPS :: usize where "PUSH_MAX_BATCH_LOOKUPS = 8"

definition full_post_kib :: u64 where
  "full_post_kib = of_nat ((PUSH_BATCH_MAX * MAX_FRAME_LEN + 1023) div 1024)"

definition parse_hex_array :: "(string \<Rightarrow> bytes option) \<Rightarrow> usize \<Rightarrow> string \<Rightarrow> string + bytes" where
  "parse_hex_array unhex n s =
     (case unhex (trim_0x s) of
        None \<Rightarrow> Inl ''hex''
      | Some raw \<Rightarrow> if length raw \<noteq> n then Inl ''length'' else Inr raw)"

fun split_on :: "char \<Rightarrow> string \<Rightarrow> string list" where
  "split_on c [] = [[]]"
| "split_on c (x # xs) =
     (if x = c then [] # split_on c xs
      else case split_on c xs of [] \<Rightarrow> [[x]] | s # ss \<Rightarrow> (x # s) # ss)"

fun split_once :: "char \<Rightarrow> string \<Rightarrow> (string \<times> string) option" where
  "split_once c [] = None"
| "split_once c (x # xs) =
     (if x = c then Some ([], xs) else map_option (\<lambda>(a, b). (x # a, b)) (split_once c xs))"

definition parse_query :: "string option \<Rightarrow> (string, string) hashmap" where
  "parse_query q =
     foldl (\<lambda>m kv. case split_once (CHR ''='') kv of None \<Rightarrow> m | Some (k, v) \<Rightarrow> hm_insert k v m)
       [] (split_on (CHR ''&'') (case q of None \<Rightarrow> [] | Some s \<Rightarrow> s))"

section \<open>Batch owners\<close>

record batch_info =
  bi_not_found :: bool
  bi_depth :: "8 word"
  bi_owner :: bytes

record chain_rpc =
  rpc_read_batch :: "string \<Rightarrow> string + batch_info"
  rpc_remaining_balance :: "string \<Rightarrow> string + 256 word"
  rpc_deployed :: "bytes \<Rightarrow> instant \<Rightarrow> string + bool"
  rpc_chequebook :: "bytes \<Rightarrow> instant \<Rightarrow> string + chequebook_state"

type_synonym owner_cache = "(string, owner_lookup) fifo_cache"

definition u128_of_u256 :: "256 word \<Rightarrow> u128" where
  "u128_of_u256 w = (if unat w < 2 ^ 128 then ucast w else - 1)"

definition depth_factor :: "8 word \<Rightarrow> u128" where
  "depth_factor d = (if unat d < 128 then push_bit (unat d) 1 else - 1)"

definition resolve_owner :: "chain_rpc \<Rightarrow> instant \<Rightarrow> owner_cache \<Rightarrow> usize \<Rightarrow> string
    \<Rightarrow> (string + bytes \<times> u128) \<times> owner_cache \<times> usize" where
  "resolve_owner rpc now cache lookups bid =
     (case owner_get now bid cache of
        Some (Owner o' v) \<Rightarrow> (Inr (o', v), cache, lookups)
      | Some (Rejected why) \<Rightarrow> (Inl why, cache, lookups)
      | None \<Rightarrow>
          if lookups = 0 then (Inl ''too many distinct batches in one request'', cache, lookups)
          else
            let lookups = lookups - 1 in
            case rpc_read_batch rpc bid of
              Inl e \<Rightarrow> (Inl e, cache, lookups)
            | Inr info \<Rightarrow>
                if bi_not_found info
                then (Inl ''not found'', fifo_insert bid (Rejected ''not found'', now) cache, lookups)
                else
                  case rpc_remaining_balance rpc bid of
                    Inl e \<Rightarrow> (Inl e, cache, lookups)
                  | Inr remaining \<Rightarrow>
                      if remaining = 0
                      then (Inl ''expired'', fifo_insert bid (Rejected ''expired'', now) cache, lookups)
                      else
                        let v = saturating_mul (u128_of_u256 remaining) (depth_factor (bi_depth info))
                        in (Inr (bi_owner info, v), fifo_insert bid (Owner (bi_owner info) v, now) cache, lookups))"

section \<open>Admission\<close>

record admitted =
  ad_account :: bytes
  ad_batch :: bytes
  ad_reserved_plur :: u128

definition payment_required :: "metered \<Rightarrow> admission \<Rightarrow> resp" where
  "payment_required m adm =
     Resp 402 (JObject
       [(''error'', JString ''payment required''),
        (''outstanding_plur'', JString (uint_to_string (adm_outstanding_plur adm))),
        (''max_outstanding_plur'', JString (uint_to_string (adm_cap_plur adm))),
        (''settle_every_plur'', JString (uint_to_string (settle_every_plur (params (cfg m)))))])"

text \<open>
  The header and the content length are the values that are present and printable. The result
  carries the new metered state, which changes on refusals too.
\<close>

definition admit_metered ::
    "relay_env \<Rightarrow> metered \<Rightarrow> string option \<Rightarrow> string option \<Rightarrow> u64 \<Rightarrow> instant \<Rightarrow> (resp + admitted option) \<times> metered" where
  "admit_metered env m header content_length now_unix now =
     (let raw = (case header of None \<Rightarrow> [] | Some h \<Rightarrow> h) in
      if raw = [] then
        (if hard_mode (cfg m) then (Inl (json_line_response 401 ''a challenge is required''), m)
         else (Inr None, m))
      else
        case verify_header env m raw now_unix of
          Inl e \<Rightarrow> (Inl (json_line_response 401 ''challenge''), m)
        | Inr v \<Rightarrow>
            (case allow_account env now m (vc_account v) of (ok, m1) \<Rightarrow>
               if \<not> ok then (Inl (json_line_response 429 ''slow down''), m1)
               else if shed_reservations m1
               then (Inl (json_line_response 503 ''too many accounts with live reservations''), m1)
               else
                 case Option.bind content_length (uint_from_str :: string \<Rightarrow> u64 option) of
                   None \<Rightarrow> (Inl (json_line_response 411 ''metered mode requires Content-Length''), m1)
                 | Some declared \<Rightarrow>
                     if unat declared > PUSH_MAX_BODY
                     then (Inl (json_line_response 413 ''body exceeds limit''), m1)
                     else
                       (case reserve_for_body m1 (vc_account v) declared (vc_cap_plur v) of (adm, m2) \<Rightarrow>
                          if adm_over_cap adm \<and> hard_mode (cfg m2)
                          then (Inl (payment_required m2 adm),
                                m2\<lparr>mt_ledger := release (mt_ledger m2) (vc_account v) (adm_reserved_plur adm)\<rparr>)
                          else (Inr (Some \<lparr>ad_account = vc_account v, ad_batch = vc_batch v,
                                  ad_reserved_plur = adm_reserved_plur adm\<rparr>), m2))))"

text \<open>Committing a guard; a failed write is logged and otherwise ignored.\<close>

definition admitted_commit :: "serde \<Rightarrow> io \<Rightarrow> admitted \<Rightarrow> u64 \<Rightarrow> metered \<Rightarrow> fs \<Rightarrow> metered \<times> fs" where
  "admitted_commit ser io g billable_bytes m fs =
     (let billed = price_bytes (params (cfg m)) billable_bytes;
          l = commit (mt_ledger m) (ad_account g) (ad_reserved_plur g) billed
      in (m\<lparr>mt_ledger := l\<rparr>, snd (persist ser io l fs)))"

definition admitted_drop :: "admitted \<Rightarrow> metered \<Rightarrow> metered" where
  "admitted_drop g m = m\<lparr>mt_ledger := release (mt_ledger m) (ad_account g) (ad_reserved_plur g)\<rparr>"

section \<open>The frames of a body\<close>

datatype ack =
    AckErr bytes string
  | AckDedup bytes

record push_acc =
  pa_accepted :: "stamped_chunk list"
  pa_batch_owner :: "(bytes \<times> u128) option"
  pa_batch_hex :: "string option"
  pa_tally :: post_tally
  pa_billable :: u64
  pa_batch_of :: "(bytes, bytes) hashmap"
  pa_budget :: usize
  pa_cache :: owner_cache
  pa_acks :: "ack list"
  pa_dedup_hits :: usize

definition push_acc_init :: "owner_cache \<Rightarrow> push_acc" where
  "push_acc_init cache =
     \<lparr>pa_accepted = [], pa_batch_owner = None, pa_batch_hex = None, pa_tally = [], pa_billable = 0,
      pa_batch_of = [], pa_budget = PUSH_MAX_BATCH_LOOKUPS, pa_cache = cache, pa_acks = [], pa_dedup_hits = 0\<rparr>"

abbreviation ack_err :: "push_acc \<Rightarrow> stamped_chunk \<Rightarrow> string \<Rightarrow> push_acc" where
  "ack_err acc c why \<equiv> acc\<lparr>pa_acks := pa_acks acc @ [AckErr (addr c) why]\<rparr>"

definition admit_frame :: "instant \<Rightarrow> recent_acks \<Rightarrow> bytes \<Rightarrow> bytes \<Rightarrow> u128 \<Rightarrow> push_acc \<Rightarrow> stamped_chunk \<Rightarrow> push_acc" where
  "admit_frame now recent own batch_id batch_value acc c =
     (let key = AccountBatch own batch_id;
          frame_bytes = of_nat (HEADER_LEN + length (wire c));
          acc1 = acc\<lparr>pa_tally := admit (pa_tally acc) key batch_value frame_bytes,
                     pa_billable := pa_billable acc + frame_bytes\<rparr>
      in if recent_contains now (addr c) batch_id recent then
           acc1\<lparr>pa_dedup_hits := pa_dedup_hits acc1 + 1,
                pa_tally := dedup (pa_tally acc1) key batch_value frame_bytes,
                pa_billable := saturating_sub (pa_billable acc1) frame_bytes,
                pa_acks := pa_acks acc1 @ [AckDedup (addr c)]\<rparr>
         else
           acc1\<lparr>pa_batch_of := hm_insert (addr c) batch_id (pa_batch_of acc1),
                pa_accepted := pa_accepted acc1 @ [c]\<rparr>)"

definition push_chunk :: "relay_env \<Rightarrow> chain_rpc \<Rightarrow> instant \<Rightarrow> recent_acks \<Rightarrow> admitted option
    \<Rightarrow> push_acc \<Rightarrow> stamped_chunk \<Rightarrow> push_acc" where
  "push_chunk env rpc now recent adm acc c =
     (case validate_stamp (env_crypto env) (addr c) (stamp c) of
        Inl e \<Rightarrow> ack_err acc c ''bad stamp''
      | Inr vs \<Rightarrow>
          let bid = wc_hex_encode (env_codec env) (vs_batch_id vs);
              resolved =
                (if pa_batch_hex acc = Some bid then (Inr (pa_batch_owner acc), acc)
                 else
                   case resolve_owner rpc now (pa_cache acc) (pa_budget acc) bid of
                     (Inr o', cache, lookups) \<Rightarrow>
                       (Inr (Some o'), acc\<lparr>pa_batch_hex := Some bid, pa_batch_owner := Some o',
                          pa_cache := cache, pa_budget := lookups\<rparr>)
                   | (Inl e, cache, lookups) \<Rightarrow> (Inl e, acc\<lparr>pa_cache := cache, pa_budget := lookups\<rparr>))
          in case resolved of
               (Inl e, acc1) \<Rightarrow> ack_err acc1 c e
             | (Inr None, acc1) \<Rightarrow> ack_err acc1 c ''batch owner unresolved''
             | (Inr (Some (own, batch_value)), acc1) \<Rightarrow>
                 if own \<noteq> vs_signer vs then ack_err acc1 c ''stamp signer is not the on-chain batch owner''
                 else if (case adm of None \<Rightarrow> False | Some g \<Rightarrow> vs_batch_id vs \<noteq> ad_batch g)
                 then ack_err acc1 c ''frame batch does not match the challenge''
                 else admit_frame now recent own (vs_batch_id vs) batch_value acc1 c)"

definition admit_frames :: "relay_env \<Rightarrow> chain_rpc \<Rightarrow> instant \<Rightarrow> recent_acks \<Rightarrow> admitted option \<Rightarrow> owner_cache
    \<Rightarrow> stamped_chunk list \<Rightarrow> push_acc" where
  "admit_frames env rpc now recent adm cache chunks =
     foldl (push_chunk env rpc now recent adm) (push_acc_init cache) chunks"

section \<open>The push handler\<close>

text \<open>How reading the body ended: its bytes, a size or transport error, or a timeout.\<close>

datatype body_read =
    Body bytes
  | ReadError
  | ReadTimeout

record relay =
  rl_metered :: metered
  rl_disk :: fs
  rl_meter :: meter
  rl_owner_cache :: owner_cache
  rl_recent :: recent_acks

text \<open>
  After admission: an early exit drops the guard, a decoded batch runs the admission loop, commits
  the guard and merges the tally. The chunks that remain go to the session pool, which is not
  modelled.
\<close>

definition push_body :: "relay_env \<Rightarrow> chain_rpc \<Rightarrow> io \<Rightarrow> instant \<Rightarrow> admitted option \<Rightarrow> body_read \<Rightarrow> relay
    \<Rightarrow> (resp + push_acc) \<times> relay" where
  "push_body env rpc io now adm body r =
     (let drop_guard = (case adm of None \<Rightarrow> r | Some g \<Rightarrow> r\<lparr>rl_metered := admitted_drop g (rl_metered r)\<rparr>) in
      case body of
        ReadError \<Rightarrow> (Inl (json_line_response 413 ''body exceeds limit or read error''), drop_guard)
      | ReadTimeout \<Rightarrow> (Inl (json_line_response 408 ''body read timed out''), drop_guard)
      | Body bs \<Rightarrow>
          if length bs > PUSH_MAX_BODY
          then (Inl (json_line_response 413 ''body exceeds limit or read error''), drop_guard)
          else
            case decode_batch bs PUSH_BATCH_MAX of
              Inl e \<Rightarrow> (Inl (json_line_response 400 ''frame decode''), drop_guard)
            | Inr chunks \<Rightarrow>
                if chunks = [] then (Inl (json_line_response 400 ''empty batch''), drop_guard)
                else
                  let acc = admit_frames env rpc now (rl_recent r) adm (rl_owner_cache r) chunks;
                      r1 = r\<lparr>rl_owner_cache := pa_cache acc\<rparr>;
                      r2 = (case adm of
                              None \<Rightarrow> r1
                            | Some g \<Rightarrow>
                                (case admitted_commit (env_serde env) io g (pa_billable acc) (rl_metered r1) (rl_disk r1) of
                                   (m, fs) \<Rightarrow> r1\<lparr>rl_metered := m, rl_disk := fs\<rparr>));
                      r3 = (if tally_is_empty (pa_tally acc) then r2
                            else r2\<lparr>rl_meter := merge now (rl_meter r2) (pa_tally acc)\<rparr>)
                  in (Inr acc, r3))"

section \<open>The challenge endpoint\<close>

definition challenge_response :: "relay_env \<Rightarrow> chain_rpc \<Rightarrow> string option \<Rightarrow> string \<Rightarrow> u64 \<Rightarrow> instant \<Rightarrow> relay
    \<Rightarrow> resp \<times> relay" where
  "challenge_response env rpc query ip now_unix now r =
     (case allow_challenge env now (rl_metered r) ip of (ok, m) \<Rightarrow>
        let r1 = r\<lparr>rl_metered := m\<rparr>;
            unhex = wc_hex_decode (env_codec env);
            q = parse_query query
        in if \<not> ok then (json_line_response 429 ''slow down'', r1)
           else
             case (hm_get q ''account'', hm_get q ''batch'') of
               (Some account_hex, Some batch_hex) \<Rightarrow>
                 (case parse_hex_array unhex 20 account_hex of
                    Inl e \<Rightarrow> (json_line_response 400 ''account'', r1)
                  | Inr account \<Rightarrow>
                      (case parse_hex_array unhex 32 batch_hex of
                         Inl e \<Rightarrow> (json_line_response 400 ''batch'', r1)
                       | Inr batch \<Rightarrow>
                           (case resolve_owner rpc now (rl_owner_cache r1) 1 (wc_hex_encode (env_codec env) batch) of
                              (Inl e, cache, _) \<Rightarrow> (json_line_response 400 e, r1\<lparr>rl_owner_cache := cache\<rparr>)
                            | (Inr (own, remaining), cache, _) \<Rightarrow>
                                let r2 = r1\<lparr>rl_owner_cache := cache\<rparr> in
                                if own \<noteq> account
                                then (json_line_response 403 ''account is not the on-chain owner of that batch'', r2)
                                else
                                  let origin = (case origins (cfg m) of [] \<Rightarrow> [] | o' # _ \<Rightarrow> o') in
                                  case issue env m account batch remaining origin now_unix of
                                    None \<Rightarrow> (json_line_response 500 ''panic'', r2)
                                  | Some (Inl e) \<Rightarrow> (json_line_response 500 ''challenge'', r2)
                                  | Some (Inr issued) \<Rightarrow>
                                      (Resp 200 (issued_to_json (wire_codec.truncate (env_codec env)) issued), r2))))
             | _ \<Rightarrow> (json_line_response 400 ''need account= and batch='', r1))"

section \<open>The payment endpoint\<close>

record pay_clock =
  pay_unix :: u64
  pay_now :: instant
  pay_after_deployed :: instant
  pay_before_state :: instant
  pay_after_state :: instant

definition read_body_limited :: "body_read \<Rightarrow> usize \<Rightarrow> resp + bytes" where
  "read_body_limited body n =
     (case body of
        Body bs \<Rightarrow> if length bs > n then Inl (json_line_response 413 ''body too large'') else Inr bs
      | ReadError \<Rightarrow> Inl (json_line_response 413 ''body exceeds limit or read error'')
      | ReadTimeout \<Rightarrow> Inl (json_line_response 408 ''body read timed out''))"

text \<open>The checks that cost nothing, in their order: what remains is the cheque and its cumulative.\<close>

definition pay_free_checks :: "relay_env \<Rightarrow> metered \<Rightarrow> verified_challenge \<Rightarrow> body_read \<Rightarrow> resp + signed_cheque \<times> u128" where
  "pay_free_checks env m v body =
     (if owed (mt_ledger m) (vc_account v) = 0 then Inl (json_line_response 400 ''nothing owed on this account'')
      else
        case read_body_limited body MAX_CHEQUE_JSON of
          Inl r \<Rightarrow> Inl r
        | Inr bs \<Rightarrow>
            (case decode_signed_cheque_json (env_codec env) bs of
               Inl e \<Rightarrow> Inl (json_line_response 400 ''cheque'')
             | Inr cheque \<Rightarrow>
                 if sc_beneficiary cheque \<noteq> beneficiary (cfg m)
                 then Inl (json_line_response 400 ''cheque is not made out to us'')
                 else if unat (sc_cumulative_payout cheque) \<ge> 2 ^ 128
                   \<or> (ucast (sc_cumulative_payout cheque) :: u128) > MAX_CUMULATIVE_PLUR
                 then Inl (json_line_response 400 ''cumulative payout is implausible'')
                 else
                   let cumulative = ucast (sc_cumulative_payout cheque) :: u128;
                       have' = last_cumulative (mt_ledger m) (vc_account v) (sc_chequebook cheque);
                       dust_floor = eff_min_cheque_plur (effective (params (cfg m)) (vc_cap_plur v))
                   in if cumulative \<le> have' then Inl (json_line_response 400 ''cumulative does not exceed the accepted'')
                      else if cumulative - have' < dust_floor then Inl (json_line_response 400 ''dust floor'')
                      else Inr (cheque, cumulative)))"

definition funding_check :: "chequebook_state \<Rightarrow> bytes \<Rightarrow> bytes \<Rightarrow> u128 \<Rightarrow> resp + unit" where
  "funding_check st recovered account cumulative =
     (if cs_bounced st then Inl (json_line_response 400 ''chequebook has bounced a cheque before'')
      else if cs_issuer st \<noteq> recovered then Inl (json_line_response 400 ''cheque was not signed by the issuer'')
      else if cs_issuer st \<noteq> account then Inl (json_line_response 400 ''chequebook issuer is not the account'')
      else if u128_of_u256 (cs_liquid_for_us st) < saturating_sub cumulative (u128_of_u256 (cs_paid_out_to_us st))
      then Inl (json_line_response 400 ''chequebook cannot cover this cheque'')
      else Inr ())"

definition pay_receipt :: "metered \<Rightarrow> bytes \<Rightarrow> u128 \<Rightarrow> u128 \<Rightarrow> resp" where
  "pay_receipt m account accepted cumulative =
     Resp 200 (JObject
       [(''accepted_plur'', JString (uint_to_string accepted)),
        (''cumulative'', JString (uint_to_string cumulative)),
        (''owed_plur'', JString (uint_to_string (owed (mt_ledger m) account))),
        (''outstanding_plur'', JString (uint_to_string (outstanding (mt_ledger m) account)))])"

text \<open>
  The result also says which cheque was credited, if one was: account, chequebook, cumulative and
  the amount.
\<close>

definition pay_response :: "relay_env \<Rightarrow> chain_rpc \<Rightarrow> io \<Rightarrow> pay_clock \<Rightarrow> string option \<Rightarrow> body_read \<Rightarrow> relay
    \<Rightarrow> resp \<times> (bytes \<times> bytes \<times> u128 \<times> u128) option \<times> relay" where
  "pay_response env rpc io clk header body r =
     (let m = rl_metered r;
          raw = (case header of None \<Rightarrow> [] | Some h \<Rightarrow> h)
      in case verify_header env m raw (pay_unix clk) of
           Inl e \<Rightarrow> (json_line_response 401 ''challenge'', None, r)
         | Inr v \<Rightarrow>
             (case allow_account env (pay_now clk) m (vc_account v) of (ok, m1) \<Rightarrow>
                if \<not> ok then (json_line_response 429 ''slow down'', None, r\<lparr>rl_metered := m1\<rparr>)
                else
                  case pay_free_checks env m1 v body of
                    Inl resp \<Rightarrow> (resp, None, r\<lparr>rl_metered := m1\<rparr>)
                  | Inr (cheque, cumulative) \<Rightarrow>
                      (case is_deployed (rpc_deployed rpc) (pay_now clk) (pay_after_deployed clk) m1 (sc_chequebook cheque) of
                         (Inl e, m2) \<Rightarrow> (json_line_response 502 e, None, r\<lparr>rl_metered := m2\<rparr>)
                       | (Inr False, m2) \<Rightarrow>
                           (json_line_response 400 ''chequebook was not deployed by the canonical factory'', None,
                            r\<lparr>rl_metered := m2\<rparr>)
                       | (Inr True, m2) \<Rightarrow>
                           (case recover_cheque_issuer (env_crypto env) (sc_chequebook cheque) (sc_beneficiary cheque)
                                   (sc_cumulative_payout cheque) (chain_id (cfg m2)) (sc_signature cheque) of
                              Inl e \<Rightarrow> (json_line_response 400 ''signature'', None, r\<lparr>rl_metered := m2\<rparr>)
                            | Inr recovered \<Rightarrow>
                                (case metered_chequebook_state (rpc_chequebook rpc) (pay_before_state clk)
                                        (pay_after_state clk) m2 (sc_chequebook cheque) of
                                   (Inl e, m3) \<Rightarrow> (json_line_response 502 e, None, r\<lparr>rl_metered := m3\<rparr>)
                                 | (Inr st, m3) \<Rightarrow>
                                     (case funding_check st recovered (vc_account v) cumulative of
                                        Inl resp \<Rightarrow> (resp, None, r\<lparr>rl_metered := m3\<rparr>)
                                      | Inr _ \<Rightarrow>
                                          (case metered_credit (env_serde env) io m3 (rl_disk r) (vc_account v)
                                                  (sc_chequebook cheque) cumulative (sc_signature cheque) of
                                             (Inr accepted, m4, fs) \<Rightarrow>
                                               (let m5 = invalidate_chequebook m4 (sc_chequebook cheque) in
                                                (pay_receipt m5 (vc_account v) accepted cumulative,
                                                 Some (vc_account v, sc_chequebook cheque, cumulative, accepted),
                                                 r\<lparr>rl_metered := m5, rl_disk := fs\<rparr>))
                                           | (Inl (Store e), m4, fs) \<Rightarrow>
                                               (json_line_response 503 ''ledger write failed; re-present the same cheque'',
                                                None, r\<lparr>rl_metered := m4, rl_disk := fs\<rparr>)
                                           | (Inl e, m4, fs) \<Rightarrow>
                                               (json_line_response 400 ''ledger'', None,
                                                r\<lparr>rl_metered := m4, rl_disk := fs\<rparr>))))))))"

section \<open>The account endpoint\<close>

definition account_response :: "relay_env \<Rightarrow> string option \<Rightarrow> u64 \<Rightarrow> metered \<Rightarrow> resp" where
  "account_response env header now_unix m =
     (case verify_header env m (case header of None \<Rightarrow> [] | Some h \<Rightarrow> h) now_unix of
        Inl e \<Rightarrow> json_line_response 401 ''challenge''
      | Inr v \<Rightarrow>
          (let l = mt_ledger m; a = vc_account v; eff = effective (params (cfg m)) (vc_cap_plur v) in
           Resp 200 (JObject
             [(''account'', JString (''0x'' @ wc_hex_encode (env_codec env) a)),
              (''owed_plur'', JString (uint_to_string (owed l a))),
              (''reserved_plur'', JString (uint_to_string (reserved l a))),
              (''outstanding_plur'', JString (uint_to_string (outstanding l a))),
              (''max_outstanding_plur'', JString (uint_to_string (vc_cap_plur v))),
              (''settle_every_plur'', JString (uint_to_string (eff_settle_every_plur eff))),
              (''min_cheque_plur'', JString (uint_to_string (eff_min_cheque_plur eff)))])))"

section \<open>Start-up\<close>

record meter_opts =
  mo_origins :: "string list"
  mo_beneficiary :: bytes
  mo_chain_id :: u64
  mo_params :: params
  mo_state_dir :: string
  mo_hard_mode :: bool

datatype boot_error =
    BadParams params_error
  | BadOrigins
  | NoFactory u64
  | NoBeneficiary
  | StateDir
  | LedgerStore store_error

text \<open>The vetted factories, as the bytes of their addresses.\<close>

definition GNOSIS_SWAP_FACTORY :: bytes where
  "GNOSIS_SWAP_FACTORY =
     [0xc2, 0xd5, 0xa5, 0x32, 0xcf, 0x69, 0xaa, 0x9a, 0x13, 0x78,
      0x73, 0x7d, 0x8c, 0xcd, 0xef, 0x88, 0x4b, 0x6e, 0x74, 0x20]"

definition SEPOLIA_SWAP_FACTORY :: bytes where
  "SEPOLIA_SWAP_FACTORY =
     [0x0f, 0xf0, 0x44, 0xf6, 0xbb, 0x4f, 0x68, 0x4a, 0x5a, 0x14,
      0x9b, 0x46, 0xd7, 0xec, 0x03, 0xea, 0x65, 0x9f, 0x98, 0xa1]"

definition swap_factory_for_chain :: "u64 \<Rightarrow> bytes option" where
  "swap_factory_for_chain chain =
     (if chain = 100 then Some GNOSIS_SWAP_FACTORY
      else if chain = 11155111 then Some SEPOLIA_SWAP_FACTORY
      else None)"

text \<open>\<^verbatim>\<open>mkdir\<close> says whether the state directory exists or could be created.\<close>

definition build_metered :: "relay_env \<Rightarrow> io \<Rightarrow> bool \<Rightarrow> bytes \<Rightarrow> meter_opts \<Rightarrow> fs
    \<Rightarrow> (boot_error + metered) \<times> fs" where
  "build_metered env io mkdir entropy o' fs =
     (case validate (mo_params o') of
        Inl e \<Rightarrow> (Inl (BadParams e), fs)
      | Inr _ \<Rightarrow>
          if mo_origins o' = [] \<or> list_ex (\<lambda>x. str_trim x = []) (mo_origins o') then (Inl BadOrigins, fs)
          else
            case swap_factory_for_chain (mo_chain_id o') of
              None \<Rightarrow> (Inl (NoFactory (mo_chain_id o')), fs)
            | Some fac \<Rightarrow>
                if mo_beneficiary o' = replicate 20 0 then (Inl NoBeneficiary, fs)
                else if \<not> mkdir then (Inl StateDir, fs)
                else
                  (case load_or_create (env_serde env) io entropy (mo_state_dir o' @ ''/ledger.json'') fs of
                     (Inl e, fs') \<Rightarrow> (Inl (LedgerStore e), fs')
                   | (Inr l, fs') \<Rightarrow>
                       (Inr (metered_new \<lparr>origins = mo_origins o', beneficiary = mo_beneficiary o',
                          chain_id = mo_chain_id o', factory = fac, params = mo_params o',
                          hard_mode = mo_hard_mode o'\<rparr> l), fs')))"

section \<open>Admission of frames\<close>

text \<open>The chain's word on a batch: it exists, has balance left, and this is its owner.\<close>

definition chain_owner :: "chain_rpc \<Rightarrow> string \<Rightarrow> bytes \<Rightarrow> bool" where
  "chain_owner rpc bid own =
     (\<exists>info remaining. rpc_read_batch rpc bid = Inr info \<and> \<not> bi_not_found info \<and> bi_owner info = own \<and>
        rpc_remaining_balance rpc bid = Inr remaining \<and> remaining \<noteq> 0)"

definition owner_cache_sound :: "chain_rpc \<Rightarrow> owner_cache \<Rightarrow> bool" where
  "owner_cache_sound rpc cache =
     (fifo_inv cache \<and> (\<forall>bid own v ts. fifo_entry cache bid = Some (Owner own v, ts) \<longrightarrow> chain_owner rpc bid own))"

lemma owner_cache_sound_insert:
  assumes s: "owner_cache_sound rpc cache" and e: "\<And>own v. e = Owner own v \<Longrightarrow> chain_owner rpc bid own"
  shows "owner_cache_sound rpc (fifo_insert bid (e, now) cache)"
proof -
  have i: "fifo_inv cache" using s by (simp add: owner_cache_sound_def)
  have "chain_owner rpc k own" if "fifo_entry (fifo_insert bid (e, now) cache) k = Some (Owner own v, ts)" for k own v ts
  proof (cases "k = bid")
    case True
    then show ?thesis using that bounded_cache.entry_same [OF fifo_bounded_cache i, of bid "(e, now)"] e by simp
  next
    case False
    then show ?thesis
      using that bounded_cache.entry_other [OF fifo_bounded_cache i False, of "(e, now)"] s
      unfolding owner_cache_sound_def by (metis insert_iff option.distinct(1) singletonD)
  qed
  then show ?thesis using bounded_cache.inv_ins [OF fifo_bounded_cache i] by (auto simp: owner_cache_sound_def)
qed

lemma resolve_owner_sound:
  assumes s: "owner_cache_sound rpc cache" and r: "resolve_owner rpc now cache n bid = (res, cache', n')"
  shows "owner_cache_sound rpc cache' \<and> (\<forall>own v. res = Inr (own, v) \<longrightarrow> chain_owner rpc bid own)"
proof (cases "owner_get now bid cache")
  case None
  then show ?thesis
    using r s by (auto simp: resolve_owner_def Let_def chain_owner_def intro!: owner_cache_sound_insert
        split: if_splits sum.splits)
next
  case (Some e)
  have "\<exists>ts. fifo_entry cache bid = Some (e, ts)"
    using Some by (auto simp: owner_get_def fifo_entry_def split: option.splits if_splits)
  then show ?thesis
    using r s Some by (auto simp: resolve_owner_def owner_cache_sound_def split: owner_lookup.splits)
qed

definition frames_length :: "stamped_chunk list \<Rightarrow> nat" where
  "frames_length cs = sum_list (map (\<lambda>c. HEADER_LEN + length (wire c)) cs)"

text \<open>What makes a frame acceptable to a request.\<close>

definition authorised :: "relay_env \<Rightarrow> chain_rpc \<Rightarrow> admitted option \<Rightarrow> stamped_chunk \<Rightarrow> bool" where
  "authorised env rpc adm c =
     (\<exists>vs. validate_stamp (env_crypto env) (addr c) (stamp c) = Inr vs \<and>
        chain_owner rpc (wc_hex_encode (env_codec env) (vs_batch_id vs)) (vs_signer vs) \<and>
        (\<forall>g. adm = Some g \<longrightarrow> vs_batch_id vs = ad_batch g))"

definition admission_inv :: "relay_env \<Rightarrow> chain_rpc \<Rightarrow> admitted option \<Rightarrow> stamped_chunk list \<Rightarrow> push_acc \<Rightarrow> bool" where
  "admission_inv env rpc adm cs acc =
     (owner_cache_sound rpc (pa_cache acc) \<and>
      (\<forall>bid. pa_batch_hex acc = Some bid \<longrightarrow> (\<exists>own v. pa_batch_owner acc = Some (own, v) \<and> chain_owner rpc bid own)) \<and>
      list_all (authorised env rpc adm) (pa_accepted acc) \<and> subseq (pa_accepted acc) cs \<and>
      length (pa_accepted acc) + length (pa_acks acc) = length cs \<and>
      (frames_length cs < 2 ^ 64 \<longrightarrow> unat (pa_billable acc) = frames_length (pa_accepted acc)))"

lemma subseq_frames_length: "subseq xs ys \<Longrightarrow> frames_length xs \<le> frames_length ys"
  by (induction rule: list_emb.induct) (auto simp: frames_length_def)

lemma frames_length_snoc [simp]: "frames_length (cs @ [c]) = frames_length cs + HEADER_LEN + length (wire c)"
  by (simp add: frames_length_def)

lemma subseq_snoc: "subseq xs ys \<Longrightarrow> subseq xs (ys @ [y])" "subseq xs ys \<Longrightarrow> subseq (xs @ [y]) (ys @ [y])"
  using list_emb_append_mono [of "(=)" xs ys "[]" "[y]"] list_emb_append_mono [of "(=)" xs ys "[y]" "[y]"] by simp_all

lemma admission_inv_answered:
  "admission_inv env rpc adm cs acc \<Longrightarrow> admission_inv env rpc adm (cs @ [c]) (ack_err acc c why)"
  by (auto simp: admission_inv_def subseq_snoc)

lemma admission_inv_frame:
  assumes inv: "admission_inv env rpc adm cs acc" and auth: "authorised env rpc adm c"
  shows "admission_inv env rpc adm (cs @ [c]) (admit_frame now recent own bid v acc c)"
proof -
  define w :: u64 where "w = of_nat (HEADER_LEN + length (wire c))"
  have bill: "unat (pa_billable acc + w) = frames_length (pa_accepted acc) + HEADER_LEN + length (wire c)"
      "unat (pa_billable acc) = frames_length (pa_accepted acc)" "unat w = HEADER_LEN + length (wire c)"
    if "frames_length (cs @ [c]) < 2 ^ 64"
  proof -
    have le: "frames_length (pa_accepted acc) \<le> frames_length cs"
      using inv subseq_frames_length by (simp add: admission_inv_def)
    show b: "unat (pa_billable acc) = frames_length (pa_accepted acc)" using inv that by (simp add: admission_inv_def)
    show f: "unat w = HEADER_LEN + length (wire c)" using that unfolding w_def by (simp add: unat_of_nat del: of_nat_add)
    show "unat (pa_billable acc + w) = frames_length (pa_accepted acc) + HEADER_LEN + length (wire c)"
      using unat_add_bounded [of "pa_billable acc" w] that le by (simp add: f b)
  qed
  show ?thesis
    using inv auth bill unfolding admit_frame_def w_def [symmetric]
    by (auto simp: admission_inv_def Let_def subseq_snoc unat_saturating_sub)
qed

lemma admission_inv_chunk:
  assumes inv: "admission_inv env rpc adm cs acc"
  shows "admission_inv env rpc adm (cs @ [c]) (push_chunk env rpc now recent adm acc c)"
proof (cases "validate_stamp (env_crypto env) (addr c) (stamp c)")
  case (Inl e)
  then show ?thesis using admission_inv_answered [OF inv] by (simp add: push_chunk_def)
next
  case (Inr vs)
  let ?bid = "wc_hex_encode (env_codec env) (vs_batch_id vs)"
  define resolved where "resolved =
    (if pa_batch_hex acc = Some ?bid then (Inr (pa_batch_owner acc), acc)
     else case resolve_owner rpc now (pa_cache acc) (pa_budget acc) ?bid of
        (Inr o', cache, lookups) \<Rightarrow>
          (Inr (Some o'), acc\<lparr>pa_batch_hex := Some ?bid, pa_batch_owner := Some o', pa_cache := cache, pa_budget := lookups\<rparr>)
      | (Inl e, cache, lookups) \<Rightarrow> (Inl e, acc\<lparr>pa_cache := cache, pa_budget := lookups\<rparr>))"
  obtain res acc1 where r: "resolved = (res, acc1)" by fastforce
  have "admission_inv env rpc adm cs acc1 \<and> (\<forall>own v. res = Inr (Some (own, v)) \<longrightarrow> chain_owner rpc ?bid own)"
  proof (cases "pa_batch_hex acc = Some ?bid")
    case True
    then show ?thesis using inv r by (auto simp: resolved_def admission_inv_def)
  next
    case False
    obtain res' cache' n' where ro: "resolve_owner rpc now (pa_cache acc) (pa_budget acc) ?bid = (res', cache', n')"
      by (metis prod_cases3)
    have "owner_cache_sound rpc cache' \<and> (\<forall>own v. res' = Inr (own, v) \<longrightarrow> chain_owner rpc ?bid own)"
      using resolve_owner_sound [OF _ ro] inv by (simp add: admission_inv_def)
    then show ?thesis using False r inv by (auto simp: resolved_def ro admission_inv_def split: sum.splits)
  qed
  then have inv1: "admission_inv env rpc adm cs acc1" and own: "\<And>own v. res = Inr (Some (own, v)) \<Longrightarrow> chain_owner rpc ?bid own"
    by auto
  have eq: "push_chunk env rpc now recent adm acc c =
    (case (res, acc1) of
       (Inl e, acc1) \<Rightarrow> ack_err acc1 c e
     | (Inr None, acc1) \<Rightarrow> ack_err acc1 c ''batch owner unresolved''
     | (Inr (Some (own, batch_value)), acc1) \<Rightarrow>
         if own \<noteq> vs_signer vs then ack_err acc1 c ''stamp signer is not the on-chain batch owner''
         else if (case adm of None \<Rightarrow> False | Some g \<Rightarrow> vs_batch_id vs \<noteq> ad_batch g)
         then ack_err acc1 c ''frame batch does not match the challenge''
         else admit_frame now recent own (vs_batch_id vs) batch_value acc1 c)"
    unfolding push_chunk_def Inr sum.case Let_def resolved_def [symmetric] r ..
  have "authorised env rpc adm c" if "chain_owner rpc ?bid (vs_signer vs)" "\<not> (case adm of None \<Rightarrow> False | Some g \<Rightarrow> vs_batch_id vs \<noteq> ad_batch g)"
    using that Inr by (auto simp: authorised_def)
  then show ?thesis
    unfolding eq using admission_inv_answered [OF inv1] admission_inv_frame [OF inv1] own
    by (auto split: sum.splits option.splits)
qed

lemma admission_inv_frames:
  assumes "owner_cache_sound rpc cache"
  shows "admission_inv env rpc adm cs (admit_frames env rpc now recent adm cache cs)"
proof (induction cs rule: rev_induct)
  case Nil
  then show ?case using assms by (simp add: admit_frames_def admission_inv_def push_acc_init_def frames_length_def)
next
  case (snoc c cs)
  then show ?case using admission_inv_chunk by (simp add: admit_frames_def)
qed

end
