(* ===== verification/RelayRun.thy ===== *)
theory RelayRun
  imports Relay
begin

text \<open>
  The metered relay as a machine: any interleaving of admissions, bodies, challenges, payments,
  crashes and restarts. The first part says what each endpoint of \<^verbatim>\<open>Relay\<close> does to the ledger and
  the disk; the second is the step relation with its invariants; the third are the properties that
  hold of every run.
\<close>

section \<open>What the endpoints do to the ledger\<close>

lemma presented_decode_sized:
  "presented_decode w raw = Inr pr \<Longrightarrow> length (cf_account (pr_fields pr)) = 20"
  by (auto simp: presented_decode_def bind_sum_def get_fixed_def split: option.splits sum.splits if_splits)

lemma verify_header_sized: "verify_header env m raw t = Inr v \<Longrightarrow> length (vc_account v) = 20"
  by (auto simp: verify_header_def Let_def presented_decode_sized split: sum.splits if_splits)

lemma decode_cheque_sized:
  "decode_signed_cheque_json w bs = Inr c \<Longrightarrow> length (sc_chequebook c) = 20 \<and> length (sc_signature c) = 65"
  by (auto simp: decode_signed_cheque_json_def bind_sum_def json_address_def check_canonical_signature_def
      split: option.splits sum.splits if_splits)

lemma allow_account_frame:
  "allow_account env t m a = (ok, m') \<Longrightarrow> mt_ledger m' = mt_ledger m \<and> cfg m' = cfg m"
  by (auto simp: allow_account_def split: prod.splits)

lemma allow_challenge_frame:
  "allow_challenge env t m a = (ok, m') \<Longrightarrow> mt_ledger m' = mt_ledger m \<and> cfg m' = cfg m"
  by (auto simp: allow_challenge_def split: prod.splits)

lemma is_deployed_frame:
  "is_deployed rpc s t m a = (res, m') \<Longrightarrow> mt_ledger m' = mt_ledger m \<and> cfg m' = cfg m"
  by (auto simp: is_deployed_def split: option.splits sum.splits)

lemma chequebook_state_frame:
  "metered_chequebook_state rpc s t m a = (res, m') \<Longrightarrow> mt_ledger m' = mt_ledger m \<and> cfg m' = cfg m"
  by (auto simp: metered_chequebook_state_def split: option.splits sum.splits)

lemma invalidate_frame [simp]:
  "mt_ledger (invalidate_chequebook m cb) = mt_ledger m" "cfg (invalidate_chequebook m cb) = cfg m"
  by (simp_all add: invalidate_chequebook_def)

lemma challenge_response_frame:
  assumes "challenge_response env rpc q ip t now r = (res, r')"
  shows "mt_ledger (rl_metered r') = mt_ledger (rl_metered r) \<and> cfg (rl_metered r') = cfg (rl_metered r) \<and>
    rl_disk r' = rl_disk r"
proof -
  obtain ok m where m: "allow_challenge env now (rl_metered r) ip = (ok, m)" by fastforce
  show ?thesis
    using assms allow_challenge_frame [OF m]
    by (auto simp: challenge_response_def m Let_def split: if_splits option.splits sum.splits prod.splits)
qed

text \<open>Admission leaves the ledger alone, or reserves and takes back, or reserves and hands out a guard.\<close>

lemma admit_metered_cases:
  assumes "admit_metered env m h cl t now = (res, m')"
  obtains
    (untouched) "mt_ledger m' = mt_ledger m" "cfg m' = cfg m" "\<And>g. res \<noteq> Inr (Some g)" "\<And>b. res \<noteq> Inl (Resp 402 b)"
  | (over) v declared where "verify_header env m (case h of None \<Rightarrow> [] | Some s \<Rightarrow> s) t = Inr v" "cfg m' = cfg m"
      "hard_mode (cfg m)" "Option.bind cl uint_from_str = Some declared" "unat declared \<le> PUSH_MAX_BODY"
      "adm_over_cap (fst (reserve (mt_ledger m) (vc_account v) (price_bytes (params (cfg m)) declared) (vc_cap_plur v)))"
      "res = Inl (payment_required m (fst (reserve (mt_ledger m) (vc_account v) (price_bytes (params (cfg m)) declared) (vc_cap_plur v))))"
      "mt_ledger m' = release (snd (reserve (mt_ledger m) (vc_account v) (price_bytes (params (cfg m)) declared) (vc_cap_plur v)))
         (vc_account v) (price_bytes (params (cfg m)) declared)"
  | (reserved) v declared where "verify_header env m (case h of None \<Rightarrow> [] | Some s \<Rightarrow> s) t = Inr v" "cfg m' = cfg m"
      "Option.bind cl uint_from_str = Some declared" "unat declared \<le> PUSH_MAX_BODY"
      "hard_mode (cfg m) \<Longrightarrow>
         \<not> adm_over_cap (fst (reserve (mt_ledger m) (vc_account v) (price_bytes (params (cfg m)) declared) (vc_cap_plur v)))"
      "res = Inr (Some \<lparr>ad_account = vc_account v, ad_batch = vc_batch v, ad_reserved_plur = price_bytes (params (cfg m)) declared\<rparr>)"
      "mt_ledger m' = snd (reserve (mt_ledger m) (vc_account v) (price_bytes (params (cfg m)) declared) (vc_cap_plur v))"
proof -
  let ?raw = "case h of None \<Rightarrow> [] | Some s \<Rightarrow> s"
  show thesis
  proof (cases "?raw = [] \<or> (\<exists>e. verify_header env m ?raw t = Inl e)")
    case True
    then show ?thesis
      using assms by (intro untouched) (auto simp: admit_metered_def Let_def json_line_response_def split: if_splits)
  next
    case False
    then obtain v where raw: "?raw \<noteq> []" and v: "verify_header env m ?raw t = Inr v" by (cases "verify_header env m ?raw t") auto
    obtain ok m1 where m1: "allow_account env now m (vc_account v) = (ok, m1)" by fastforce
    have fr: "mt_ledger m1 = mt_ledger m" "cfg m1 = cfg m" using allow_account_frame [OF m1] by auto
    show ?thesis
    proof (cases "ok \<and> \<not> shed_reservations m1 \<and> (\<exists>d. Option.bind cl uint_from_str = Some (d :: u64) \<and> unat d \<le> PUSH_MAX_BODY)")
      case False
      then show ?thesis
        using assms raw v fr m1 
        by (intro untouched) (auto simp: admit_metered_def Let_def json_line_response_def split: if_splits option.splits)
    next
      case True
      then obtain d :: u64 where d: "Option.bind cl uint_from_str = Some d" "unat d \<le> PUSH_MAX_BODY" by auto
      let ?n = "price_bytes (params (cfg m)) d"
      let ?res = "reserve (mt_ledger m) (vc_account v) ?n (vc_cap_plur v)"
      have n: "adm_reserved_plur (fst ?res) = ?n" by (simp add: reserve_def Let_def)
      have eq: "admit_metered env m h cl t now =
        (if adm_over_cap (fst ?res) \<and> hard_mode (cfg m)
         then (Inl (payment_required m (fst ?res)),
               m1\<lparr>mt_ledger := release (snd ?res) (vc_account v) ?n\<rparr>)
         else (Inr (Some \<lparr>ad_account = vc_account v, ad_batch = vc_batch v, ad_reserved_plur = ?n\<rparr>),
               m1\<lparr>mt_ledger := snd ?res\<rparr>))"
        using raw v m1 True d fr n
        by (simp add: admit_metered_def reserve_for_body_def Let_def payment_required_def case_prod_beta)
      show ?thesis
      proof (cases "adm_over_cap (fst ?res) \<and> hard_mode (cfg m)")
        case True
        then show ?thesis using assms v d fr unfolding eq by (intro over [of v d]) auto
      next
        case False
        then show ?thesis using assms v d fr unfolding eq by (intro reserved [of v d]) auto
      qed
    qed
  qed
qed


text \<open>What the admission loop bills is at most the length of the frames.\<close>

lemma push_chunk_billable:
  assumes "unat (pa_billable acc) + HEADER_LEN + length (wire c) < 2 ^ 64"
  shows "unat (pa_billable (push_chunk env rpc now recent adm acc c)) \<le> unat (pa_billable acc) + HEADER_LEN + length (wire c)"
proof -
  define w :: u64 where "w = of_nat (HEADER_LEN + length (wire c))"
  have f: "unat w = HEADER_LEN + length (wire c)"
    using assms unfolding w_def by (simp add: unat_of_nat del: of_nat_add)
  have "unat (pa_billable acc + w) = unat (pa_billable acc) + HEADER_LEN + length (wire c)"
    using assms unat_add_bounded [of "pa_billable acc" w] by (simp add: f)
  then have "unat (pa_billable (admit_frame now recent own bid v acc1 c)) \<le> unat (pa_billable acc) + HEADER_LEN + length (wire c)"
    if "pa_billable acc1 = pa_billable acc" for own bid v acc1
    using that unfolding admit_frame_def w_def [symmetric] by (auto simp: Let_def unat_saturating_sub f)
  then show ?thesis
    by (auto simp: push_chunk_def Let_def split: sum.splits prod.splits option.splits)
qed

lemma admit_frames_billable:
  assumes "frames_length cs < 2 ^ 64"
  shows "unat (pa_billable (admit_frames env rpc now recent adm cache cs)) \<le> frames_length cs"
proof -
  have "unat (pa_billable acc) + frames_length cs < 2 ^ 64 \<Longrightarrow>
      unat (pa_billable (foldl (push_chunk env rpc now recent adm) acc cs)) \<le> unat (pa_billable acc) + frames_length cs" for acc
  proof (induction cs arbitrary: acc)
    case (Cons c cs)
    have "unat (pa_billable (push_chunk env rpc now recent adm acc c)) \<le> unat (pa_billable acc) + HEADER_LEN + length (wire c)"
      using Cons.prems by (intro push_chunk_billable) (simp add: frames_length_def)
    then show ?case using Cons.IH [of "push_chunk env rpc now recent adm acc c"] Cons.prems by (simp add: frames_length_def)
  qed (simp add: frames_length_def)
  from this [of "push_acc_init cache"] show ?thesis using assms by (simp add: admit_frames_def push_acc_init_def)
qed


lemma decode_batch_frames_length:
  assumes "decode_batch bs n = Inr cs"
  shows "frames_length cs = length bs"
proof -
  have "bs = encode_batch cs \<and> list_all chunk_ok cs"
    using assms decode_loop_exact [of "[]" n bs 0 cs] unfolding decode_batch_def encode_batch_concat by auto
  then show ?thesis using sum_frame_lengths [of cs] by (simp add: frames_length_def)
qed

text \<open>A body is dropped with its reservation, or billed for at most its length.\<close>

lemma push_body_cases:
  assumes "push_body env rpc io now (Some g) body r = (res, r')"
  obtains
    (dropped) "mt_ledger (rl_metered r') = release (mt_ledger (rl_metered r)) (ad_account g) (ad_reserved_plur g)"
      "cfg (rl_metered r') = cfg (rl_metered r)" "rl_disk r' = rl_disk r" "\<And>acc. res \<noteq> Inr acc"
  | (billed) bs n acc where "body = Body bs" "unat n \<le> length bs" "res = Inr acc"
      "mt_ledger (rl_metered r') = commit (mt_ledger (rl_metered r)) (ad_account g) (ad_reserved_plur g)
         (price_bytes (params (cfg (rl_metered r))) n)"
      "cfg (rl_metered r') = cfg (rl_metered r)"
      "rl_disk r' = snd (persist (env_serde env) io (mt_ledger (rl_metered r')) (rl_disk r))"
proof (cases "\<exists>bs cs. body = Body bs \<and> length bs \<le> PUSH_MAX_BODY \<and> decode_batch bs PUSH_BATCH_MAX = Inr cs \<and> cs \<noteq> []")
  case False
  then show ?thesis
    using assms by (intro dropped) (auto simp: push_body_def admitted_drop_def Let_def split: body_read.splits sum.splits if_splits)
next
  case True
  then obtain bs cs where bs: "body = Body bs" "length bs \<le> PUSH_MAX_BODY" "decode_batch bs PUSH_BATCH_MAX = Inr cs" "cs \<noteq> []"
    by blast
  let ?acc = "admit_frames env rpc now (rl_recent r) (Some g) (rl_owner_cache r) cs"
  have "PUSH_MAX_BODY < 2 ^ 64"
    by (simp add: PUSH_MAX_BODY_def PUSH_BATCH_MAX_def MAX_FRAME_LEN_def HEADER_LEN_def STAMP_LEN_def MAX_WIRE_LEN_def)
  then have n: "unat (pa_billable ?acc) \<le> length bs"
    using admit_frames_billable [of cs env rpc now "rl_recent r" "Some g" "rl_owner_cache r"] bs(2)
      decode_batch_frames_length [OF bs(3)] by simp
  show ?thesis
    using assms bs n
    by (intro billed [of bs "pa_billable ?acc" ?acc]) (auto simp: push_body_def admitted_commit_def Let_def)
qed

lemma push_body_open:
  "push_body env rpc io now None body r = (res, r') \<Longrightarrow>
     rl_metered r' = rl_metered r \<and> rl_disk r' = rl_disk r"
  by (auto simp: push_body_def Let_def split: body_read.splits sum.splits if_splits)

text \<open>A payment leaves the ledger and the disk alone or attempts one credit.\<close>

lemma pay_response_cases:
  assumes "pay_response env rpc io clk h body r = (res, cr, r')"
  obtains
    (untouched) "cr = None" "mt_ledger (rl_metered r') = mt_ledger (rl_metered r)"
      "cfg (rl_metered r') = cfg (rl_metered r)" "rl_disk r' = rl_disk r"
  | (credited) m a cb cum sig out m' where "length a = 20" "length cb = 20" "length sig = 65"
      "mt_ledger m = mt_ledger (rl_metered r)" "cfg m = cfg (rl_metered r)"
      "metered_credit (env_serde env) io m (rl_disk r) a cb cum sig = (out, m', rl_disk r')"
      "mt_ledger (rl_metered r') = mt_ledger m'" "cfg (rl_metered r') = cfg m'"
      "cr = (case out of Inl e \<Rightarrow> None | Inr d \<Rightarrow> Some (a, cb, cum, d))"
proof -
  let ?m = "rl_metered r" and ?raw = "case h of None \<Rightarrow> [] | Some s \<Rightarrow> s"
  show thesis
  proof (cases "verify_header env ?m ?raw (pay_unix clk)")
    case (Inl e)
    then show ?thesis using assms by (intro untouched) (auto simp: pay_response_def Let_def)
  next
    case (Inr v)
    obtain ok m1 where m1: "allow_account env (pay_now clk) ?m (vc_account v) = (ok, m1)" by fastforce
    note f1 = allow_account_frame [OF m1]
    show ?thesis
    proof (cases "ok \<and> (\<exists>c cum. pay_free_checks env m1 v body = Inr (c, cum))")
      case False
      then show ?thesis
        using assms Inr m1 f1 by (intro untouched) (auto simp: pay_response_def Let_def split: if_splits sum.splits)
    next
      case True
      then obtain c cum where ok: ok and free: "pay_free_checks env m1 v body = Inr (c, cum)" by blast
      have sz: "length (sc_chequebook c) = 20" "length (sc_signature c) = 65"
        using free decode_cheque_sized by (auto simp: pay_free_checks_def Let_def split: if_splits sum.splits)
      obtain dep m2 where m2: "is_deployed (rpc_deployed rpc) (pay_now clk) (pay_after_deployed clk) m1 (sc_chequebook c) = (dep, m2)"
        by fastforce
      obtain st m3 where m3: "metered_chequebook_state (rpc_chequebook rpc) (pay_before_state clk) (pay_after_state clk) m2 (sc_chequebook c) = (st, m3)"
        by fastforce
      obtain out m4 fs where m4: "metered_credit (env_serde env) io m3 (rl_disk r) (vc_account v) (sc_chequebook c) cum (sc_signature c) = (out, m4, fs)"
        by (metis prod_cases3)
      note fr = f1 is_deployed_frame [OF m2] chequebook_state_frame [OF m3]
      let ?rec = "recover_cheque_issuer (env_crypto env) (sc_chequebook c) (sc_beneficiary c)
        (sc_cumulative_payout c) (chain_id (cfg m2)) (sc_signature c)"
      show ?thesis
      proof (cases "dep = Inr True \<and> (\<exists>i s. ?rec = Inr i \<and> st = Inr s \<and> funding_check s i (vc_account v) cum = Inr ())")
        case False
        then show ?thesis
          using assms Inr m1 ok free m2 m3 fr
          by (intro untouched) (auto simp: pay_response_def Let_def split: bool.splits sum.splits prod.splits)
      next
        case True
        then have "cr = (case out of Inl e \<Rightarrow> None | Inr d \<Rightarrow> Some (vc_account v, sc_chequebook c, cum, d)) \<and>
            mt_ledger (rl_metered r') = mt_ledger m4 \<and> cfg (rl_metered r') = cfg m4 \<and> rl_disk r' = fs"
          using assms Inr m1 ok free m2 m3 m4
          by (auto simp: pay_response_def Let_def split: sum.splits ledger_error.splits)
        then show ?thesis
          using credited [OF verify_header_sized [OF Inr] sz(1,2), of m3 cum out m4] fr m4 by simp
      qed
    qed
  qed
qed

section \<open>The machine\<close>

text \<open>
  A relay is up, with the guards of the requests whose bodies are still coming, each with the
  declared length of its body; or it is down and only the disk is left.
\<close>

type_synonym guards = "(admitted \<times> u64) list"

datatype machine =
    Up relay guards
  | Down fs

type_synonym credited = "bytes \<times> bytes \<times> u128 \<times> u128"

text \<open>
  \<open>line\<close> bounds the credit lines in the challenges that verify. Bodies are no longer than declared,
  as the HTTP server frames them by their content length. A credit may come any time after the
  checks of its payment, so it is a step of its own too. A crash can strike between two steps or
  within the file writes of a commit or a credit.
\<close>

inductive relay_step :: "relay_env \<Rightarrow> meter_config \<Rightarrow> string \<Rightarrow> u128 \<Rightarrow> machine \<Rightarrow> credited list \<Rightarrow> machine \<Rightarrow> bool"
  for env :: relay_env and c :: meter_config and p :: string and line :: u128 where
  admitted: "admit_metered env (rl_metered r) h cl t now = (Inr (Some g), m') \<Longrightarrow>
      Option.bind cl uint_from_str = Some d \<Longrightarrow>
      (\<And>v. verify_header env (rl_metered r) (case h of None \<Rightarrow> [] | Some s \<Rightarrow> s) t = Inr v \<Longrightarrow> vc_cap_plur v \<le> line) \<Longrightarrow>
      relay_step env c p line (Up r gs) [] (Up (r\<lparr>rl_metered := m'\<rparr>) ((g, d) # gs))"
| not_admitted: "admit_metered env (rl_metered r) h cl t now = (res, m') \<Longrightarrow> (\<And>g. res \<noteq> Inr (Some g)) \<Longrightarrow>
      relay_step env c p line (Up r gs) [] (Up (r\<lparr>rl_metered := m'\<rparr>) gs)"
| body: "(g, d) \<in> set gs \<Longrightarrow> (\<And>bs. b = Body bs \<Longrightarrow> length bs \<le> unat d) \<Longrightarrow>
      push_body env rpc io now (Some g) b r = (res, r') \<Longrightarrow>
      relay_step env c p line (Up r gs) [] (Up r' (remove1 (g, d) gs))"
| open_body: "push_body env rpc io now None b r = (res, r') \<Longrightarrow> relay_step env c p line (Up r gs) [] (Up r' gs)"
| challenge: "challenge_response env rpc q ip t now r = (res, r') \<Longrightarrow> relay_step env c p line (Up r gs) [] (Up r' gs)"
| pay: "pay_response env rpc io clk h b r = (res, cr, r') \<Longrightarrow>
      relay_step env c p line (Up r gs) (case cr of None \<Rightarrow> [] | Some x \<Rightarrow> [x]) (Up r' gs)"
| credit: "length a = 20 \<Longrightarrow> length cb = 20 \<Longrightarrow> length sig = 65 \<Longrightarrow>
      metered_credit (env_serde env) io (rl_metered r) (rl_disk r) a cb cum sig = (out, m', fs') \<Longrightarrow>
      relay_step env c p line (Up r gs) (case out of Inl e \<Rightarrow> [] | Inr d \<Rightarrow> [(a, cb, cum, d)])
        (Up (r\<lparr>rl_metered := m', rl_disk := fs'\<rparr>) gs)"
| crash: "relay_step env c p line (Up r gs) [] (Down (rl_disk r))"
| crash_in_commit: "(g, d) \<in> set gs \<Longrightarrow> length bs \<le> unat d \<Longrightarrow>
      push_body env rpc io now (Some g) (Body bs) r = (Inr acc, r') \<Longrightarrow>
      fs' \<in> set (persist_states (env_serde env) io (mt_ledger (rl_metered r')) (rl_disk r)) \<Longrightarrow>
      relay_step env c p line (Up r gs) [] (Down fs')"
| crash_in_credit: "length a = 20 \<Longrightarrow> length cb = 20 \<Longrightarrow> length sig = 65 \<Longrightarrow>
      credit (mt_ledger (rl_metered r)) a cb cum sig = (Inr d, l') \<Longrightarrow>
      fs' \<in> set (persist_states (env_serde env) io l' (rl_disk r)) \<Longrightarrow>
      relay_step env c p line (Up r gs) [] (Down fs')"
| restart: "load_or_create (env_serde env) io entropy p fs = (Inr l, fs') \<Longrightarrow> length entropy = 32 \<Longrightarrow>
      relay_step env c p line (Down fs) []
        (Up \<lparr>rl_metered = metered_new c l, rl_disk = fs', rl_meter = mt, rl_owner_cache = oc, rl_recent = rc\<rparr> [])"
| failed_start: "load_or_create (env_serde env) io entropy p fs = (Inl e, fs') \<Longrightarrow> length entropy = 32 \<Longrightarrow>
      relay_step env c p line (Down fs) [] (Down fs')"

inductive relay_run :: "relay_env \<Rightarrow> meter_config \<Rightarrow> string \<Rightarrow> u128 \<Rightarrow> machine \<Rightarrow> credited list \<Rightarrow> machine \<Rightarrow> bool"
  for env :: relay_env and c :: meter_config and p :: string and line :: u128 where
  start: "relay_run env c p line st [] st"
| step: "relay_run env c p line st tr st' \<Longrightarrow> relay_step env c p line st' new st'' \<Longrightarrow>
     relay_run env c p line st (tr @ new) st''"

section \<open>Cheques are never credited twice\<close>

text \<open>What a ledger holds covers the credits so far, and each credit beats those before it.\<close>

definition trace_amount :: "credited list \<Rightarrow> bytes \<Rightarrow> nat" where
  "trace_amount tr cb = (\<Sum>(a, cb', cum, d) \<leftarrow> tr. if cb' = cb then unat d else 0)"

definition covers :: "ledger \<Rightarrow> credited list \<Rightarrow> bool" where
  "covers l tr =
     ((\<forall>(a, cb, cum, d) \<in> set tr. held_cheque l a cb \<noteq> None \<and> cum \<le> last_cumulative l a cb) \<and>
      (\<forall>a cb. held_cheque l a cb \<noteq> None \<longrightarrow> trace_amount tr cb \<le> unat (last_cumulative l a cb)))"

definition increasing :: "credited list \<Rightarrow> bool" where
  "increasing = sorted_wrt (\<lambda>(a, cb, cum, d) (a', cb', cum', d'). cb = cb' \<longrightarrow> a = a' \<and> cum < cum')"

definition paid_for :: "credited list \<Rightarrow> bool" where
  "paid_for tr = (\<forall>n < length tr. case tr ! n of (a, cb, cum, d) \<Rightarrow> trace_amount (take (Suc n) tr) cb \<le> unat cum)"

definition on_file :: "relay_env \<Rightarrow> string \<Rightarrow> fs \<Rightarrow> ledger \<Rightarrow> bool" where
  "on_file env p fs l =
     (ledger_inv l \<and> ledger_sized l \<and> json_encode (env_serde env) (to_on_disk (env_serde env) l) \<noteq> None \<and>
      hm_get fs p = json_encode (env_serde env) (to_on_disk (env_serde env) l))"

fun cheque_inv :: "relay_env \<Rightarrow> string \<Rightarrow> credited list \<Rightarrow> machine \<Rightarrow> bool" where
  "cheque_inv env p tr (Up r gs) =
     (let l = mt_ledger (rl_metered r) in
      ledger_inv l \<and> ledger_sized l \<and> path l = Some p \<and> covers l tr \<and> increasing tr \<and> paid_for tr \<and>
      (\<forall>(g, d) \<in> set gs. length (ad_account g) = 20) \<and>
      (\<exists>l0. on_file env p (rl_disk r) l0 \<and> held_cheque l0 = held_cheque l))"
| "cheque_inv env p tr (Down fs) =
     (increasing tr \<and> paid_for tr \<and> ((\<exists>l0. on_file env p fs l0 \<and> covers l0 tr) \<or> hm_get fs p = None \<and> tr = []))"

lemma covers_held: "held_cheque l = held_cheque l' \<Longrightarrow> covers l tr = covers l' tr"
  by (simp add: covers_def last_cumulative_eq)

lemma trace_amount_snoc [simp]:
  "trace_amount (tr @ [(a, cb', cum, d)]) cb = trace_amount tr cb + (if cb' = cb then unat d else 0)"
  by (simp add: trace_amount_def)

lemma trace_amount_absent: "(\<And>a cum d. (a, cb, cum, d) \<notin> set tr) \<Longrightarrow> trace_amount tr cb = 0"
  by (fastforce simp: trace_amount_def)

lemma covers_credit:
  assumes inv: "ledger_inv l" and cov: "covers l tr" and cr: "credit l a cb cum sig = (Inr d, l')"
  shows "covers l' tr" "covers l' (tr @ [(a, cb, cum, d)])" "increasing tr \<Longrightarrow> increasing (tr @ [(a, cb, cum, d)])"
    "paid_for tr \<Longrightarrow> paid_for (tr @ [(a, cb, cum, d)])"
proof -
  let ?have = "last_cumulative l a cb"
  have bnd: "hm_get (binding l) cb = None \<or> hm_get (binding l) cb = Some a" and lt: "?have < cum" and d: "d = cum - ?have"
    and held: "held_cheque l' x y = (if x = a \<and> y = cb then Some \<lparr>cumulative_plur = cum, cheque_signature = sig\<rparr> else held_cheque l x y)"
    for x y
    using cr by (cases rule: credit_cases [of cum l a cb sig]; auto simp: held_cheque_eq)+
  have last: "last_cumulative l' x y = (if x = a \<and> y = cb then cum else last_cumulative l x y)" for x y
    by (simp add: last_cumulative_eq held)
  have own: "x = a" if "held_cheque l x cb \<noteq> None" for x
    using inv bnd that by (auto simp: ledger_inv_def)
  have entry: "held_cheque l a1 cb1 \<noteq> None \<and> cum1 \<le> last_cumulative l a1 cb1" if "(a1, cb1, cum1, d1) \<in> set tr" for a1 cb1 cum1 d1
    using cov that by (auto simp: covers_def)
  have amount: "trace_amount tr cb \<le> unat ?have"
  proof (cases "held_cheque l a cb")
    case None
    then have "trace_amount tr cb = 0" using entry own by (intro trace_amount_absent) blast
    then show ?thesis by simp
  next
    case (Some h)
    then show ?thesis using cov by (auto simp: covers_def)
  qed
  have un: "unat d = unat cum - unat ?have" "unat ?have < unat cum"
    using lt by (simp add: d unat_sub) (use lt in \<open>simp add: word_less_nat_alt\<close>)
  show "covers l' tr"
    using cov amount un lt by (fastforce simp: covers_def held last)
  have "trace_amount tr cb' \<le> unat (last_cumulative l x cb')" if "held_cheque l x cb' \<noteq> None" for x cb'
    using cov that by (auto simp: covers_def)
  then show "covers l' (tr @ [(a, cb, cum, d)])"
    using entry amount un lt own by (fastforce simp: covers_def held last)
  show "increasing (tr @ [(a, cb, cum, d)])" if "increasing tr"
    using that entry own lt unfolding increasing_def sorted_wrt_append by fastforce
  show "paid_for (tr @ [(a, cb, cum, d)])" if "paid_for tr"
    using that amount un by (auto simp: paid_for_def nth_append less_Suc_eq)
qed

text \<open>The shared case analysis of file writes: they leave the old document or the new one.\<close>

lemma persist_on_file:
  assumes "on_file env p fs l0" "ledger_inv l" "ledger_sized l" "path l = Some p" "with_extension_tmp p \<noteq> p"
    and "s \<in> set (persist_states (env_serde env) io l fs)"
  shows "on_file env p s l0 \<or> on_file env p s l"
  using persist_states_atomic [OF assms(4-6)] assms(1-3) by (auto simp: on_file_def)

lemma persist_in_states: "snd (persist ser io l fs) \<in> set (persist_states ser io l fs)"
  by (simp add: last_persist_states) (simp add: persist_states_def Let_def split: option.split)

lemma ledger_inv_rollback:
  assumes "ledger_inv l" "credit l a cb cum sig = (Inr d, l')"
  shows "ledger_inv (rollback_credit l' a cb (owed l a) (held_cheque l a cb) (had_binding l cb))"
proof -
  let ?l = "rollback_credit l' a cb (owed l a) (held_cheque l a cb) (had_binding l cb)"
  have l': "ledger_inv l'" using ledger_inv_credit [OF assms(1), of a cb cum sig] assms(2) by simp
  have "hm_wf (accounts ?l)" "hm_wf (binding ?l)" "hm_wf (last_cumulative_map (ledger_account ?l b))" for b
    using l' by (auto simp: ledger_inv_def rollback_credit_def Let_def ledger_account_def put_account_def default_account_def split: option.splits)
  then show ?thesis
    using rollback_credit_eqv [OF assms] assms(1) by (simp add: ledger_inv_def ledger_eqv_def last_cumulative_eq)
qed

text \<open>A credit with its file write, on a ledger that is on file.\<close>

lemma metered_credit_cases:
  assumes l: "ledger_inv (mt_ledger m)" "ledger_sized (mt_ledger m)" "path (mt_ledger m) = Some p"
    and onf: "on_file env p fs l0" "with_extension_tmp p \<noteq> p"
    and sz: "length a = 20" "length cb = 20" "length sig = 65"
    and run: "metered_credit (env_serde env) io m fs a cb cum sig = (out, m', fs')"
  obtains
    (failed) e where "out = Inl e" "ledger_eqv (mt_ledger m') (mt_ledger m)" "ledger_inv (mt_ledger m')"
      "ledger_sized (mt_ledger m')" "cfg m' = cfg m" "on_file env p fs' l0"
  | (paid) d where "out = Inr d" "credit (mt_ledger m) a cb cum sig = (Inr d, mt_ledger m')" "ledger_inv (mt_ledger m')"
      "ledger_sized (mt_ledger m')" "path (mt_ledger m') = Some p" "cfg m' = cfg m" "on_file env p fs' (mt_ledger m')"
proof -
  obtain r l1 where cr: "credit (mt_ledger m) a cb cum sig = (r, l1)" by fastforce
  have l1: "ledger_inv l1" "ledger_sized l1" "path l1 = Some p"
    using ledger_inv_credit [OF l(1), of a cb cum sig] ledger_sized_credit [OF l(2) sz, of cum]
      credit_path [of "mt_ledger m" a cb cum sig] l(3) cr by auto
  show thesis
  proof (cases r)
    case (Inl e)
    then show ?thesis
      using run cr l1 credit_error_eqv [of "mt_ledger m" a cb cum sig e l1] onf(1)
      by (intro failed [of e]) (auto simp: metered_credit_def Let_def)
  next
    case (Inr d)
    let ?undone = "rollback_credit l1 a cb (owed (mt_ledger m) a) (held_cheque (mt_ledger m) a cb) (had_binding (mt_ledger m) cb)"
    have undone: "ledger_eqv ?undone (mt_ledger m)" "ledger_inv ?undone" "ledger_sized ?undone"
      using rollback_credit_eqv [OF l(1)] ledger_inv_rollback [OF l(1)] cr Inr
        ledger_sized_rollback [OF l1(2) sz(1,2)] held_cheque_sized [OF l(2)] by auto
    show ?thesis
    proof (cases "persist (env_serde env) io l1 fs")
      case (Pair w fs1)
      show ?thesis
      proof (cases w)
        case (Inl e)
        then have "hm_get fs1 p = hm_get fs p" using persist_failed_keeps_file Pair l1(3) onf(2) by blast
        then show ?thesis
          using run cr Inr Pair Inl undone onf(1)
          by (intro failed [of "Store e"]) (auto simp: metered_credit_def Let_def on_file_def)
      next
        case (Inr u)
        then have "\<exists>b. json_encode (env_serde env) (to_on_disk (env_serde env) l1) = Some b \<and> hm_get fs1 p = Some b"
          using persist_ok_contents Pair l1(3) by blast
        then show ?thesis
          using run cr \<open>r = Inr d\<close> Pair Inr l1
          by (intro paid [of d]) (auto simp: metered_credit_def Let_def on_file_def)
      qed
    qed
  qed
qed


lemma cheque_inv_same:
  assumes "cheque_inv env p tr (Up r gs)" "mt_ledger (rl_metered r') = l'" "rl_disk r' = rl_disk r"
    and "ledger_inv l'" "ledger_sized l'" "path l' = path (mt_ledger (rl_metered r))"
      "held_cheque l' = held_cheque (mt_ledger (rl_metered r))"
    and "\<And>g d. (g, d) \<in> set gs' \<Longrightarrow> length (ad_account g) = 20"
  shows "cheque_inv env p tr (Up r' gs')"
  using assms covers_held [OF assms(7)] by (auto simp: Let_def)

lemma held_cheque_money [simp]:
  "held_cheque (snd (reserve l a n cap)) = held_cheque l" "held_cheque (release l a n) = held_cheque l"
  "held_cheque (commit l a r n) = held_cheque l"
  by (simp_all add: held_cheque_eq fun_eq_iff)

lemma admit_metered_ledger:
  assumes "admit_metered env m h cl t now = (res, m')" "ledger_inv (mt_ledger m)" "ledger_sized (mt_ledger m)"
  shows "ledger_inv (mt_ledger m') \<and> ledger_sized (mt_ledger m') \<and> path (mt_ledger m') = path (mt_ledger m) \<and>
    held_cheque (mt_ledger m') = held_cheque (mt_ledger m) \<and>
    (\<forall>g. res = Inr (Some g) \<longrightarrow> length (ad_account g) = 20)"
  using assms(1)
proof (cases rule: admit_metered_cases)
  case untouched
  then show ?thesis using assms by auto
next
  case over
  then show ?thesis
    using assms verify_header_sized
    by (simp add: ledger_inv_reserve ledger_inv_release ledger_sized_ops ledger_sized_release)
next
  case reserved
  then show ?thesis using assms verify_header_sized by (simp add: ledger_inv_reserve ledger_sized_ops)
qed

lemma push_body_ledger:
  assumes "push_body env rpc io now (Some g) b r = (res, r')" "length (ad_account g) = 20"
    and l: "ledger_inv (mt_ledger (rl_metered r))" "ledger_sized (mt_ledger (rl_metered r))"
      "path (mt_ledger (rl_metered r)) = Some p"
    and onf: "on_file env p (rl_disk r) l0" "with_extension_tmp p \<noteq> p"
  shows "ledger_inv (mt_ledger (rl_metered r')) \<and> ledger_sized (mt_ledger (rl_metered r')) \<and>
    path (mt_ledger (rl_metered r')) = Some p \<and> held_cheque (mt_ledger (rl_metered r')) = held_cheque (mt_ledger (rl_metered r)) \<and>
    (on_file env p (rl_disk r') l0 \<or> on_file env p (rl_disk r') (mt_ledger (rl_metered r')))"
  using assms(1)
proof (cases rule: push_body_cases)
  case dropped
  then show ?thesis using assms by (simp add: ledger_inv_release ledger_sized_release)
next
  case (billed bs n acc)
  let ?l = "mt_ledger (rl_metered r')"
  have l': "ledger_inv ?l" "ledger_sized ?l" "path ?l = Some p"
    using billed assms by (simp_all add: ledger_inv_commit ledger_sized_ops)
  then show ?thesis
    using persist_on_file [OF onf(1) l' onf(2) persist_in_states] billed by simp
qed

lemma covers_step:
  assumes "covers l tr" "held_cheque l' = held_cheque l"
  shows "covers l' tr"
  using assms covers_held by blast

lemma cheque_inv_credit:
  assumes ok: "with_extension_tmp p \<noteq> p" and inv: "cheque_inv env p tr (Up r gs)"
    and sz: "length a = 20" "length cb = 20" "length sig = 65"
    and m: "mt_ledger m = mt_ledger (rl_metered r)"
    and cr: "metered_credit (env_serde env) io m (rl_disk r) a cb cum sig = (out, m', rl_disk r')"
    and r': "mt_ledger (rl_metered r') = mt_ledger m'"
  shows "cheque_inv env p (tr @ (case out of Inl e \<Rightarrow> [] | Inr d \<Rightarrow> [(a, cb, cum, d)])) (Up r' gs)"
proof -
  let ?l = "mt_ledger (rl_metered r)"
  obtain l0 where l0: "on_file env p (rl_disk r) l0" "held_cheque l0 = held_cheque ?l"
    and l: "ledger_inv ?l" "ledger_sized ?l" "path ?l = Some p" "covers ?l tr" "increasing tr" "paid_for tr"
      "\<forall>(g, d) \<in> set gs. length (ad_account g) = 20"
    using inv by (auto simp: Let_def)
  from l(1-3) l0(1) ok sz cr show ?thesis unfolding m [symmetric]
  proof (cases rule: metered_credit_cases)
    case (failed e)
    then have "held_cheque (mt_ledger m') = held_cheque ?l" "path (mt_ledger m') = Some p"
      using l(3) m by (auto simp: ledger_eqv_def)
    then show ?thesis
      using failed l l0 r' covers_step [OF l(4)] by (auto simp: Let_def)
  next
    case (paid d)
    then show ?thesis
      using l r' covers_credit [OF l(1,4), of a cb cum sig d "mt_ledger m'"] m by (auto simp: Let_def)
  qed
qed

lemma cheque_inv_start:
  assumes "serde_ok (env_serde env)" "with_extension_tmp p \<noteq> p"
    and ld: "load_or_create (env_serde env) io entropy p fs = (res, fs')" and e: "length entropy = 32"
    and inv: "cheque_inv env p tr (Down fs)"
  shows "case res of Inl e \<Rightarrow> cheque_inv env p tr (Down fs')
    | Inr l \<Rightarrow> cheque_inv env p tr (Up \<lparr>rl_metered = metered_new c l, rl_disk = fs', rl_meter = mt, rl_owner_cache = oc, rl_recent = rc\<rparr> [])"
proof (cases "hm_get fs p")
  case None
  let ?fresh = "(ephemeral entropy)\<lparr>path := Some p\<rparr>"
  have f: "ledger_inv ?fresh" "ledger_sized ?fresh" "path ?fresh = Some p" "covers ?fresh []"
    using e by (simp_all add: ephemeral_def ledger_inv_def ledger_account_def default_account_def held_cheque_def
        last_cumulative_def ledger_sized_def covers_def)
  have tr: "tr = []" using inv None by (auto simp: on_file_def)
  obtain w fs1 where w: "persist (env_serde env) io ?fresh fs = (w, fs1)" by fastforce
  show ?thesis
  proof (cases w)
    case (Inl x)
    then have "hm_get fs1 p = None" using persist_failed_keeps_file [of "env_serde env" io ?fresh fs x fs1 p] w assms(2) None by simp
    then show ?thesis using ld None w Inl tr by (auto simp: load_or_create_def Let_def increasing_def paid_for_def)
  next
    case (Inr u)
    then have "on_file env p fs1 ?fresh"
      using persist_ok_contents [of "env_serde env" io ?fresh fs u fs1 p] w f by (auto simp: on_file_def)
    then show ?thesis
      using ld None w Inr tr f by (auto simp: load_or_create_def Let_def increasing_def paid_for_def metered_new_def)
  qed
next
  case (Some doc)
  then obtain l0 where l0: "on_file env p fs l0" "covers l0 tr" using inv by auto
  then obtain l' where l': "load_disk (env_serde env) p doc = Inr l'" "ledger_restarted l0 l'" "path l' = Some p"
      "ledger_inv l'" "ledger_sized l'"
    using load_disk_reloads [OF assms(1), of l0 doc p] Some by (auto simp: on_file_def)
  have "held_cheque l' = held_cheque l0" using l'(2) by (simp add: ledger_restarted_def)
  then have "covers l' tr" "\<exists>l0. on_file env p fs l0 \<and> held_cheque l0 = held_cheque l'" using l0 covers_step by auto
  then show ?thesis
    using ld Some l'(3-5) inv l0 by (auto simp: load_or_create_def l'(1) Let_def metered_new_def split: if_splits)
qed

lemma cheque_inv_crash:
  assumes "cheque_inv env p tr (Up r gs)" "on_file env p fs l" "covers l tr"
  shows "cheque_inv env p tr (Down fs)"
  using assms by (auto simp: Let_def)

lemma cheque_inv_step:
  assumes ok: "serde_ok (env_serde env)" "with_extension_tmp p \<noteq> p"
    and step: "relay_step env c p line st new st'" and inv: "cheque_inv env p tr st"
  shows "cheque_inv env p (tr @ new) st'"
  using step inv
proof cases
  case (admitted r h cl t now g m' d gs)
  have l: "ledger_inv (mt_ledger (rl_metered r))" "ledger_sized (mt_ledger (rl_metered r))"
    using inv admitted by (auto simp: Let_def)
  show ?thesis
    using inv admitted admit_metered_ledger [OF admitted(4) l]
    by (auto intro!: cheque_inv_same [of env p tr r gs] simp del: cheque_inv.simps) (auto simp: Let_def)
next
  case (not_admitted r h cl t now res m' gs)
  have l: "ledger_inv (mt_ledger (rl_metered r))" "ledger_sized (mt_ledger (rl_metered r))"
    using inv not_admitted by (auto simp: Let_def)
  show ?thesis
    using inv not_admitted admit_metered_ledger [OF not_admitted(4) l]
    by (auto intro!: cheque_inv_same [of env p tr r gs] simp del: cheque_inv.simps) (auto simp: Let_def)
next
  case (body g d gs b rpc io now r res r')
  obtain l0 where l0: "on_file env p (rl_disk r) l0" "held_cheque l0 = held_cheque (mt_ledger (rl_metered r))"
    and l: "ledger_inv (mt_ledger (rl_metered r))" "ledger_sized (mt_ledger (rl_metered r))" "path (mt_ledger (rl_metered r)) = Some p"
      "covers (mt_ledger (rl_metered r)) tr" "length (ad_account g) = 20"
    using inv body by (auto simp: Let_def)
  show ?thesis
    using inv body(1-3) push_body_ledger [OF body(6) l(5,1-3) l0(1) ok(2)] l0(2) covers_step [OF l(4)]
    by (auto simp: Let_def dest: notin_set_remove1)
next
  case (open_body rpc io now b r res r' gs)
  then show ?thesis using inv push_body_open [OF open_body(4)] by (simp add: Let_def)
next
  case (challenge rpc q ip t now r res r' gs)
  then show ?thesis using inv challenge_response_frame [OF challenge(4)] by (simp add: Let_def)
next
  case (pay rpc io clk h b r res cr r' gs)
  from pay(4) show ?thesis
  proof (cases rule: pay_response_cases)
    case untouched
    then show ?thesis using inv pay by (simp add: Let_def)
  next
    case (credited m a cb cum sig out m')
    then show ?thesis
      using cheque_inv_credit [OF ok(2), of env tr r gs a cb sig m io cum out m' r'] inv pay
      by (auto split: sum.splits)
  qed
next
  case (credit a cb sig io r cum out m' fs' gs)
  then show ?thesis
    using cheque_inv_credit [OF ok(2), of env tr r gs a cb sig "rl_metered r" io cum out m' "r\<lparr>rl_metered := m', rl_disk := fs'\<rparr>"] inv
    by simp
next
  case (crash r gs)
  then show ?thesis using inv covers_step by (auto simp: Let_def)
next
  case (crash_in_commit g d gs bs rpc io now r acc r' fs')
  obtain l0 where l0: "on_file env p (rl_disk r) l0" "held_cheque l0 = held_cheque (mt_ledger (rl_metered r))"
    and l: "ledger_inv (mt_ledger (rl_metered r))" "ledger_sized (mt_ledger (rl_metered r))" "path (mt_ledger (rl_metered r)) = Some p"
      "covers (mt_ledger (rl_metered r)) tr" "length (ad_account g) = 20"
    using inv crash_in_commit by (auto simp: Let_def)
  let ?l = "mt_ledger (rl_metered r')"
  have l': "ledger_inv ?l" "ledger_sized ?l" "path ?l = Some p" "covers ?l tr"
    using push_body_ledger [OF crash_in_commit(6) l(5,1-3) l0(1) ok(2)] covers_step [OF l(4)] by auto
  show ?thesis
    using persist_on_file [OF l0(1) l'(1-3) ok(2) crash_in_commit(7)] cheque_inv_crash inv crash_in_commit(1-3)
      l'(4) covers_step [OF l(4) l0(2)] by (auto simp del: cheque_inv.simps)
next
  case (crash_in_credit a cb sig r cum d l' fs' io gs)
  let ?l = "mt_ledger (rl_metered r)"
  obtain l0 where l0: "on_file env p (rl_disk r) l0" "held_cheque l0 = held_cheque ?l"
    and l: "ledger_inv ?l" "ledger_sized ?l" "path ?l = Some p" "covers ?l tr"
    using inv crash_in_credit by (auto simp: Let_def)
  have l': "ledger_inv l'" "ledger_sized l'" "path l' = Some p" "covers l' tr"
    using ledger_inv_credit [OF l(1), of a cb cum sig] ledger_sized_credit [OF l(2) crash_in_credit(4-6), of cum]
      credit_path [of ?l a cb cum sig] l(3) crash_in_credit(7) covers_credit(1) [OF l(1,4) crash_in_credit(7)] by auto
  show ?thesis
    using persist_on_file [OF l0(1) l'(1-3) ok(2) crash_in_credit(8)] cheque_inv_crash inv crash_in_credit(1-3)
      l'(4) covers_step [OF l(4) l0(2)] by (auto simp del: cheque_inv.simps)
next
  case (restart io entropy fs l fs' mt oc rc)
  then show ?thesis using cheque_inv_start [OF ok restart(4,5), of tr c mt oc rc] inv by (simp del: cheque_inv.simps)
next
  case (failed_start io entropy fs e fs')
  then show ?thesis using cheque_inv_start [OF ok failed_start(4,5), of tr] inv by (simp del: cheque_inv.simps)
qed

lemma cheque_inv_run:
  assumes "relay_run env c p line st tr st'" "serde_ok (env_serde env)" "with_extension_tmp p \<noteq> p"
    and "st = Down fs" "hm_get fs p = None"
  shows "cheque_inv env p tr st'"
  using assms
proof (induction rule: relay_run.induct)
  case start
  then show ?case by (simp add: increasing_def paid_for_def)
next
  case step
  then show ?case using cheque_inv_step by blast
qed

end
