(* ===== verification/Book.thy ===== *)
theory Book
  imports RelayRun "HOL-Library.Multiset"
begin

text \<open>
  The specification of the paid relay, and the proof that the machine of \<^verbatim>\<open>RelayRun\<close> implements it in
  hard mode. The specification is a book of natural numbers: what each account owes, which
  reservations are live, the newest cheque of each chequebook, and what of this is saved. Words,
  saturation, hash maps, file formats and handlers are gone.
\<close>

section \<open>The specification\<close>

record book =
  bk_owed :: "bytes \<Rightarrow> nat"
  bk_live :: "(bytes \<times> nat) multiset"
  bk_held :: "bytes \<Rightarrow> (bytes \<times> nat) option"
  bk_saved :: "(bytes \<Rightarrow> nat) \<times> (bytes \<Rightarrow> (bytes \<times> nat) option)"

definition live :: "book \<Rightarrow> bytes \<Rightarrow> nat" where
  "live b a = (\<Sum>(x, n) \<in># bk_live b. if x = a then n else 0)"

definition book_empty :: book where
  "book_empty = \<lparr>bk_owed = (\<lambda>_. 0), bk_live = {#}, bk_held = (\<lambda>_. None), bk_saved = (\<lambda>_. 0, \<lambda>_. None)\<rparr>"

definition book_credit :: "bytes \<Rightarrow> bytes \<Rightarrow> nat \<Rightarrow> nat \<Rightarrow> book \<Rightarrow> book" where
  "book_credit a cb cum d b =
     (let o' = (bk_owed b)(a := bk_owed b a - d); h = (bk_held b)(cb := Some (a, cum))
      in b\<lparr>bk_owed := o', bk_held := h, bk_saved := (o', h)\<rparr>)"

definition book_crash :: "book \<Rightarrow> book" where
  "book_crash b = b\<lparr>bk_owed := fst (bk_saved b), bk_held := snd (bk_saved b), bk_live := {#}\<rparr>"

definition creditable :: "book \<Rightarrow> bytes \<Rightarrow> bytes \<Rightarrow> nat \<Rightarrow> nat \<Rightarrow> bool" where
  "creditable b a cb cum d =
     ((case bk_held b cb of
        None \<Rightarrow> 0 < cum \<and> d = cum
      | Some (a', have') \<Rightarrow> a' = a \<and> have' < cum \<and> d = cum - have') \<and> d \<le> bk_owed b a)"

text \<open>\<open>lost\<close> is a credit that reached the disk before a crash, but was never acknowledged.\<close>

inductive book_step :: "nat \<Rightarrow> book \<Rightarrow> (bytes \<times> bytes \<times> nat \<times> nat) list \<Rightarrow> book \<Rightarrow> bool" for line :: nat where
  idle: "book_step line b [] b"
| reserves: "bk_owed b a + live b a + n \<le> line \<Longrightarrow> book_step line b [] (b\<lparr>bk_live := add_mset (a, n) (bk_live b)\<rparr>)"
| releases: "(a, n) \<in># bk_live b \<Longrightarrow> book_step line b [] (b\<lparr>bk_live := bk_live b - {#(a, n)#}\<rparr>)"
| bills: "(a, n) \<in># bk_live b \<Longrightarrow> k \<le> n \<Longrightarrow>
    book_step line b [] (b\<lparr>bk_live := bk_live b - {#(a, n)#}, bk_owed := (bk_owed b)(a := bk_owed b a + k)\<rparr>)"
| saves: "book_step line b [] (b\<lparr>bk_saved := (bk_owed b, bk_held b)\<rparr>)"
| credits: "creditable b a cb cum d \<Longrightarrow> book_step line b [(a, cb, cum, d)] (book_credit a cb cum d b)"
| crashes: "book_step line b [] (book_crash b)"
| lost: "creditable b a cb cum d \<Longrightarrow> book_step line b [] (book_crash (book_credit a cb cum d b))"

inductive book_run :: "nat \<Rightarrow> book \<Rightarrow> (bytes \<times> bytes \<times> nat \<times> nat) list \<Rightarrow> book \<Rightarrow> bool" for line :: nat where
  book_start: "book_run line b [] b"
| book_more: "book_run line b tr b' \<Longrightarrow> book_step line b' new b'' \<Longrightarrow> book_run line b (tr @ new) b''"

section \<open>What the specification guarantees\<close>

definition book_inv :: "nat \<Rightarrow> book \<Rightarrow> bool" where
  "book_inv line b = ((\<forall>a. bk_owed b a + live b a \<le> line) \<and> (\<forall>a. fst (bk_saved b) a \<le> line) \<and> snd (bk_saved b) = bk_held b)"

lemma live_frame [simp]:
  "live (b\<lparr>bk_owed := x\<rparr>) = live b" "live (b\<lparr>bk_held := y\<rparr>) = live b" "live (b\<lparr>bk_saved := z\<rparr>) = live b"
  by (simp_all add: live_def fun_eq_iff)

lemma live_add [simp]: "live (b\<lparr>bk_live := add_mset (a, n) M\<rparr>) x = live (b\<lparr>bk_live := M\<rparr>) x + (if x = a then n else 0)"
  by (simp add: live_def)

lemma live_remove:
  assumes "(a, n) \<in># bk_live b"
  shows "live b x = live (b\<lparr>bk_live := bk_live b - {#(a, n)#}\<rparr>) x + (if x = a then n else 0)"
proof -
  have "bk_live b = add_mset (a, n) (bk_live b - {#(a, n)#})" using assms by simp
  then show ?thesis using live_add [of a n "bk_live b - {#(a, n)#}" b x] by simp
qed

lemma live_credit [simp]: "live (book_credit a cb cum d b) = live b"
  by (simp add: live_def book_credit_def Let_def fun_eq_iff)

lemma live_crash [simp]: "live (book_crash b) a = 0"
  by (simp add: live_def book_crash_def)

lemma book_inv_credit:
  assumes "book_inv line b"
  shows "book_inv line (book_credit a cb cum d b)"
proof -
  have "bk_owed b x + live b x \<le> line" for x using assms by (simp add: book_inv_def)
  then have "((bk_owed b)(a := bk_owed b a - d)) x + live b x \<le> line" for x
    by (cases "x = a") (fastforce intro: order_trans [OF add_right_mono [OF diff_le_self]])+
  moreover from this have "((bk_owed b)(a := bk_owed b a - d)) x \<le> line" for x by (rule add_leD1)
  ultimately show ?thesis unfolding book_inv_def live_credit by (simp add: book_credit_def Let_def)
qed

lemma book_inv_crash: "book_inv line b \<Longrightarrow> book_inv line (book_crash b)"
  by (simp add: book_inv_def) (simp add: book_crash_def)

lemma book_inv_step: "book_step line b new b' \<Longrightarrow> book_inv line b \<Longrightarrow> book_inv line b'"
proof (induction rule: book_step.induct)
  case (reserves b a n)
  then show ?case by (auto simp: book_inv_def)
next
  case (releases a n b)
  let ?b = "b\<lparr>bk_live := bk_live b - {#(a, n)#}\<rparr>"
  have "bk_owed b x + live ?b x \<le> line" for x
    using releases(2) spec [of "\<lambda>a. bk_owed b a + live b a \<le> line" x] live_remove [OF releases(1), of x]
    by (simp add: book_inv_def split: if_splits)
  then show ?case using releases(2) by (simp add: book_inv_def)
next
  case (bills a n b k)
  let ?b = "b\<lparr>bk_live := bk_live b - {#(a, n)#}\<rparr>"
  have "(if x = a then bk_owed b a + k else bk_owed b x) + live ?b x \<le> line" for x
    using bills(2,3) spec [of "\<lambda>a. bk_owed b a + live b a \<le> line" x] live_remove [OF bills(1), of x]
    by (simp add: book_inv_def split: if_splits)
  then show ?case using bills(3) by (simp add: book_inv_def)
next
  case (saves b)
  have "bk_owed b x + live b x \<le> line" for x using saves by (simp add: book_inv_def)
  then show ?case by (auto simp: book_inv_def intro: add_leD1)
qed (auto simp: book_inv_credit book_inv_crash)

lemma book_inv_run: "book_run line b tr b' \<Longrightarrow> book_inv line b \<Longrightarrow> book_inv line b'"
  by (induction rule: book_run.induct) (auto dest: book_inv_step)

lemma book_inv_empty: "book_inv line book_empty"
  by (simp add: book_inv_def book_empty_def live_def)

lemma book_run_step: "book_step line b new b' \<Longrightarrow> book_run line b new b'"
  using book_more [OF book_start] by fastforce

lemma book_run_trans: "book_run line b' tr' b'' \<Longrightarrow> book_run line b tr b' \<Longrightarrow> book_run line b (tr @ tr') b''"
  by (induction rule: book_run.induct) (auto simp flip: append_assoc intro: book_more)

section \<open>The machine implements the specification\<close>

definition held_nat :: "ledger \<Rightarrow> bytes \<Rightarrow> (bytes \<times> nat) option" where
  "held_nat l cb = map_option (\<lambda>a. (a, unat (last_cumulative l a cb))) (hm_get (binding l) cb)"

definition owed_nat :: "ledger \<Rightarrow> bytes \<Rightarrow> nat" where
  "owed_nat l = (\<lambda>a. unat (owed l a))"

definition guard_entry :: "admitted \<times> u64 \<Rightarrow> bytes \<times> nat" where
  "guard_entry = (\<lambda>(g, d). (ad_account g, unat (ad_reserved_plur g)))"

fun implements :: "relay_env \<Rightarrow> meter_config \<Rightarrow> string \<Rightarrow> book \<Rightarrow> machine \<Rightarrow> bool" where
  "implements env c p b (Up r gs) =
     (let l = mt_ledger (rl_metered r) in
      cfg (rl_metered r) = c \<and> bk_owed b = owed_nat l \<and> bk_held b = held_nat l \<and>
      bk_live b = image_mset guard_entry (mset gs) \<and> (\<forall>a. unat (reserved l a) = live b a) \<and>
      (\<forall>(g, d) \<in> set gs. ad_reserved_plur g = price_bytes (params c) d) \<and>
      (\<exists>l0. on_file env p (rl_disk r) l0 \<and> bk_saved b = (owed_nat l0, held_nat l0)))"
| "implements env c p b (Down fs) =
     (bk_live b = {#} \<and> bk_saved b = (bk_owed b, bk_held b) \<and>
      (if hm_get fs p = None then bk_owed b = (\<lambda>_. 0) \<and> bk_held b = (\<lambda>_. None)
       else \<exists>l0. on_file env p fs l0 \<and> bk_saved b = (owed_nat l0, held_nat l0)))"

definition credited_nat :: "credited list \<Rightarrow> (bytes \<times> bytes \<times> nat \<times> nat) list" where
  "credited_nat = map (\<lambda>(a, cb, cum, d). (a, cb, unat cum, unat d))"

text \<open>Readings of the operations, as numbers, where nothing saturates.\<close>

lemma held_nat_cong:
  "hm_get (binding l) = hm_get (binding l') \<Longrightarrow> held_cheque l = held_cheque l' \<Longrightarrow> held_nat l = held_nat l'"
  by (simp add: held_nat_def last_cumulative_eq fun_eq_iff)

lemma owed_nat_money [simp]:
  "owed_nat (snd (reserve l a n cap)) = owed_nat l" "owed_nat (release l a n) = owed_nat l"
  by (simp_all add: owed_nat_def owed_eq fun_eq_iff)

lemma held_nat_money [simp]:
  "held_nat (snd (reserve l a n cap)) = held_nat l" "held_nat (release l a n) = held_nat l" "held_nat (commit l a r n) = held_nat l"
  by (intro held_nat_cong; simp)+

lemma owed_nat_commit:
  "unat (owed l a) + unat n < 2 ^ 128 \<Longrightarrow> owed_nat (commit l a r n) = (owed_nat l)(a := owed_nat l a + unat n)"
  by (simp add: owed_nat_def owed_eq fun_eq_iff unat_saturating_add)

lemma reserved_reserve:
  "unat (reserved l a) + unat n < 2 ^ 128 \<Longrightarrow>
     unat (reserved (snd (reserve l a n cap)) x) = unat (reserved l x) + (if x = a then unat n else 0)"
  by (simp add: reserved_eq unat_saturating_add)

lemma reserved_release:
  "unat (reserved (release l a n) x) = unat (reserved l x) - (if x = a then unat n else 0)"
  by (simp add: reserved_eq unat_saturating_sub)

lemma reserved_commit:
  "unat (reserved (commit l a r n) x) = unat (reserved l x) - (if x = a then unat r else 0)"
  by (simp add: reserved_eq unat_saturating_sub)

lemma reserve_within:
  assumes "\<not> adm_over_cap (fst (reserve l a n cap))" "unat (owed l a) + unat (reserved l a) + unat n < 2 ^ 128"
  shows "unat (owed l a) + unat (reserved l a) + unat n \<le> unat cap"
  using assms
  by (simp add: reserve_def Let_def account_outstanding_def word_le_nat_alt not_less unat_saturating_add owed_eq reserved_eq)

lemma credit_book:
  assumes "ledger_inv l" "credit l a cb cum sig = (Inr d, l')"
    and "bk_owed b = owed_nat l" "bk_held b = held_nat l"
  shows "creditable b a cb (unat cum) (unat d)"
    "owed_nat l' = (owed_nat l)(a := owed_nat l a - unat d)" "held_nat l' = (held_nat l)(cb := Some (a, unat cum))"
    "\<And>x. reserved l' x = reserved l x"
proof -
  have *: "hm_get (binding l) cb = None \<or> hm_get (binding l) cb = Some a" "last_cumulative l a cb < cum"
    "cum - last_cumulative l a cb \<le> owed l a" "d = cum - last_cumulative l a cb" "binding l' = hm_insert cb a (binding l)"
    "ledger_account l' = (\<lambda>b. if b = a then (ledger_account l a)\<lparr>
         last_cumulative_map := hm_insert cb \<lparr>cumulative_plur = cum, cheque_signature = sig\<rparr> (last_cumulative_map (ledger_account l a)),
         owed_plur := owed l a - (cum - last_cumulative l a cb)\<rparr> else ledger_account l b)"
    using assms(2) by (cases rule: credit_cases [of cum l a cb sig]; auto)+
  have d: "unat d = unat cum - unat (last_cumulative l a cb)" "unat (last_cumulative l a cb) < unat cum" "unat d \<le> unat (owed l a)"
    using *(2-4) by (simp add: unat_sub, simp add: word_less_nat_alt, simp add: word_le_nat_alt)
  have zero: "last_cumulative l a cb = 0" if "hm_get (binding l) cb = None"
  proof -
    have "held_cheque l a cb = None" using assms(1) that unfolding ledger_inv_def by (metis option.distinct(1))
    then show ?thesis by (simp add: last_cumulative_eq)
  qed
  show "creditable b a cb (unat cum) (unat d)"
    using *(1) d zero by (auto simp: creditable_def assms(3,4) held_nat_def owed_nat_def)
  show "owed_nat l' = (owed_nat l)(a := owed_nat l a - unat d)"
    using *(3,4) by (auto simp: owed_nat_def owed_eq *(6) fun_eq_iff unat_sub)
  show "held_nat l' = (held_nat l)(cb := Some (a, unat cum))"
  proof
    fix x
    show "held_nat l' x = ((held_nat l)(cb := Some (a, unat cum))) x"
      by (cases "hm_get (binding l) x") (simp_all add: held_nat_def *(5,6) last_cumulative_eq held_cheque_eq)
  qed
  show "reserved l' x = reserved l x" for x by (simp add: reserved_eq *(6))
qed


lemma price_small:
  assumes "unat (price_plur_per_kib p) < 2 ^ 64" "unat d \<le> PUSH_MAX_BODY"
  shows "unat (price_bytes p d) < 2 ^ 127"
proof -
  have "(unat d + 1023) div 1024 \<le> (PUSH_MAX_BODY + 1023) div 1024" using assms(2) by (intro div_le_mono) simp
  also have "\<dots> \<le> 2 ^ 20"
    by (simp add: PUSH_MAX_BODY_def PUSH_BATCH_MAX_def MAX_FRAME_LEN_def HEADER_LEN_def STAMP_LEN_def MAX_WIRE_LEN_def)
  finally have "(unat d + 1023) div 1024 * unat (price_plur_per_kib p) \<le> 2 ^ 20 * 2 ^ 64"
    using assms(1) by (intro mult_le_mono) auto
  then show ?thesis unfolding unat_price_bytes [OF assms(1)] by (rule order_le_less_trans) simp
qed

lemma price_mono:
  assumes "unat (price_plur_per_kib p) < 2 ^ 64" "unat n \<le> unat d"
  shows "unat (price_bytes p n) \<le> unat (price_bytes p d)"
  unfolding unat_price_bytes [OF assms(1)] using assms(2) by (intro mult_le_mono1 div_le_mono) simp

lemma guard_in_live:
  "(g, d) \<in> set gs \<Longrightarrow> (ad_account g, unat (ad_reserved_plur g)) \<in># image_mset guard_entry (mset gs)"
  by (force simp: guard_entry_def)

lemma guards_removed:
  "(g, d) \<in> set gs \<Longrightarrow> image_mset guard_entry (mset (remove1 (g, d) gs)) =
     image_mset guard_entry (mset gs) - {#(ad_account g, unat (ad_reserved_plur g))#}"
  by (simp add: image_mset_Diff guard_entry_def)

text \<open>What the proof of each kind of step has at hand.\<close>

definition hard_limits :: "meter_config \<Rightarrow> u128 \<Rightarrow> bool" where
  "hard_limits c line = (hard_mode c \<and> unat (price_plur_per_kib (params c)) < 2 ^ 64 \<and> unat line < 2 ^ 127)"

lemma implements_room:
  assumes "hard_limits c line" "book_inv (unat line) b" "implements env c p b (Up r gs)" "unat d \<le> PUSH_MAX_BODY"
  shows "unat (owed (mt_ledger (rl_metered r)) a) + unat (reserved (mt_ledger (rl_metered r)) a) + unat (price_bytes (params c) d) < 2 ^ 128"
proof -
  have "unat (owed (mt_ledger (rl_metered r)) a) + unat (reserved (mt_ledger (rl_metered r)) a) \<le> unat line"
    using assms(2,3) by (auto simp: book_inv_def owed_nat_def Let_def)
  then show ?thesis
    using assms(1) price_small [of "params c" d] assms(4) by (simp add: hard_limits_def)
qed

lemma simulates_not_admitted:
  assumes "hard_limits c line" "book_inv (unat line) b" "implements env c p b (Up r gs)"
    and "admit_metered env (rl_metered r) h cl t now = (res, m')" "\<And>g. res \<noteq> Inr (Some g)"
  shows "implements env c p b (Up (r\<lparr>rl_metered := m'\<rparr>) gs)"
  using assms(4)
proof (cases rule: admit_metered_cases)
  case untouched
  then show ?thesis using assms(3) by (simp add: Let_def)
next
  case (over v d)
  have c: "cfg (rl_metered r) = c" using assms(3) by (simp add: Let_def)
  have "unat (reserved (mt_ledger m') x) = unat (reserved (mt_ledger (rl_metered r)) x)" for x
    using implements_room [OF assms(1-3) over(5), of "vc_account v"]
    by (simp add: over(8) reserved_release reserved_reserve c)
  then show ?thesis using assms(3) over by (simp add: Let_def)
next
  case reserved
  then show ?thesis using assms(5) by simp
qed

lemma simulates_admitted:
  assumes "hard_limits c line" "book_inv (unat line) b" "implements env c p b (Up r gs)"
    and "admit_metered env (rl_metered r) h cl t now = (Inr (Some g), m')" "Option.bind cl uint_from_str = Some d"
    and "\<And>v. verify_header env (rl_metered r) (case h of None \<Rightarrow> [] | Some s \<Rightarrow> s) t = Inr v \<Longrightarrow> vc_cap_plur v \<le> line"
  shows "\<exists>b'. book_step (unat line) b [] b' \<and> implements env c p b' (Up (r\<lparr>rl_metered := m'\<rparr>) ((g, d) # gs))"
  using assms(4)
proof (cases rule: admit_metered_cases)
  case (reserved v declared)
  let ?l = "mt_ledger (rl_metered r)" and ?n = "price_bytes (params c) d"
  let ?b = "b\<lparr>bk_live := add_mset (vc_account v, unat ?n) (bk_live b)\<rparr>"
  have c: "cfg (rl_metered r) = c" and d: "declared = d" and line: "vc_cap_plur v \<le> line" and hard: "hard_mode c"
    using assms(1,3,5,6) reserved by (auto simp: Let_def hard_limits_def)
  note room = implements_room [OF assms(1-3) reserved(4), of "vc_account v", unfolded d]
  have "unat (owed ?l (vc_account v)) + unat (reserved ?l (vc_account v)) + unat ?n \<le> unat (vc_cap_plur v)"
    using reserve_within [OF _ room] reserved(5) hard by (simp add: c d)
  also have "\<dots> \<le> unat line" using line by (simp add: word_le_nat_alt)
  finally have "book_step (unat line) b [] ?b"
    using assms(3) by (intro book_step.reserves) (simp add: Let_def owed_nat_def)
  moreover have "implements env c p ?b (Up (r\<lparr>rl_metered := m'\<rparr>) ((g, d) # gs))"
    using assms(3) reserved room by (simp add: Let_def c d guard_entry_def reserved_reserve live_def)
  ultimately show ?thesis by blast
qed (simp_all del: implements.simps, blast)

lemma simulates_commit:
  assumes "hard_limits c line" "book_inv (unat line) b" "implements env c p b (Up r gs)" "(g, d) \<in> set gs"
    and "unat n \<le> unat d"
    and l': "l' = commit (mt_ledger (rl_metered r)) (ad_account g) (ad_reserved_plur g) (price_bytes (params c) n)"
  obtains b' where "book_step (unat line) b [] b'" "bk_saved b' = bk_saved b" "bk_owed b' = owed_nat l'" "bk_held b' = held_nat l'"
    "bk_live b' = image_mset guard_entry (mset (remove1 (g, d) gs))" "\<And>a. unat (reserved l' a) = live b' a"
proof -
  let ?l = "mt_ledger (rl_metered r)" and ?a = "ad_account g"
  let ?k = "unat (price_bytes (params c) n)" and ?res = "unat (ad_reserved_plur g)"
  let ?b1 = "b\<lparr>bk_live := bk_live b - {#(?a, ?res)#}\<rparr>"
  let ?b = "b\<lparr>bk_live := bk_live b - {#(?a, ?res)#}, bk_owed := (bk_owed b)(?a := bk_owed b ?a + ?k)\<rparr>"
  have b: "bk_owed b = owed_nat ?l" "bk_held b = held_nat ?l" "bk_live b = image_mset guard_entry (mset gs)"
      "\<And>a. unat (reserved ?l a) = live b a" "ad_reserved_plur g = price_bytes (params c) d"
    using assms(3,4) by (auto simp: Let_def)
  have mem: "(?a, ?res) \<in># bk_live b" using guard_in_live [OF assms(4)] by (simp add: b)
  have le: "?k \<le> ?res" using price_mono [OF _ assms(5), of "params c"] assms(1) by (simp add: b(5) hard_limits_def)
  have bound: "bk_owed b ?a + live b ?a \<le> unat line" using assms(2) by (simp add: book_inv_def)
  have "live b ?a = live ?b1 ?a + ?res" using live_remove [OF mem, of ?a] by simp
  then have "bk_owed b ?a + ?k \<le> unat line" using bound le by linarith
  then have "unat (owed ?l ?a) + ?k < 2 ^ 128"
    using assms(1) by (simp add: b(1) owed_nat_def hard_limits_def)
  then have "owed_nat l' = (owed_nat ?l)(?a := owed_nat ?l ?a + ?k)" unfolding l' by (rule owed_nat_commit)
  moreover have "unat (reserved l' x) = live ?b x" for x
    using live_remove [OF mem, of x] unfolding l' reserved_commit b(4) live_frame by (cases "x = ?a") simp_all
  moreover have "held_nat l' = held_nat ?l" by (simp add: l')
  ultimately show thesis
    using guards_removed [OF assms(4)] b(1-3) by (intro that [of ?b] book_step.bills [OF mem le]) simp_all
qed

lemma guards_priced:
  assumes "implements env c p b (Up r gs)"
  shows "\<forall>(g, d) \<in> set (remove1 x gs). ad_reserved_plur g = price_bytes (params c) d"
  using assms set_remove1_subset [of x gs] by (simp add: Let_def) blast

lemma simulates_body:
  assumes "hard_limits c line" "book_inv (unat line) b" "implements env c p b (Up r gs)" "cheque_inv env p tr (Up r gs)"
    and ok: "with_extension_tmp p \<noteq> p" and g: "(g, d) \<in> set gs" "\<And>bs. body = Body bs \<Longrightarrow> length bs \<le> unat d"
    and run: "push_body env rpc io now (Some g) body r = (res, r')"
  shows "\<exists>b'. book_run (unat line) b [] b' \<and> implements env c p b' (Up r' (remove1 (g, d) gs))"
  using run
proof (cases rule: push_body_cases)
  case dropped
  let ?l = "mt_ledger (rl_metered r)" and ?a = "ad_account g" and ?res = "unat (ad_reserved_plur g)"
  let ?b = "b\<lparr>bk_live := bk_live b - {#(?a, ?res)#}\<rparr>"
  have mem: "(?a, ?res) \<in># bk_live b" using guard_in_live [OF g(1)] assms(3) by (simp add: Let_def)
  have "unat (reserved (mt_ledger (rl_metered r')) x) = live ?b x" for x
    using live_remove [OF mem, of x] assms(3) by (simp add: dropped(1) reserved_release Let_def)
  then have "implements env c p ?b (Up r' (remove1 (g, d) gs))"
    using assms(3) dropped guards_removed [OF g(1)] guards_priced [OF assms(3)] by (auto simp: Let_def)
  then show ?thesis using book_run_step [OF book_step.releases [OF mem]] by blast
next
  case (billed bs n acc)
  let ?l' = "mt_ledger (rl_metered r')"
  have c: "cfg (rl_metered r) = c" using assms(3) by (simp add: Let_def)
  have nd: "unat n \<le> unat d" using billed(1,2) g(2) by fastforce
  obtain b' where b': "book_step (unat line) b [] b'" "bk_saved b' = bk_saved b" "bk_owed b' = owed_nat ?l'" "bk_held b' = held_nat ?l'"
      "bk_live b' = image_mset guard_entry (mset (remove1 (g, d) gs))" "\<And>a. unat (reserved ?l' a) = live b' a"
    using simulates_commit [OF assms(1-3) g(1) nd] billed(4) c by metis
  obtain l0 where l0: "on_file env p (rl_disk r) l0" "bk_saved b = (owed_nat l0, held_nat l0)"
    using assms(3) by (auto simp: Let_def)
  have "on_file env p (rl_disk r') l0 \<or> on_file env p (rl_disk r') ?l'"
    using push_body_ledger [OF run _ _ _ _ l0(1) ok] assms(4) g(1) by (auto simp: Let_def)
  then have "implements env c p b' (Up r' (remove1 (g, d) gs)) \<or>
      implements env c p (b'\<lparr>bk_saved := (bk_owed b', bk_held b')\<rparr>) (Up r' (remove1 (g, d) gs))"
    using b' l0 billed(5) c guards_priced [OF assms(3)] by (auto simp: Let_def)
  then show ?thesis
    using book_run_step [OF b'(1)] book_more [OF book_run_step [OF b'(1)] book_step.saves]
    by (auto simp del: implements.simps)
qed

lemma implements_crash:
  assumes "on_file env p fs l0" "bk_saved b = (owed_nat l0, held_nat l0)"
  shows "implements env c p (book_crash b) (Down fs)"
  using assms by (auto simp: book_crash_def on_file_def)

lemma book_credit_readings:
  "bk_live (book_credit a cb cum d b) = bk_live b"
  "bk_owed (book_credit a cb cum d b) = (bk_owed b)(a := bk_owed b a - d)"
  "bk_held (book_credit a cb cum d b) = (bk_held b)(cb := Some (a, cum))"
  "bk_saved (book_credit a cb cum d b) = ((bk_owed b)(a := bk_owed b a - d), (bk_held b)(cb := Some (a, cum)))"
  by (simp_all add: book_credit_def Let_def)

lemma simulates_credit:
  assumes impl: "implements env c p b (Up r gs)" and inv: "cheque_inv env p tr (Up r gs)"
    and ok: "with_extension_tmp p \<noteq> p" and sz: "length a = 20" "length cb = 20" "length sig = 65"
    and m: "mt_ledger m = mt_ledger (rl_metered r)" "cfg m = cfg (rl_metered r)"
    and run: "metered_credit (env_serde env) io m (rl_disk r) a cb cum sig = (out, m', rl_disk r')"
    and r': "mt_ledger (rl_metered r') = mt_ledger m'" "cfg (rl_metered r') = cfg m'"
  shows "\<exists>b'. book_step line b (credited_nat (case out of Inl e \<Rightarrow> [] | Inr d \<Rightarrow> [(a, cb, cum, d)])) b' \<and>
    implements env c p b' (Up r' gs)"
proof -
  let ?l = "mt_ledger (rl_metered r)"
  obtain l0 where l0: "on_file env p (rl_disk r) l0" "bk_saved b = (owed_nat l0, held_nat l0)"
    and l: "ledger_inv ?l" "ledger_sized ?l" "path ?l = Some p"
    using impl inv by (auto simp: Let_def)
  from l l0(1) ok sz run show ?thesis unfolding m(1) [symmetric]
  proof (cases rule: metered_credit_cases)
    case (failed e)
    then have "owed_nat (mt_ledger m') = owed_nat ?l" "held_nat (mt_ledger m') = held_nat ?l" "reserved (mt_ledger m') = reserved ?l"
      using held_nat_cong [of "mt_ledger m'" ?l] m(1) by (auto simp: ledger_eqv_def owed_nat_def)
    then have "implements env c p b (Up r' gs)"
      using impl failed l0 m r' by (auto simp: Let_def)
    then show ?thesis using failed(1) book_step.idle by (auto simp: credited_nat_def simp del: implements.simps)
  next
    case (paid d)
    have b: "bk_owed b = owed_nat ?l" "bk_held b = held_nat ?l" using impl by (auto simp: Let_def)
    note cr = credit_book [OF l(1) paid(2) [unfolded m(1)] b]
    have "implements env c p (book_credit a cb (unat cum) (unat d) b) (Up r' gs)"
      using impl paid cr(2-4) b m r' by (auto simp: Let_def book_credit_readings)
    then show ?thesis using paid(1) book_step.credits [OF cr(1)] by (auto simp: credited_nat_def simp del: implements.simps)
  qed
qed

lemma simulates_start:
  assumes "serde_ok (env_serde env)" "with_extension_tmp p \<noteq> p"
    and ld: "load_or_create (env_serde env) io entropy p fs = (res, fs')" and e: "length entropy = 32"
    and impl: "implements env c p b (Down fs)"
  shows "case res of Inl e \<Rightarrow> implements env c p b (Down fs')
    | Inr l \<Rightarrow> implements env c p b (Up \<lparr>rl_metered = metered_new c l, rl_disk = fs', rl_meter = mt, rl_owner_cache = oc, rl_recent = rc\<rparr> [])"
proof (cases "hm_get fs p")
  case None
  let ?fresh = "(ephemeral entropy)\<lparr>path := Some p\<rparr>"
  have f: "ledger_inv ?fresh" "ledger_sized ?fresh" "path ?fresh = Some p" "owed_nat ?fresh = (\<lambda>_. 0)"
      "held_nat ?fresh = (\<lambda>_. None)" "reserved ?fresh = (\<lambda>_. 0)"
    using e by (simp_all add: ephemeral_def ledger_inv_def ledger_account_def default_account_def held_cheque_def
        last_cumulative_def ledger_sized_def owed_nat_def owed_def reserved_def held_nat_def fun_eq_iff)
  obtain w fs1 where w: "persist (env_serde env) io ?fresh fs = (w, fs1)" by fastforce
  show ?thesis
  proof (cases w)
    case (Inl x)
    then have "hm_get fs1 p = None" using persist_failed_keeps_file [of "env_serde env" io ?fresh fs x fs1 p] w assms(2) None by simp
    then show ?thesis using ld None w Inl impl by (auto simp: load_or_create_def Let_def)
  next
    case (Inr u)
    then have "on_file env p fs1 ?fresh"
      using persist_ok_contents [of "env_serde env" io ?fresh fs u fs1 p] w f by (auto simp: on_file_def)
    then have "\<exists>l0. on_file env p fs1 l0 \<and> bk_saved b = (owed_nat l0, held_nat l0)" using impl None f by auto
    then show ?thesis
      using ld None w Inr impl f by (auto simp: load_or_create_def Let_def metered_new_def live_def)
  qed
next
  case (Some doc)
  then obtain l0 where l0: "on_file env p fs l0" "bk_saved b = (owed_nat l0, held_nat l0)" using impl by auto
  then obtain l' where l': "load_disk (env_serde env) p doc = Inr l'" "ledger_restarted l0 l'"
    using load_disk_reloads [OF assms(1), of l0 doc p] Some by (auto simp: on_file_def)
  have "owed_nat l' = owed_nat l0" "held_nat l' = held_nat l0" "reserved l' = (\<lambda>_. 0)"
    using l'(2) held_nat_cong [of l' l0] by (auto simp: ledger_restarted_def owed_nat_def)
  then show ?thesis
    using ld Some impl l0 by (auto simp: load_or_create_def l'(1) Let_def metered_new_def live_def split: if_splits) metis+
qed


lemma simulates_step:
  assumes ok: "serde_ok (env_serde env)" "with_extension_tmp p \<noteq> p" and hard: "hard_limits c line"
    and step: "relay_step env c p line st new st'"
    and inv: "cheque_inv env p tr st" "book_inv (unat line) b" "implements env c p b st"
  shows "\<exists>b'. book_run (unat line) b (credited_nat new) b' \<and> implements env c p b' st'"
  using step
proof cases
  case admitted
  then show ?thesis
    using simulates_admitted [OF hard inv(2)] inv(3) book_run_step
    by (simp add: credited_nat_def del: implements.simps) metis
next
  case not_admitted
  then show ?thesis
    using simulates_not_admitted [OF hard inv(2)] inv(3) book_start
    by (simp add: credited_nat_def del: implements.simps) metis
next
  case (body g d gs body rpc io now r res r')
  then show ?thesis
    using simulates_body [OF hard inv(2) _ _ ok(2), of env r gs tr g d body rpc io now res r'] inv(1,3)
    by (simp add: credited_nat_def del: implements.simps cheque_inv.simps)
next
  case (open_body rpc io now body r res r' gs)
  then have "implements env c p b (Up r' gs)" using inv push_body_open [OF open_body(4)] by (simp add: Let_def)
  then show ?thesis using open_body book_start by (auto simp: credited_nat_def simp del: implements.simps)
next
  case (challenge rpc q ip t now r res r' gs)
  then have "implements env c p b (Up r' gs)" using inv challenge_response_frame [OF challenge(4)] by (simp add: Let_def)
  then show ?thesis using challenge book_start by (auto simp: credited_nat_def simp del: implements.simps)
next
  case (pay rpc io clk h body r res cr r' gs)
  from pay(4) show ?thesis
  proof (cases rule: pay_response_cases)
    case untouched
    then have "implements env c p b (Up r' gs)" using inv pay by (simp add: Let_def)
    then show ?thesis using pay untouched(1) book_start by (auto simp: credited_nat_def simp del: implements.simps)
  next
    case (credited m a cb cum sig out m')
    then have "(case cr of None \<Rightarrow> [] | Some x \<Rightarrow> [x]) = (case out of Inl e \<Rightarrow> [] | Inr d \<Rightarrow> [(a, cb, cum, d)])"
      by (auto split: sum.splits)
    then show ?thesis
      using simulates_credit [OF _ _ ok(2) credited(1-8), of c b gs tr "unat line"] inv(1,3) pay
      by (auto simp del: implements.simps cheque_inv.simps intro: book_run_step)
  qed
next
  case (credit a cb sig io r cum out m' fs' gs)
  then show ?thesis
    using simulates_credit [OF _ _ ok(2) credit(4-6) refl refl, of env c b r gs tr io cum out m' "r\<lparr>rl_metered := m', rl_disk := fs'\<rparr>" "unat line"]
      inv(1,3) by (auto simp del: implements.simps cheque_inv.simps intro: book_run_step)
next
  case (crash r gs)
  obtain l0 where "on_file env p (rl_disk r) l0" "bk_saved b = (owed_nat l0, held_nat l0)"
    using inv(3) crash by (auto simp: Let_def)
  then show ?thesis
    using implements_crash book_run_step [OF book_step.crashes] crash
    by (simp add: credited_nat_def del: implements.simps) metis
next
  case (crash_in_commit g d gs bs rpc io now r acc r' fs')
  let ?l' = "mt_ledger (rl_metered r')"
  obtain l0 where l0: "on_file env p (rl_disk r) l0" "bk_saved b = (owed_nat l0, held_nat l0)"
    and l: "ledger_inv (mt_ledger (rl_metered r))" "ledger_sized (mt_ledger (rl_metered r))" "path (mt_ledger (rl_metered r)) = Some p"
      "length (ad_account g) = 20" and c: "cfg (rl_metered r) = c"
    using inv(1,3) crash_in_commit by (auto simp: Let_def)
  have l': "ledger_inv ?l'" "ledger_sized ?l'" "path ?l' = Some p"
    using push_body_ledger [OF crash_in_commit(6) l(4,1-3) l0(1) ok(2)] by auto
  from crash_in_commit(6) obtain n where n: "unat n \<le> length bs"
      "?l' = commit (mt_ledger (rl_metered r)) (ad_account g) (ad_reserved_plur g) (price_bytes (params c) n)"
    by (cases rule: push_body_cases) (auto simp: c)
  have nd: "unat n \<le> unat d" using n(1) crash_in_commit(5) by simp
  obtain b' where b': "book_step (unat line) b [] b'" "bk_owed b' = owed_nat ?l'" "bk_held b' = held_nat ?l'"
    using simulates_commit [OF hard inv(2) _ crash_in_commit(4) nd n(2), of env p] inv(3) crash_in_commit(1) by blast
  let ?s = "b'\<lparr>bk_saved := (bk_owed b', bk_held b')\<rparr>"
  have "book_run (unat line) b [] (book_crash b)" "book_run (unat line) b [] (book_crash ?s)"
    using book_run_step [OF book_step.crashes] book_more [OF book_more [OF book_run_step [OF b'(1)] book_step.saves] book_step.crashes]
    by simp_all
  moreover have "implements env c p (book_crash b) (Down fs') \<or> implements env c p (book_crash ?s) (Down fs')"
    using persist_on_file [OF l0(1) l' ok(2) crash_in_commit(7)] implements_crash [of env p fs' l0 b] implements_crash [of env p fs' ?l' ?s] l0(2) b'(2,3)
    by (auto simp del: implements.simps)
  ultimately show ?thesis using crash_in_commit(2,3) by (auto simp: credited_nat_def simp del: implements.simps)
next
  case (crash_in_credit a cb sig r cum d l' fs' io gs)
  let ?l = "mt_ledger (rl_metered r)"
  obtain l0 where l0: "on_file env p (rl_disk r) l0" "bk_saved b = (owed_nat l0, held_nat l0)"
    and l: "ledger_inv ?l" "ledger_sized ?l" "path ?l = Some p" and b: "bk_owed b = owed_nat ?l" "bk_held b = held_nat ?l"
    using inv(1,3) crash_in_credit by (auto simp: Let_def)
  have l': "ledger_inv l'" "ledger_sized l'" "path l' = Some p"
    using ledger_inv_credit [OF l(1), of a cb cum sig] ledger_sized_credit [OF l(2) crash_in_credit(4-6), of cum]
      credit_path [of ?l a cb cum sig] l(3) crash_in_credit(7) by auto
  note cr = credit_book [OF l(1) crash_in_credit(7) b]
  let ?b = "book_credit a cb (unat cum) (unat d) b"
  have "implements env c p (book_crash b) (Down fs') \<or> implements env c p (book_crash ?b) (Down fs')"
    using persist_on_file [OF l0(1) l' ok(2) crash_in_credit(8)] implements_crash [of env p fs' l0 b] implements_crash [of env p fs' l' ?b]
      l0(2) cr(2,3) b by (auto simp: book_credit_readings simp del: implements.simps)
  then show ?thesis
    using crash_in_credit(2,3) book_run_step [OF book_step.crashes] book_run_step [OF book_step.lost [OF cr(1)]]
    by (auto simp: credited_nat_def simp del: implements.simps)
next
  case (restart io entropy fs l fs' mt oc rc)
  then show ?thesis
    using simulates_start [OF ok restart(4,5), of c b mt oc rc] inv book_start
    by (auto simp: credited_nat_def simp del: implements.simps)
next
  case (failed_start io entropy fs e fs')
  then show ?thesis
    using simulates_start [OF ok failed_start(4,5), of c b] inv book_start
    by (auto simp: credited_nat_def simp del: implements.simps)
qed

end
