(* ===== verification/Demo.thy ===== *)
theory Demo
  imports Book "HOL-Library.Countable"
begin

text \<open>
  An example relay and a run of it: start, a paid upload, two cheques. It shows that the hypotheses
  of the properties about runs can hold.
\<close>

section \<open>An example environment\<close>

text \<open>
  Concrete stand-ins for the packages outside the repository, used only to show that the hypotheses
  of the properties can hold: a hash and a key recovery that always answer the same, a header
  parser that always reads the same challenge, and an injective document format.
\<close>

definition disk_tuple :: "on_disk \<Rightarrow> nat \<times> string \<times> (string \<times> string \<times> (string \<times> string \<times> string) list) list \<times> (string \<times> string) list" where
  "disk_tuple d = (version d, secret_hex d, map (\<lambda>a. (od_account a, od_owed_plur a, od_last_cumulative a)) (od_accounts d), od_binding d)"

definition tuple_disk :: "nat \<times> string \<times> (string \<times> string \<times> (string \<times> string \<times> string) list) list \<times> (string \<times> string) list \<Rightarrow> on_disk" where
  "tuple_disk = (\<lambda>(v, s, as, bs). \<lparr>version = v, secret_hex = s,
     od_accounts = map (\<lambda>(a, w, c). \<lparr>od_account = a, od_owed_plur = w, od_last_cumulative = c\<rparr>) as, od_binding = bs\<rparr>)"

definition number_serde :: serde where
  "number_serde =
     \<lparr>hex_encode = plain_hex_encode, hex_decode = plain_hex_decode,
      json_encode = (\<lambda>d. Some (nat_to_dec (to_nat (disk_tuple d)))),
      json_decode = (\<lambda>t. map_option (\<lambda>n. tuple_disk (from_nat n)) (parse_digits 0 t))\<rparr>"

lemma tuple_disk_tuple: "tuple_disk (disk_tuple d) = d"
  by (cases d) (simp add: tuple_disk_def disk_tuple_def comp_def map_idI)

lemma serde_ok_number: "serde_ok number_serde"
  by (simp add: serde_ok_def number_serde_def plain_hex_roundtrip plain_hex_no_x parse_digits_nat_to_dec tuple_disk_tuple)

definition demo_crypto :: crypto where
  "demo_crypto = toy_crypto\<lparr>keccak := (\<lambda>_. replicate 12 0 @ replicate 20 1)\<rparr>"

definition demo_challenge :: json where
  "demo_challenge = JObject
     [(''account'', JString ''a''), (''batch'', JString ''b''), (''nonce'', JString ''n''), (''sig'', JString ''s''),
      (''expiry'', JInt 1000), (''max_outstanding_plur'', JString (uint_to_string (1000000000000 :: u128))),
      (''origin'', JString ''relay.example'')]"

definition demo_codec :: cheque_codec where
  "demo_codec =
     \<lparr>wc_hex_encode = plain_hex_encode,
      wc_hex_decode = (\<lambda>s. if s = ''a'' then Some (replicate 20 1) else if s = ''b'' then Some (replicate 32 2)
        else if s = ''n'' then Some (replicate 12 0 @ replicate 20 1) else if s = ''s'' then Some (replicate 65 27) else None),
      b64_encode = id, b64_decode = (\<lambda>s. Some (as_bytes s)), json_print = (\<lambda>_. []), json_parse = (\<lambda>_. Some demo_challenge),
      sig_encode = (\<lambda>_. []), sig_decode = (\<lambda>_. None)\<rparr>"

definition demo_env :: relay_env where
  "demo_env = \<lparr>env_crypto = demo_crypto, env_codec = demo_codec, env_serde = number_serde, env_fl = id\<rparr>"

definition demo_relay :: "ledger \<Rightarrow> fs \<Rightarrow> relay" where
  "demo_relay l fs = \<lparr>rl_metered = metered_new demo_config l, rl_disk = fs, rl_meter = meter_new 0 8192,
     rl_owner_cache = fifo_new 10, rl_recent = fifo_new 10\<rparr>"

lemma demo_canonical: "check_canonical_signature (replicate 65 27) = Inr ()"
proof -
  have "replicate 32 (27 :: byte) = 27 # replicate 31 27" by (simp flip: replicate_Suc)
  then have "\<not> replicate 32 (27 :: byte) > SECP256K1N_HALF" by (simp add: SECP256K1N_HALF_def)
  then show ?thesis by (simp add: check_canonical_signature_def)
qed

lemma demo_presented:
  "presented_decode (wire_codec.truncate demo_codec) ''h'' = Inr \<lparr>pr_fields = \<lparr>cf_account = replicate 20 1,
     cf_batch = replicate 32 2, cf_origin = ''relay.example'', cf_expiry_unix = 1000, cf_cap_plur = 1000000000000\<rparr>,
     pr_nonce = replicate 12 0 @ replicate 20 1, pr_sig = replicate 65 27\<rparr>"
  by (simp add: presented_decode_def demo_codec_def wire_codec.defs demo_challenge_def bind_sum_def get_fixed_def get_str_def
      json_get_def as_str_def as_u64_def trim_0x.simps)

lemma demo_verified:
  "cfg m = demo_config \<Longrightarrow> verify_header demo_env m ''h'' 900 =
     Inr \<lparr>vc_account = replicate 20 1, vc_batch = replicate 32 2, vc_cap_plur = 1000000000000\<rparr>"
  by (simp add: verify_header_def demo_env_def demo_presented MAX_CHALLENGE_HEADER_def verify_def demo_config_def nonce_def
      preimage_def demo_crypto_def toy_crypto_def constant_time_eq_iff recover_push_challenge_def demo_canonical
      recover_typed_def point_address_def)


definition demo_path :: string where "demo_path = ''s/ledger.json''"

definition fresh_ledger :: ledger where
  "fresh_ledger = (ephemeral (replicate 32 4))\<lparr>path := Some demo_path\<rparr>"

definition demo_frame :: stamped_chunk where
  "demo_frame = \<lparr>addr = replicate 32 3, wire = replicate 10 5, stamp = replicate 32 2 @ replicate 16 0 @ replicate 65 27\<rparr>"

definition demo_guard :: "admitted" where
  "demo_guard = \<lparr>ad_account = replicate 20 1, ad_batch = replicate 32 2, ad_reserved_plur = 480000000\<rparr>"

definition demo_chain :: chain_rpc where
  "demo_chain = \<lparr>rpc_read_batch = (\<lambda>_. Inr \<lparr>bi_not_found = False, bi_depth = 17, bi_owner = replicate 20 1\<rparr>),
     rpc_remaining_balance = (\<lambda>_. Inr 1000), rpc_deployed = (\<lambda>_ _. Inr True),
     rpc_chequebook = (\<lambda>_ _. Inl ''down'')\<rparr>"

lemma demo_tmp: "with_extension_tmp demo_path \<noteq> demo_path"
  unfolding demo_path_def by code_simp

lemma number_persists: "\<exists>fs'. persist number_serde demo_io l fs = (Inr (), fs')"
  by (simp add: persist_def number_serde_def demo_io_def Let_def split: option.split)

lemma demo_restart:
  obtains fs where "load_or_create (env_serde demo_env) demo_io (replicate 32 4) demo_path [] = (Inr fresh_ledger, fs)"
  using number_persists [of fresh_ledger "[]"]
  by (auto simp: load_or_create_def demo_env_def Let_def fresh_ledger_def [symmetric])

lemma demo_price: "price_bytes (params demo_config) n = 480000000" if "0 < unat n" "unat n \<le> 1024"
proof -
  have "(unat n + 1023) div 1024 = 1" using that by simp
  then have "unat (price_bytes (params demo_config) n) = unat (480000000 :: u128)"
    by (subst unat_price_bytes) (simp_all add: demo_config_def default_params_def PRICE_PLUR_PER_KIB_def)
  then show ?thesis by (simp only: word_unat_eq_iff)
qed

lemma demo_admitted:
  obtains m' where "admit_metered demo_env (metered_new demo_config fresh_ledger) (Some ''h'') (Some (uint_to_string (200 :: u64))) 900 0 =
      (Inr (Some demo_guard), m')" "cfg m' = demo_config"
    "mt_ledger m' = snd (reserve fresh_ledger (replicate 20 1) 480000000 1000000000000)"
proof -
  let ?m = "metered_new demo_config fresh_ledger"
  obtain m1 where m1: "allow_account demo_env 0 ?m (replicate 20 1) = (True, m1)"
    by (simp add: metered_new_def allow_account_def allow_at_def il_new_def)
  have fr: "mt_ledger m1 = fresh_ledger" "cfg m1 = demo_config"
    using allow_account_frame [OF m1] by (auto simp: metered_new_def)
  have shed: "\<not> shed_reservations m1"
    by (simp add: shed_reservations_def fr live_reservations_def fresh_ledger_def ephemeral_def MAX_LIVE_RESERVATIONS_def)
  have size: "200 \<le> PUSH_MAX_BODY"
    by (simp add: PUSH_MAX_BODY_def PUSH_BATCH_MAX_def MAX_FRAME_LEN_def HEADER_LEN_def STAMP_LEN_def MAX_WIRE_LEN_def)
  have within: "\<not> adm_over_cap (fst (reserve fresh_ledger (replicate 20 1) 480000000 1000000000000))"
    by (simp add: reserve_def Let_def account_outstanding_def ledger_account_def default_account_def fresh_ledger_def ephemeral_def
        saturating_add_def)
  have n: "adm_reserved_plur (fst (reserve l a n c)) = n" for l a n c by (simp add: reserve_def Let_def)
  show thesis
    using that [of "m1\<lparr>mt_ledger := snd (reserve fresh_ledger (replicate 20 1) 480000000 1000000000000)\<rparr>"]
      m1 fr shed size within demo_price [of 200]
    by (simp add: admit_metered_def demo_verified metered_new_def reserve_for_body_def case_prod_beta Let_def n demo_guard_def)
qed

lemma demo_chunk_ok: "chunk_ok demo_frame"
  by (simp add: chunk_ok_def demo_frame_def STAMP_LEN_def MAX_WIRE_LEN_def)

lemma demo_stamp:
  "\<exists>vs. validate_stamp demo_crypto (addr demo_frame) (stamp demo_frame) = Inr vs \<and> vs_batch_id vs = replicate 32 2 \<and>
     vs_signer vs = replicate 20 1"
  by (simp add: validate_stamp_def demo_frame_def STAMP_SIZE_def recover_secp256k1_address_def demo_crypto_def toy_crypto_def
      point_address_def nth_append)

lemma demo_billable:
  "pa_billable (push_chunk demo_env demo_chain 0 (fifo_new n) (Some demo_guard) (push_acc_init (fifo_new k)) demo_frame) = 157"
proof -
  obtain vs where vs: "validate_stamp demo_crypto (addr demo_frame) (stamp demo_frame) = Inr vs" "vs_batch_id vs = replicate 32 2"
      "vs_signer vs = replicate 20 1" using demo_stamp by blast
  show ?thesis
    by (simp add: push_chunk_def demo_env_def vs demo_codec_def push_acc_init_def resolve_owner_def owner_get_def fifo_new_def demo_chain_def
        PUSH_MAX_BATCH_LOOKUPS_def Let_def admit_frame_def recent_contains_def demo_guard_def HEADER_LEN_def STAMP_LEN_def)
     (simp add: demo_frame_def)
qed

lemma demo_body:
  obtains bs acc r' where "length bs \<le> 200"
    "push_body demo_env demo_chain demo_io 0 (Some demo_guard) (Body bs) (demo_relay l fs\<lparr>rl_metered := m\<rparr>) = (Inr acc, r')"
    "mt_ledger (rl_metered r') = commit (mt_ledger m) (replicate 20 1) 480000000 (price_bytes (params (cfg m)) 157)"
proof -
  let ?bs = "encode_batch [demo_frame]"
  have len: "length ?bs = 157"
    using sum_frame_lengths [of "[demo_frame]"] demo_chunk_ok by (simp add: HEADER_LEN_def STAMP_LEN_def) (simp add: demo_frame_def)
  have dec: "decode_batch ?bs PUSH_BATCH_MAX = Inr [demo_frame]"
    using decode_loop_exact [of "[]" PUSH_BATCH_MAX ?bs 0 "[demo_frame]"] demo_chunk_ok
    unfolding decode_batch_def encode_batch_concat by (simp add: PUSH_BATCH_MAX_def)
  have max: "157 \<le> PUSH_MAX_BODY"
    by (simp add: PUSH_MAX_BODY_def PUSH_BATCH_MAX_def MAX_FRAME_LEN_def HEADER_LEN_def STAMP_LEN_def MAX_WIRE_LEN_def)
  obtain acc r' where run: "push_body demo_env demo_chain demo_io 0 (Some demo_guard) (Body ?bs) (demo_relay l fs\<lparr>rl_metered := m\<rparr>) = (Inr acc, r')"
    using len dec max by (simp add: push_body_def Let_def)
  have "mt_ledger (rl_metered r') = commit (mt_ledger m) (replicate 20 1) 480000000 (price_bytes (params (cfg m)) 157)"
    using run len dec max
    by (auto simp: push_body_def Let_def admit_frames_def demo_relay_def admitted_commit_def demo_billable demo_guard_def [symmetric])
       (auto simp: demo_guard_def)
  then show thesis using that [of ?bs] run len by simp
qed


lemma credit_possible:
  assumes "hm_get (binding l) cb = None \<or> hm_get (binding l) cb = Some a" "last_cumulative l a cb < cum"
    "cum \<le> MAX_CUMULATIVE_PLUR" "cum - last_cumulative l a cb \<le> owed l a"
  obtains l' where "credit l a cb cum sig = (Inr (cum - last_cumulative l a cb), l')" "hm_get (binding l') cb = Some a"
    "last_cumulative l' a cb = cum" "owed l' a = owed l a - (cum - last_cumulative l a cb)"
proof (cases rule: credit_cases [of cum l a cb sig])
  case (accepted l')
  then show ?thesis using that [of l'] credit_accepted_cumulative [OF accepted(5)] by (simp add: owed_eq)
qed (use assms in auto)

lemma demo_credit:
  assumes "credit (mt_ledger m) a cb cum sig = (Inr d, l')"
  obtains fs' where "metered_credit (env_serde demo_env) demo_io m fs a cb cum sig = (Inr d, m\<lparr>mt_ledger := l'\<rparr>, fs')"
  using assms number_persists [of l' fs] by (auto simp: metered_credit_def demo_env_def)

text \<open>A run of the example relay: start, a paid upload, two cheques for it.\<close>

abbreviation demo_trace :: "credited list" where
  "demo_trace \<equiv> [(replicate 20 1, replicate 20 9, 1, 1), (replicate 20 1, replicate 20 9, 3, 2)]"

lemma demo_relay_run:
  "\<exists>r. relay_run demo_env demo_config demo_path 1000000000000 (Down []) demo_trace (Up r [])"
proof -
  let ?a = "replicate 20 (1 :: byte)" and ?cb = "replicate 20 (9 :: byte)" and ?sig = "replicate 65 (27 :: byte)"
  let ?run = "relay_run demo_env demo_config demo_path 1000000000000 (Down [])"
  let ?step = "relay_step demo_env demo_config demo_path 1000000000000"
  obtain fs where ld: "load_or_create (env_serde demo_env) demo_io (replicate 32 4) demo_path [] = (Inr fresh_ledger, fs)"
    by (rule demo_restart)
  let ?r0 = "demo_relay fresh_ledger fs"
  have "?step (Down []) [] (Up ?r0 [])"
    unfolding demo_relay_def by (rule relay_step.restart [OF ld]) simp
  then have 1: "?run [] (Up ?r0 [])" using relay_run.step [OF relay_run.start] by fastforce
  obtain m1 where m1: "admit_metered demo_env (rl_metered ?r0) (Some ''h'') (Some (uint_to_string (200 :: u64))) 900 0 = (Inr (Some demo_guard), m1)"
      "cfg m1 = demo_config" "mt_ledger m1 = snd (reserve fresh_ledger ?a 480000000 1000000000000)"
    using demo_admitted by (auto simp: demo_relay_def)
  have "?step (Up ?r0 []) [] (Up (?r0\<lparr>rl_metered := m1\<rparr>) [(demo_guard, 200)])"
    by (rule relay_step.admitted [OF m1(1)]) (auto simp: demo_relay_def demo_verified metered_new_def)
  then have 2: "?run [] (Up (?r0\<lparr>rl_metered := m1\<rparr>) [(demo_guard, 200)])" using relay_run.step [OF 1] by fastforce
  obtain bs acc r2 where r2: "length bs \<le> 200"
      "push_body demo_env demo_chain demo_io 0 (Some demo_guard) (Body bs) (?r0\<lparr>rl_metered := m1\<rparr>) = (Inr acc, r2)"
      "mt_ledger (rl_metered r2) = commit (mt_ledger m1) ?a 480000000 480000000"
    using demo_body [of m1 fresh_ledger fs] m1(2) demo_price [of 157] by auto
  have "?step (Up (?r0\<lparr>rl_metered := m1\<rparr>) [(demo_guard, 200)]) [] (Up r2 (remove1 (demo_guard, 200) [(demo_guard, 200)]))"
    by (rule relay_step.body [OF _ _ r2(2)]) (use r2(1) in auto)
  then have 3: "?run [] (Up r2 [])" using relay_run.step [OF 2] by fastforce
  let ?l2 = "mt_ledger (rl_metered r2)"
  have l2: "hm_get (binding ?l2) ?cb = None" "last_cumulative ?l2 ?a ?cb = 0" "owed ?l2 ?a = 480000000"
    unfolding r2(3) m1(3)
    by (simp_all add: last_cumulative_eq held_cheque_eq owed_eq)
      (simp_all add: fresh_ledger_def ephemeral_def ledger_account_def default_account_def saturating_add_def)
  obtain l3 where c1: "credit ?l2 ?a ?cb 1 ?sig = (Inr 1, l3)" "hm_get (binding l3) ?cb = Some ?a" "last_cumulative l3 ?a ?cb = 1"
      "owed l3 ?a = 479999999"
    using credit_possible [of ?l2 ?cb ?a 1 ?sig] l2 by (auto simp: MAX_CUMULATIVE_PLUR_def)
  obtain fs3 where "metered_credit (env_serde demo_env) demo_io (rl_metered r2) (rl_disk r2) ?a ?cb 1 ?sig = (Inr 1, (rl_metered r2)\<lparr>mt_ledger := l3\<rparr>, fs3)"
    using demo_credit [OF c1(1)] by blast
  from relay_step.credit [OF _ _ _ this, of demo_config demo_path 1000000000000 "[]"]
  have 4: "?run [(?a, ?cb, 1, 1)] (Up (r2\<lparr>rl_metered := (rl_metered r2)\<lparr>mt_ledger := l3\<rparr>, rl_disk := fs3\<rparr>) [])"
    using relay_run.step [OF 3] by fastforce
  let ?r3 = "r2\<lparr>rl_metered := (rl_metered r2)\<lparr>mt_ledger := l3\<rparr>, rl_disk := fs3\<rparr>"
  obtain l4 where c2: "credit (mt_ledger (rl_metered ?r3)) ?a ?cb 3 ?sig = (Inr 2, l4)"
    using credit_possible [of l3 ?cb ?a 3 ?sig] c1 by (auto simp: MAX_CUMULATIVE_PLUR_def)
  obtain fs4 where "metered_credit (env_serde demo_env) demo_io (rl_metered ?r3) (rl_disk ?r3) ?a ?cb 3 ?sig = (Inr 2, (rl_metered ?r3)\<lparr>mt_ledger := l4\<rparr>, fs4)"
    using demo_credit [OF c2] by blast
  from relay_step.credit [OF _ _ _ this, of demo_config demo_path 1000000000000 "[]"]
  show ?thesis using relay_run.step [OF 4] by fastforce
qed

end
