(* ===== verification/Pushsched.thy ===== *)
theory Pushsched
  imports Prelude "HOL-Library.Product_Lexorder" "HOL-Library.Multiset"
begin

text \<open>
  The scheduler that spreads stamped chunks over relay lanes, \<^verbatim>\<open>src/pushsched.rs\<close>. The module has no
  I/O, no clock and no randomness: the driver supplies the time in milliseconds and the results.
  Counters and times are natural numbers. Floating-point operations are real operations followed
  by the rounding \<open>fl\<close>; the iteration order of a \<^verbatim>\<open>HashMap\<close>, which the standard library leaves
  open, is the parameter \<open>ord\<close>.
\<close>

unbundle bit_operations_syntax

section \<open>Data\<close>

definition PROX_CAP :: real where "PROX_CAP = 8"
definition FAIL_STREAK :: nat where "FAIL_STREAK = 3"
definition BACKOFF_BASE_MS :: nat where "BACKOFF_BASE_MS = 2000"
definition BACKOFF_MAX_MS :: nat where "BACKOFF_MAX_MS = 120000"
definition MAX_BACKOFF_EXP :: nat where "MAX_BACKOFF_EXP = 5"
definition MIN_WEIGHT :: real where "MIN_WEIGHT = 2 / 100"
definition RATE_MIN_SAMPLE :: usize where "RATE_MIN_SAMPLE = 16"

datatype lane_health =
    Warming
  | Unfunded
  | Live
  | Backoff (until_ms: nat)
  | Retired

record lane_info =
  li_overlay :: "bytes option"
  li_batch_max :: "usize option"
  li_inflight_max :: "usize option"
  li_budget_remaining_gb :: "real option"
  li_pool_live :: "usize option"
  li_price_plur_per_kib :: "u128 option"
  li_hard_enforcement :: bool

record sched_config =
  sc_batch :: usize
  sc_probe_batch :: usize
  sc_inflight_per_lane :: usize
  sc_max_attempts :: nat
  sc_proximity_alpha :: real
  sc_hedge_fraction :: real
  sc_hedge_latency_mult :: real
  sc_hedge_min_ms :: nat
  sc_hedge_max_ms :: nat

definition default_sched_config :: sched_config where
  "default_sched_config =
     \<lparr>sc_batch = 256, sc_probe_batch = 16, sc_inflight_per_lane = 4, sc_max_attempts = 6,
      sc_proximity_alpha = 0, sc_hedge_fraction = 1 / 10, sc_hedge_latency_mult = 3 / 2,
      sc_hedge_min_ms = 3000, sc_hedge_max_ms = 60000\<rparr>"

datatype chunk_phase = Pending | InFlight | Done | Failed | Skipped

record chunk_state =
  cs_addr :: bytes
  cs_size :: nat
  cs_phase :: chunk_phase
  cs_attempts :: nat
  cs_on :: "usize list"
  cs_since_ms :: nat
  cs_hedged :: bool
  cs_group :: "nat option"

datatype completion_policy = AllAcked | Group

record group_state =
  gs_need :: nat
  gs_acked :: nat

record lane =
  ln_id :: usize
  ln_info :: lane_info
  ln_health :: lane_health
  ln_fail_streak :: nat
  ln_backoff_exp :: nat
  ln_inflight :: usize
  ln_rate :: real
  ln_batch_ms :: real
  ln_acked_total :: nat
  ln_failed_total :: nat
  ln_bytes_total :: nat

record assignment =
  as_batch :: nat
  as_lane :: usize
  as_chunks :: "usize list"
  as_hedge :: bool

datatype batch_outcome = Answered | OutcomeFailed string | PaymentRequired

datatype stall_reason = AllLanesDown | ChunksExhausted

datatype lane_health_kind = KWarming | KLive | KBackoff | KUnfunded | KRetired

record lane_stats_row =
  st_acked :: nat
  st_failed :: nat
  st_bytes :: nat
  st_rate :: real
  st_health :: "lane_health_kind option"

record scheduler =
  s_cfg :: sched_config
  s_policy :: completion_policy
  s_lanes :: "lane list"
  s_chunks :: "chunk_state list"
  s_groups :: "group_state list"
  s_pending :: "usize list"
  s_index :: "(bytes, usize) hashmap"
  s_next_batch_id :: nat
  s_outstanding :: "(nat, usize \<times> usize list) hashmap"
  s_hedges_used :: usize
  s_acked :: usize
  s_failed :: usize
  s_skipped :: usize

section \<open>Lanes\<close>

definition eligible :: "nat \<Rightarrow> lane \<Rightarrow> bool" where
  "eligible now l =
     (case ln_health l of
        Live \<Rightarrow> True | Warming \<Rightarrow> True
      | Backoff until \<Rightarrow> now \<ge> until
      | Unfunded \<Rightarrow> False | Retired \<Rightarrow> False)"

definition capacity :: "sched_config \<Rightarrow> lane \<Rightarrow> usize" where
  "capacity cfg l =
     (let want = (case li_inflight_max (ln_info l) of None \<Rightarrow> sc_inflight_per_lane cfg | Some n \<Rightarrow> n)
      in if ln_health l = Warming then 1 else max want 1)"

definition batch_size :: "sched_config \<Rightarrow> lane \<Rightarrow> usize" where
  "batch_size cfg l =
     (let lane_max = (case li_batch_max (ln_info l) of None \<Rightarrow> sc_batch cfg | Some n \<Rightarrow> n)
      in if ln_health l = Warming then min (sc_probe_batch cfg) lane_max else min (sc_batch cfg) lane_max)"

definition weight :: "(real \<Rightarrow> real) \<Rightarrow> sched_config \<Rightarrow> lane \<Rightarrow> real" where
  "weight fl cfg l =
     (let rate = (if ln_rate l = 0
                  then max (fl (real (case li_pool_live (ln_info l) of None \<Rightarrow> 16 | Some n \<Rightarrow> n) / 8)) (1 / 2)
                  else ln_rate l);
          budget = (case li_budget_remaining_gb (ln_info l) of Some gb \<Rightarrow> min (max gb (5 / 100)) 1 | None \<Rightarrow> 1);
          concurrency = real (capacity cfg l)
      in max (fl (fl (rate * budget) * concurrency)) MIN_WEIGHT)"

definition hedge_deadline_ms :: "(real \<Rightarrow> real) \<Rightarrow> sched_config \<Rightarrow> lane \<Rightarrow> nat" where
  "hedge_deadline_ms fl cfg l =
     (let base = (if ln_batch_ms l > 0 then fl (ln_batch_ms l * sc_hedge_latency_mult cfg)
                  else real (sc_hedge_min_ms cfg))
      in min (max (nat \<lfloor>base\<rfloor>) (sc_hedge_min_ms cfg)) (sc_hedge_max_ms cfg))"

section \<open>Construction and admission\<close>

definition new_lane :: "usize \<times> lane_info \<Rightarrow> lane" where
  "new_lane = (\<lambda>(id, info).
     \<lparr>ln_id = id, ln_info = info, ln_health = Warming, ln_fail_streak = 0, ln_backoff_exp = 0,
      ln_inflight = 0, ln_rate = 0, ln_batch_ms = 0, ln_acked_total = 0, ln_failed_total = 0,
      ln_bytes_total = 0\<rparr>)"

definition with_policy :: "lane_info list \<Rightarrow> sched_config \<Rightarrow> completion_policy \<Rightarrow> scheduler" where
  "with_policy lanes cfg policy =
     \<lparr>s_cfg = cfg, s_policy = policy, s_lanes = map new_lane (zip [0..<length lanes] lanes),
      s_chunks = [], s_groups = [], s_pending = [], s_index = [], s_next_batch_id = 1,
      s_outstanding = [], s_hedges_used = 0, s_acked = 0, s_failed = 0, s_skipped = 0\<rparr>"

definition sched_new :: "lane_info list \<Rightarrow> sched_config \<Rightarrow> scheduler" where
  "sched_new lanes cfg = with_policy lanes cfg AllAcked"

text \<open>\<^verbatim>\<open>lanes.get_mut(lane)\<close>: an update of a lane that exists.\<close>

definition upd_lane :: "usize \<Rightarrow> (lane \<Rightarrow> lane) \<Rightarrow> scheduler \<Rightarrow> scheduler" where
  "upd_lane l f s = (if l < length (s_lanes s) then s\<lparr>s_lanes := (s_lanes s)[l := f (s_lanes s ! l)]\<rparr> else s)"

definition upd_chunk :: "usize \<Rightarrow> (chunk_state \<Rightarrow> chunk_state) \<Rightarrow> scheduler \<Rightarrow> scheduler" where
  "upd_chunk ci f s = s\<lparr>s_chunks := (s_chunks s)[ci := f (s_chunks s ! ci)]\<rparr>"

definition set_lane_info :: "usize \<Rightarrow> lane_info \<Rightarrow> scheduler \<Rightarrow> scheduler" where
  "set_lane_info l info s = upd_lane l (\<lambda>x. x\<lparr>ln_info := info\<rparr>) s"

definition admit_one :: "scheduler \<Rightarrow> bytes \<times> nat \<Rightarrow> scheduler" where
  "admit_one s = (\<lambda>(addr, size).
     if hm_contains (s_index s) addr then s
     else
       let idx = length (s_chunks s) in
       s\<lparr>s_chunks := s_chunks s @ [\<lparr>cs_addr = addr, cs_size = size, cs_phase = Pending, cs_attempts = 0,
            cs_on = [], cs_since_ms = 0, cs_hedged = False, cs_group = None\<rparr>],
         s_index := hm_insert addr idx (s_index s),
         s_pending := s_pending s @ [idx]\<rparr>)"

definition sched_admit :: "(bytes \<times> nat) list \<Rightarrow> scheduler \<Rightarrow> (usize \<times> usize) \<times> scheduler" where
  "sched_admit cs s =
     (let s' = foldl admit_one s cs in ((length (s_chunks s), length (s_chunks s')), s'))"

definition admit_group :: "(bytes \<times> nat) list \<Rightarrow> nat \<Rightarrow> scheduler \<Rightarrow> (usize \<times> usize) \<times> scheduler" where
  "admit_group cs need s =
     (let gid = length (s_groups s);
          s1 = s\<lparr>s_groups := s_groups s @ [\<lparr>gs_need = need, gs_acked = 0\<rparr>]\<rparr>
      in case sched_admit cs s1 of
           ((start, stop), s2) \<Rightarrow>
             ((start, stop),
              s2\<lparr>s_chunks := map (\<lambda>(i, c). if start \<le> i then c\<lparr>cs_group := Some gid\<rparr> else c)
                  (zip [0..<stop] (s_chunks s2))\<rparr>))"


section \<open>Ranking\<close>

text \<open>The leading bits two addresses share; 255 if they are equal.\<close>

fun leading_zeros :: "byte \<Rightarrow> nat \<Rightarrow> nat" where
  "leading_zeros x 0 = 8"
| "leading_zeros x (Suc n) = (if bit x n then 7 - n else leading_zeros x n)"

fun proximity_from :: "nat \<Rightarrow> bytes \<Rightarrow> bytes \<Rightarrow> nat" where
  "proximity_from i (a # as) (b # bs) =
     (let x = a XOR b in if x \<noteq> 0 then i * 8 + leading_zeros x 8 else proximity_from (Suc i) as bs)"
| "proximity_from i _ _ = 255"

definition proximity :: "bytes \<Rightarrow> bytes \<Rightarrow> nat" where
  "proximity a b = proximity_from 0 a b"

definition from_le_u64 :: "bytes \<Rightarrow> u64" where
  "from_le_u64 c = of_nat (le_nat c)"

definition hash64 :: "bytes \<Rightarrow> u64 \<Rightarrow> u64" where
  "hash64 addr lno =
     (let acc = foldl (\<lambda>acc c.
            let acc = acc XOR from_le_u64 c; acc = acc * 0xBF58476D1CE4E5B9 in acc XOR drop_bit 31 acc)
            (lno * 0x9E3779B97F4A7C15) (chunks_exact 8 addr);
          z = acc + 0x9E3779B97F4A7C15;
          z = (z XOR drop_bit 30 z) * 0xBF58476D1CE4E5B9;
          z = (z XOR drop_bit 27 z) * 0x94D049BB133111EB
      in z XOR drop_bit 31 z)"

definition F64_MAX :: real where "F64_MAX = (2 - 2 / 2 ^ 53) * 2 ^ 1023"
definition MIN_POSITIVE :: real where "MIN_POSITIVE = 1 / 2 ^ 1022"

definition score :: "(real \<Rightarrow> real) \<Rightarrow> scheduler \<Rightarrow> usize \<Rightarrow> usize \<Rightarrow> real" where
  "score fl s ci lno =
     (let l = s_lanes s ! lno;
          w = weight fl (s_cfg s) l;
          w = (case li_overlay (ln_info l) of
                 Some ov \<Rightarrow>
                   if sc_proximity_alpha (s_cfg s) > 0
                   then let po = real (proximity (cs_addr (s_chunks s ! ci)) ov) in
                        fl (w * fl (1 + fl (sc_proximity_alpha (s_cfg s) * fl (min po PROX_CAP / PROX_CAP))))
                   else w
               | None \<Rightarrow> w);
          h = hash64 (cs_addr (s_chunks s ! ci)) (of_nat (ln_id l));
          u = fl (fl (fl (real (unat h)) + 1) / fl (fl (real (2 ^ 64 - 1)) + 1));
          denom = - fl (ln u)
      in if denom \<le> MIN_POSITIVE then F64_MAX else fl (w / denom))"

definition rank_nth :: "(real \<Rightarrow> real) \<Rightarrow> scheduler \<Rightarrow> usize \<Rightarrow> usize list \<Rightarrow> nat \<Rightarrow> usize option" where
  "rank_nth fl s ci lanes n =
     (let scored = sort_key (\<lambda>(sc, l). (- sc, l)) (map (\<lambda>l. (score fl s ci l, l)) lanes)
      in if n < length scored then Some (snd (scored ! n)) else None)"

definition rank_lane :: "(real \<Rightarrow> real) \<Rightarrow> scheduler \<Rightarrow> usize \<Rightarrow> usize list \<Rightarrow> usize option" where
  "rank_lane fl s ci lanes = rank_nth fl s ci lanes 0"

section \<open>Dispatch\<close>

definition dispatch_chunk :: "usize \<Rightarrow> bool \<Rightarrow> nat \<Rightarrow> chunk_state \<Rightarrow> chunk_state" where
  "dispatch_chunk lno hedge now c =
     (let c1 = (if \<not> hedge
                then c\<lparr>cs_phase := InFlight, cs_since_ms := now, cs_attempts := cs_attempts c + 1\<rparr>
                else c)
      in c1\<lparr>cs_on := cs_on c1 @ [lno]\<rparr>)"

definition pending_only :: "scheduler \<Rightarrow> usize \<Rightarrow> bool" where
  "pending_only s ci = (cs_phase (s_chunks s ! ci) = Pending)"

definition dispatch :: "usize \<Rightarrow> usize list \<Rightarrow> bool \<Rightarrow> nat \<Rightarrow> scheduler \<Rightarrow> assignment \<times> scheduler" where
  "dispatch lno picked hedge now s =
     (let batch = s_next_batch_id s;
          s1 = foldl (\<lambda>s ci. upd_chunk ci (dispatch_chunk lno hedge now) s) (s\<lparr>s_next_batch_id := batch + 1\<rparr>) picked;
          s2 = (if \<not> hedge then s1\<lparr>s_pending := filter (pending_only s1) (s_pending s1)\<rparr> else s1);
          s3 = upd_lane lno (\<lambda>l. l\<lparr>ln_inflight := ln_inflight l + 1\<rparr>) s2
      in (\<lparr>as_batch = batch, as_lane = lno, as_chunks = picked, as_hedge = hedge\<rparr>,
          s3\<lparr>s_outstanding := hm_insert batch (lno, picked) (s_outstanding s3)\<rparr>))"

definition expire_backoffs :: "nat \<Rightarrow> scheduler \<Rightarrow> scheduler" where
  "expire_backoffs now s =
     s\<lparr>s_lanes := map (\<lambda>l. case ln_health l of
          Backoff until \<Rightarrow> if now \<ge> until then l\<lparr>ln_health := Warming\<rparr> else l
        | _ \<Rightarrow> l) (s_lanes s)\<rparr>"

definition eligible_lanes :: "nat \<Rightarrow> scheduler \<Rightarrow> usize list" where
  "eligible_lanes now s = filter (\<lambda>l. eligible now (s_lanes s ! l)) [0..<length (s_lanes s)]"

definition has_room :: "scheduler \<Rightarrow> usize \<Rightarrow> bool" where
  "has_room s l = (ln_inflight (s_lanes s ! l) < capacity (s_cfg s) (s_lanes s ! l))"

text \<open>\<^verbatim>\<open>max_by_key\<close> and \<^verbatim>\<open>max_by\<close> return the last of several maxima.\<close>

definition last_max :: "('a \<Rightarrow> 'b::linorder) \<Rightarrow> 'a list \<Rightarrow> 'a option" where
  "last_max key xs =
     foldl (\<lambda>best x. case best of None \<Rightarrow> Some x | Some y \<Rightarrow> if key y \<le> key x then Some x else best) None xs"

subsection \<open>Hedges\<close>

definition hedge_budget :: "(real \<Rightarrow> real) \<Rightarrow> scheduler \<Rightarrow> usize" where
  "hedge_budget fl s = max (nat \<lceil>fl (real (length (s_chunks s)) * sc_hedge_fraction (s_cfg s))\<rceil>) 8"

definition hedge_target :: "(real \<Rightarrow> real) \<Rightarrow> nat \<Rightarrow> usize list \<Rightarrow> scheduler \<Rightarrow> usize \<Rightarrow> usize option" where
  "hedge_target fl now lanes s ci =
     (let c = s_chunks s ! ci in
      if cs_phase c \<noteq> InFlight \<or> cs_hedged c \<or> cs_on c = [] then None
      else
        let cur = hd (cs_on c) in
        if now - cs_since_ms c < hedge_deadline_ms fl (s_cfg s) (s_lanes s ! cur) then None
        else
          case rank_nth fl s ci lanes 1 of
            None \<Rightarrow> None
          | Some alt \<Rightarrow> if alt = cur \<or> \<not> has_room s alt then None else Some alt)"

definition by_lane :: "(usize \<Rightarrow> usize option) \<Rightarrow> usize list \<Rightarrow> (usize, usize list) hashmap" where
  "by_lane target ixs =
     foldl (\<lambda>m ci. case target ci of
          None \<Rightarrow> m
        | Some alt \<Rightarrow> hm_insert alt ((case hm_get m alt of None \<Rightarrow> [] | Some v \<Rightarrow> v) @ [ci]) m) [] ixs"

definition next_hedge :: "(real \<Rightarrow> real) \<Rightarrow> ((usize \<times> usize list) list \<Rightarrow> (usize \<times> usize list) list) \<Rightarrow> nat
    \<Rightarrow> scheduler \<Rightarrow> assignment option \<times> scheduler" where
  "next_hedge fl ord now s =
     (if s_hedges_used s \<ge> hedge_budget fl s then (None, s)
      else
        let lanes = eligible_lanes now s in
        if length lanes < 2 then (None, s)
        else
          case last_max (\<lambda>(_, v). length v) (ord (by_lane (hedge_target fl now lanes s) [0..<length (s_chunks s)])) of
            None \<Rightarrow> (None, s)
          | Some (lno, picked) \<Rightarrow>
              let room = min (batch_size (s_cfg s) (s_lanes s ! lno)) (hedge_budget fl s - s_hedges_used s);
                  picked = take room picked
              in if picked = [] then (None, s)
                 else
                   let s1 = s\<lparr>s_hedges_used := s_hedges_used s + length picked\<rparr>;
                       s2 = foldl (\<lambda>s ci. upd_chunk ci (\<lambda>c. c\<lparr>cs_hedged := True\<rparr>) s) s1 picked
                   in (case dispatch lno picked True now s2 of (a, s3) \<Rightarrow> (Some a, s3)))"

subsection \<open>First dispatches\<close>

fun pick_until :: "(usize \<Rightarrow> bool) \<Rightarrow> usize \<Rightarrow> usize list \<Rightarrow> usize list \<Rightarrow> usize list" where
  "pick_until want n acc [] = acc"
| "pick_until want n acc (ci # ixs) =
     (if want ci then (if length (acc @ [ci]) = n then acc @ [ci] else pick_until want n (acc @ [ci]) ixs)
      else pick_until want n acc ixs)"

definition picked_for :: "(real \<Rightarrow> real) \<Rightarrow> usize list \<Rightarrow> scheduler \<Rightarrow> usize \<Rightarrow> usize list" where
  "picked_for fl lanes s l =
     pick_until (\<lambda>ci. pending_only s ci \<and> rank_lane fl s ci lanes = Some l) (batch_size (s_cfg s) (s_lanes s ! l)) []
       (s_pending s)"

definition best_lane :: "(real \<Rightarrow> real) \<Rightarrow> usize list \<Rightarrow> scheduler \<Rightarrow> usize list \<Rightarrow> (usize \<times> usize list) option" where
  "best_lane fl lanes s free =
     foldl (\<lambda>best l.
          let picked = picked_for fl lanes s l in
          if picked = [] then best
          else case best of
                 None \<Rightarrow> Some (l, picked)
               | Some (bl, bp) \<Rightarrow>
                   if (length picked, weight fl (s_cfg s) (s_lanes s ! l)) > (length bp, weight fl (s_cfg s) (s_lanes s ! bl))
                   then Some (l, picked) else best) None free"

definition sched_next :: "(real \<Rightarrow> real) \<Rightarrow> ((usize \<times> usize list) list \<Rightarrow> (usize \<times> usize list) list) \<Rightarrow> nat
    \<Rightarrow> scheduler \<Rightarrow> assignment option \<times> scheduler" where
  "sched_next fl ord now s =
     (let s1 = expire_backoffs now s in
      case next_hedge fl ord now s1 of
        (Some a, s2) \<Rightarrow> (Some a, s2)
      | (None, s2) \<Rightarrow>
          if s_pending s2 = [] then (None, s2)
          else
            let lanes = eligible_lanes now s2;
                free = filter (\<lambda>l. eligible now (s_lanes s2 ! l) \<and> has_room s2 l) [0..<length (s_lanes s2)]
            in if free = [] then (None, s2)
               else
                 let best = (case best_lane fl lanes s2 free of
                        Some b \<Rightarrow> Some b
                      | None \<Rightarrow>
                          (case last_max (\<lambda>l. weight fl (s_cfg s2) (s_lanes s2 ! l)) free of
                             None \<Rightarrow> None
                           | Some l \<Rightarrow>
                               let picked = take (batch_size (s_cfg s2) (s_lanes s2 ! l)) (filter (pending_only s2) (s_pending s2))
                               in if picked = [] then None else Some (l, picked)))
                 in case best of
                      None \<Rightarrow> (None, s2)
                    | Some (l, picked) \<Rightarrow> (case dispatch l picked False now s2 of (a, s3) \<Rightarrow> (Some a, s3)))"

section \<open>Results\<close>

definition skip_members :: "nat \<Rightarrow> scheduler \<Rightarrow> scheduler" where
  "skip_members gid s =
     (let hit = (\<lambda>c. cs_group c = Some gid \<and> cs_phase c = Pending);
          s1 = s\<lparr>s_chunks := map (\<lambda>c. if hit c then c\<lparr>cs_phase := Skipped\<rparr> else c) (s_chunks s),
                 s_skipped := s_skipped s + length (filter hit (s_chunks s))\<rparr>
      in s1\<lparr>s_pending := filter (pending_only s1) (s_pending s1)\<rparr>)"

definition on_group_ack :: "usize \<Rightarrow> scheduler \<Rightarrow> scheduler" where
  "on_group_ack ci s =
     (if s_policy s \<noteq> Group then s
      else
        case cs_group (s_chunks s ! ci) of
          None \<Rightarrow> s
        | Some gid \<Rightarrow>
            let g = s_groups s ! gid;
                g' = g\<lparr>gs_acked := gs_acked g + 1\<rparr>;
                s1 = s\<lparr>s_groups := (s_groups s)[gid := g']\<rparr>
            in if gs_acked g' < gs_need g' then s1 else skip_members gid s1)"

definition on_ack :: "usize \<Rightarrow> bytes \<Rightarrow> bool \<Rightarrow> scheduler \<Rightarrow> scheduler" where
  "on_ack lno addr ok s =
     (case hm_get (s_index s) addr of
        None \<Rightarrow> s
      | Some ci \<Rightarrow>
          let phase = cs_phase (s_chunks s ! ci) in
          if phase = Done \<or> phase = Skipped then s
          else if ok then
            let s1 = upd_chunk ci (\<lambda>c. c\<lparr>cs_phase := Done, cs_on := []\<rparr>) s;
                s2 = s1\<lparr>s_acked := s_acked s1 + 1\<rparr>;
                s3 = upd_lane lno (\<lambda>l. l\<lparr>ln_acked_total := ln_acked_total l + 1,
                       ln_bytes_total := ln_bytes_total l + cs_size (s_chunks s2 ! ci)\<rparr>) s2
            in on_group_ack ci s3
          else
            let s1 = upd_lane lno (\<lambda>l. l\<lparr>ln_failed_total := ln_failed_total l + 1\<rparr>) s;
                s2 = upd_chunk ci (\<lambda>c. c\<lparr>cs_on := filter (\<lambda>l. l \<noteq> lno) (cs_on c)\<rparr>) s1;
                c = s_chunks s2 ! ci
            in if cs_on c \<noteq> [] then s2
               else if cs_attempts c \<ge> sc_max_attempts (s_cfg s2)
               then (upd_chunk ci (\<lambda>c. c\<lparr>cs_phase := Failed\<rparr>) s2)\<lparr>s_failed := s_failed s2 + 1\<rparr>
               else (upd_chunk ci (\<lambda>c. c\<lparr>cs_phase := Pending, cs_hedged := False\<rparr>) s2)\<lparr>s_pending := s_pending s2 @ [ci]\<rparr>)"

definition fund_lane :: "usize \<Rightarrow> scheduler \<Rightarrow> scheduler" where
  "fund_lane lno s =
     upd_lane lno (\<lambda>l. if ln_health l = Unfunded
        then l\<lparr>ln_health := (if ln_bytes_total l > 0 then Live else Warming)\<rparr> else l) s"

definition retire_lane :: "usize \<Rightarrow> scheduler \<Rightarrow> scheduler" where
  "retire_lane lno s = upd_lane lno (\<lambda>l. l\<lparr>ln_health := Retired\<rparr>) s"

definition set_lane_batch_max :: "usize \<Rightarrow> usize \<Rightarrow> scheduler \<Rightarrow> scheduler" where
  "set_lane_batch_max lno n s = upd_lane lno (\<lambda>l. l\<lparr>ln_info := (ln_info l)\<lparr>li_batch_max := Some (max n 1)\<rparr>\<rparr>) s"

definition unfunded_lanes :: "scheduler \<Rightarrow> usize list" where
  "unfunded_lanes s = filter (\<lambda>i. ln_health (s_lanes s ! i) = Unfunded) [0..<length (s_lanes s)]"

definition lane_failed :: "nat \<Rightarrow> lane \<Rightarrow> lane" where
  "lane_failed now l =
     (let l1 = l\<lparr>ln_fail_streak := ln_fail_streak l + 1\<rparr> in
      if ln_fail_streak l1 \<ge> FAIL_STREAK then
        let l2 = l1\<lparr>ln_backoff_exp := ln_backoff_exp l1 + 1\<rparr>;
            l3 = (if ln_backoff_exp l2 > MAX_BACKOFF_EXP then l2\<lparr>ln_health := Retired\<rparr>
                  else l2\<lparr>ln_health := Backoff (now + min (BACKOFF_BASE_MS * 2 ^ (ln_backoff_exp l2 - 1)) BACKOFF_MAX_MS)\<rparr>)
        in l3\<lparr>ln_fail_streak := 0\<rparr>
      else l1)"

definition resolved :: "chunk_state \<Rightarrow> bool" where
  "resolved c = (cs_phase c = Done \<or> cs_phase c = Skipped)"

definition requeue :: "usize \<Rightarrow> scheduler \<Rightarrow> usize \<Rightarrow> scheduler" where
  "requeue lno s ci =
     (if resolved (s_chunks s ! ci) then s
      else
        let s1 = upd_chunk ci (\<lambda>c. c\<lparr>cs_on := filter (\<lambda>l. l \<noteq> lno) (cs_on c)\<rparr>) s;
            c = s_chunks s1 ! ci
        in if cs_on c \<noteq> [] then s1
           else if cs_attempts c \<ge> sc_max_attempts (s_cfg s1) then
             (if cs_phase c \<noteq> Failed
              then (upd_chunk ci (\<lambda>c. c\<lparr>cs_phase := Failed\<rparr>) s1)\<lparr>s_failed := s_failed s1 + 1\<rparr>
              else s1)
           else if cs_phase c \<noteq> Pending
           then (upd_chunk ci (\<lambda>c. c\<lparr>cs_phase := Pending, cs_hedged := False\<rparr>) s1)\<lparr>s_pending := s_pending s1 @ [ci]\<rparr>
           else s1)"

definition refund_attempt :: "scheduler \<Rightarrow> usize \<Rightarrow> scheduler" where
  "refund_attempt s ci =
     (if resolved (s_chunks s ! ci) then s
      else upd_chunk ci (\<lambda>c. c\<lparr>cs_attempts := cs_attempts c - 1\<rparr>) s)"

definition on_batch_result :: "nat \<Rightarrow> batch_outcome \<Rightarrow> nat \<Rightarrow> scheduler \<Rightarrow> scheduler" where
  "on_batch_result batch outcome now s =
     (case hm_get (s_outstanding s) batch of
        None \<Rightarrow> s
      | Some (lno, ixs) \<Rightarrow>
          let s1 = s\<lparr>s_outstanding := hm_remove batch (s_outstanding s)\<rparr>;
              s2 = upd_lane lno (\<lambda>l. l\<lparr>ln_inflight := ln_inflight l - 1\<rparr>) s1;
              acked_here = length (filter (\<lambda>ci. cs_phase (s_chunks s2 ! ci) = Done) ixs);
              s3 = (case outcome of
                      Answered \<Rightarrow>
                        if acked_here > 0
                        then upd_lane lno (\<lambda>l. l\<lparr>ln_fail_streak := 0, ln_backoff_exp := 0, ln_health := Live\<rparr>) s2
                        else upd_lane lno (lane_failed now) s2
                    | PaymentRequired \<Rightarrow>
                        foldl refund_attempt (upd_lane lno (\<lambda>l. l\<lparr>ln_health := Unfunded\<rparr>) s2) ixs
                    | OutcomeFailed _ \<Rightarrow> upd_lane lno (lane_failed now) s2)
          in foldl (requeue lno) s3 ixs)"

definition on_batch_timing :: "(real \<Rightarrow> real) \<Rightarrow> usize \<Rightarrow> usize \<Rightarrow> nat \<Rightarrow> scheduler \<Rightarrow> scheduler" where
  "on_batch_timing fl lno n elapsed_ms s =
     upd_lane lno (\<lambda>l.
       let ms = real (max elapsed_ms 1);
           ewma = (\<lambda>old new. fl (fl (fl (7 / 10) * old) + fl (fl (3 / 10) * new)));
           l1 = l\<lparr>ln_batch_ms := (if ln_batch_ms l = 0 then ms else ewma (ln_batch_ms l) ms)\<rparr>
       in if n < RATE_MIN_SAMPLE then l1
          else let sample = fl (fl (real n * 1000) / ms)
               in l1\<lparr>ln_rate := (if ln_rate l1 = 0 then sample else ewma (ln_rate l1) sample)\<rparr>) s"

section \<open>Status\<close>

definition sched_done :: "scheduler \<Rightarrow> bool" where
  "sched_done s = (s_acked s + s_failed s + s_skipped s \<ge> length (s_chunks s))"

definition in_flight :: "scheduler \<Rightarrow> usize" where
  "in_flight s = length (s_outstanding s)"

definition failed_addrs :: "scheduler \<Rightarrow> bytes list" where
  "failed_addrs s = map cs_addr (filter (\<lambda>c. cs_phase c = Failed) (s_chunks s))"

definition stalled :: "nat \<Rightarrow> scheduler \<Rightarrow> stall_reason option" where
  "stalled now s =
     (if sched_done s \<or> s_outstanding s \<noteq> [] then None
      else if \<not> list_ex (eligible now) (s_lanes s) then
        (if list_all (\<lambda>l. ln_health l = Retired) (s_lanes s) then Some AllLanesDown
         else if list_all (\<lambda>l. ln_health l = Retired \<or> ln_health l = Unfunded) (s_lanes s) then Some AllLanesDown
         else None)
      else if s_pending s = [] then Some ChunksExhausted
      else None)"

definition next_wake_ms :: "(real \<Rightarrow> real) \<Rightarrow> nat \<Rightarrow> scheduler \<Rightarrow> nat option" where
  "next_wake_ms fl now s =
     (let bump = (\<lambda>w t. Some (case w of None \<Rightarrow> t | Some x \<Rightarrow> min x t));
          w1 = foldl (\<lambda>w l. case ln_health l of
                 Backoff until \<Rightarrow> if until > now then bump w until else w | _ \<Rightarrow> w) None (s_lanes s)
      in foldl (\<lambda>w c.
           if cs_phase c = InFlight \<and> \<not> cs_hedged c \<and> cs_on c \<noteq> []
           then bump w (cs_since_ms c + hedge_deadline_ms fl (s_cfg s) (s_lanes s ! hd (cs_on c)))
           else w) w1 (s_chunks s))"

definition health_kind :: "lane_health \<Rightarrow> lane_health_kind" where
  "health_kind h = (case h of Warming \<Rightarrow> KWarming | Live \<Rightarrow> KLive | Backoff _ \<Rightarrow> KBackoff
     | Unfunded \<Rightarrow> KUnfunded | Retired \<Rightarrow> KRetired)"

definition lane_stats :: "scheduler \<Rightarrow> lane_stats_row list" where
  "lane_stats s =
     map (\<lambda>l. \<lparr>st_acked = ln_acked_total l, st_failed = ln_failed_total l, st_bytes = ln_bytes_total l,
       st_rate = ln_rate l, st_health = Some (health_kind (ln_health l))\<rparr>) (s_lanes s)"

section \<open>The invariant\<close>

definition phase_count :: "chunk_phase \<Rightarrow> chunk_state list \<Rightarrow> nat" where
  "phase_count p cs = length (filter (\<lambda>c. cs_phase c = p) cs)"

definition index_ok :: "chunk_state list \<Rightarrow> (bytes, usize) hashmap \<Rightarrow> bool" where
  "index_ok cs m = (\<forall>a i. hm_get m a = Some i \<longleftrightarrow> i < length cs \<and> cs_addr (cs ! i) = a)"

definition counts_ok :: "chunk_state list \<Rightarrow> nat \<Rightarrow> nat \<Rightarrow> nat \<Rightarrow> bool" where
  "counts_ok cs a f k = (a = phase_count Done cs \<and> phase_count Failed cs \<le> f \<and> k = phase_count Skipped cs)"

definition queue_ok :: "chunk_state list \<Rightarrow> usize list \<Rightarrow> bool" where
  "queue_ok cs q = ((\<forall>i \<in> set q. i < length cs) \<and> (\<forall>i < length cs. cs_phase (cs ! i) = Pending \<longrightarrow> i \<in> set q))"

definition phases_ok :: "chunk_state list \<Rightarrow> bool" where
  "phases_ok cs = (\<forall>i < length cs. cs_phase (cs ! i) = InFlight \<longleftrightarrow> cs_on (cs ! i) \<noteq> [])"

type_synonym posts = "(nat, usize \<times> usize list) hashmap"

text \<open>A lane named by a chunk has a POST out with that chunk; \<open>X\<close> are exceptions.\<close>

definition carried_ok :: "(usize \<times> usize) set \<Rightarrow> chunk_state list \<Rightarrow> posts \<Rightarrow> bool" where
  "carried_ok X cs m =
     (\<forall>i < length cs. \<forall>l \<in> set (cs_on (cs ! i)). (i, l) \<in> X \<or> (\<exists>b ixs. hm_get m b = Some (l, ixs) \<and> i \<in> set ixs))"

definition posts_ok :: "posts \<Rightarrow> nat \<Rightarrow> nat \<Rightarrow> nat \<Rightarrow> bool" where
  "posts_ok m next nl nc =
     (hm_wf m \<and> (\<forall>b l ixs. hm_get m b = Some (l, ixs) \<longrightarrow> b < next \<and> l < nl \<and> (\<forall>i \<in> set ixs. i < nc)))"

definition lanes_ok :: "lane list \<Rightarrow> posts \<Rightarrow> bool" where
  "lanes_ok ls m = (\<forall>l < length ls. ln_inflight (ls ! l) = hm_sum (\<lambda>(l', _). if l' = l then 1 else 0) m)"

definition sched_inv_but :: "(usize \<times> usize) set \<Rightarrow> scheduler \<Rightarrow> bool" where
  "sched_inv_but X s =
     (index_ok (s_chunks s) (s_index s) \<and> counts_ok (s_chunks s) (s_acked s) (s_failed s) (s_skipped s) \<and>
      queue_ok (s_chunks s) (s_pending s) \<and> phases_ok (s_chunks s) \<and> carried_ok X (s_chunks s) (s_outstanding s) \<and>
      posts_ok (s_outstanding s) (s_next_batch_id s) (length (s_lanes s)) (length (s_chunks s)) \<and>
      lanes_ok (s_lanes s) (s_outstanding s))"

abbreviation sched_inv :: "scheduler \<Rightarrow> bool" where
  "sched_inv \<equiv> sched_inv_but {}"

subsection \<open>Frames\<close>

lemma upd_chunk_frame [simp]:
  "s_chunks (upd_chunk i f s) = (s_chunks s)[i := f (s_chunks s ! i)]" "s_lanes (upd_chunk i f s) = s_lanes s"
  "s_pending (upd_chunk i f s) = s_pending s" "s_index (upd_chunk i f s) = s_index s"
  "s_outstanding (upd_chunk i f s) = s_outstanding s" "s_next_batch_id (upd_chunk i f s) = s_next_batch_id s"
  "s_acked (upd_chunk i f s) = s_acked s" "s_failed (upd_chunk i f s) = s_failed s" "s_skipped (upd_chunk i f s) = s_skipped s"
  "s_cfg (upd_chunk i f s) = s_cfg s" "s_groups (upd_chunk i f s) = s_groups s" "s_policy (upd_chunk i f s) = s_policy s"
  "s_hedges_used (upd_chunk i f s) = s_hedges_used s"
  by (simp_all add: upd_chunk_def)

lemma upd_lane_frame [simp]:
  "s_chunks (upd_lane i f s) = s_chunks s" "length (s_lanes (upd_lane i f s)) = length (s_lanes s)"
  "s_pending (upd_lane i f s) = s_pending s" "s_index (upd_lane i f s) = s_index s"
  "s_outstanding (upd_lane i f s) = s_outstanding s" "s_next_batch_id (upd_lane i f s) = s_next_batch_id s"
  "s_acked (upd_lane i f s) = s_acked s" "s_failed (upd_lane i f s) = s_failed s" "s_skipped (upd_lane i f s) = s_skipped s"
  "s_cfg (upd_lane i f s) = s_cfg s" "s_groups (upd_lane i f s) = s_groups s" "s_policy (upd_lane i f s) = s_policy s"
  "s_hedges_used (upd_lane i f s) = s_hedges_used s"
  by (simp_all add: upd_lane_def)

lemma upd_lane_nth:
  "j < length (s_lanes s) \<Longrightarrow> s_lanes (upd_lane i f s) ! j = (if j = i then f (s_lanes s ! i) else s_lanes s ! j)"
  by (simp add: upd_lane_def nth_list_update)

lemma lanes_ok_upd:
  "lanes_ok (s_lanes s) m \<Longrightarrow> (\<And>l. ln_inflight (f l) = ln_inflight l) \<Longrightarrow> lanes_ok (s_lanes (upd_lane i f s)) m"
  by (auto simp: lanes_ok_def upd_lane_nth)

lemma sched_inv_upd_lane:
  "sched_inv_but X s \<Longrightarrow> (\<And>l. ln_inflight (f l) = ln_inflight l) \<Longrightarrow> sched_inv_but X (upd_lane i f s)"
  by (simp add: sched_inv_but_def lanes_ok_upd)

lemma phase_count_update:
  "i < length cs \<Longrightarrow> phase_count p (cs[i := c]) + (if cs_phase (cs ! i) = p then 1 else 0) =
     phase_count p cs + (if cs_phase c = p then 1 else 0)"
proof (induction cs arbitrary: i)
  case (Cons x xs)
  then show ?case by (cases i) (auto simp: phase_count_def)
qed simp

lemma phase_count_append [simp]: "phase_count p (cs @ [c]) = phase_count p cs + (if cs_phase c = p then 1 else 0)"
  by (simp add: phase_count_def)

subsection \<open>One chunk changes\<close>

lemma index_ok_update:
  assumes "index_ok cs m" "cs_addr c = cs_addr (cs ! i)"
  shows "index_ok (cs[i := c]) m"
proof -
  have "cs_addr (cs[i := c] ! j) = cs_addr (cs ! j)" if "j < length cs" for j
    using that assms(2) by (cases "i = j") auto
  then show ?thesis using assms(1) unfolding index_ok_def by (metis length_list_update)
qed

lemma counts_ok_update:
  assumes "counts_ok cs a f k" "i < length cs"
    and "cs_phase (cs ! i) \<noteq> Done" "cs_phase (cs ! i) \<noteq> Skipped" "cs_phase c \<noteq> Skipped"
  shows "counts_ok (cs[i := c]) (a + (if cs_phase c = Done then 1 else 0))
     (f + (if cs_phase c = Failed \<and> cs_phase (cs ! i) \<noteq> Failed then 1 else 0)) k"
  using assms phase_count_update [of i cs Done c] phase_count_update [of i cs Failed c] phase_count_update [of i cs Skipped c]
  by (auto simp: counts_ok_def split: if_splits)

lemma counts_ok_more_failed: "counts_ok cs a f k \<Longrightarrow> counts_ok cs a (f + n) k"
  by (simp add: counts_ok_def)

lemma carried_ok_update:
  "carried_ok X cs m \<Longrightarrow> i < length cs \<Longrightarrow> (\<And>l. l \<in> set (cs_on c) \<Longrightarrow> l \<in> set (cs_on (cs ! i)) \<or> (i, l) \<in> X) \<Longrightarrow>
     carried_ok X (cs[i := c]) m"
  unfolding carried_ok_def by (auto simp: nth_list_update split: if_splits)

lemma phases_ok_update:
  "phases_ok cs \<Longrightarrow> i < length cs \<Longrightarrow> (cs_phase c = InFlight \<longleftrightarrow> cs_on c \<noteq> []) \<Longrightarrow> phases_ok (cs[i := c])"
  unfolding phases_ok_def by (auto simp: nth_list_update split: if_splits)

lemma queue_ok_update:
  "queue_ok cs q \<Longrightarrow> i < length cs \<Longrightarrow> (cs_phase c = Pending \<Longrightarrow> cs_phase (cs ! i) = Pending) \<Longrightarrow> queue_ok (cs[i := c]) q"
  "queue_ok cs q \<Longrightarrow> i < length cs \<Longrightarrow> queue_ok (cs[i := c]) (q @ [i])"
  unfolding queue_ok_def by (auto simp: nth_list_update split: if_splits)


lemma sched_inv_chunk:
  assumes inv: "sched_inv_but X s" and i: "i < length (s_chunks s)" and c: "c = f (s_chunks s ! i)"
    and addr: "cs_addr c = cs_addr (s_chunks s ! i)"
    and live: "\<not> resolved (s_chunks s ! i)" "cs_phase c \<noteq> Skipped"
    and on: "\<And>l. l \<in> set (cs_on c) \<Longrightarrow> l \<in> set (cs_on (s_chunks s ! i)) \<or> (i, l) \<in> X" "cs_phase c = InFlight \<longleftrightarrow> cs_on c \<noteq> []"
    and q: "cs_phase c = Pending \<Longrightarrow> cs_phase (s_chunks s ! i) = Pending \<or> q = s_pending s @ [i]" "q = s_pending s \<or> q = s_pending s @ [i]"
    and n: "a = s_acked s + (if cs_phase c = Done then 1 else 0)"
      "n \<ge> s_failed s + (if cs_phase c = Failed \<and> cs_phase (s_chunks s ! i) \<noteq> Failed then 1 else 0)"
  shows "sched_inv_but X ((upd_chunk i f s)\<lparr>s_acked := a, s_failed := n, s_pending := q\<rparr>)"
proof -
  let ?cs = "(s_chunks s)[i := c]"
  have s: "index_ok (s_chunks s) (s_index s)" "counts_ok (s_chunks s) (s_acked s) (s_failed s) (s_skipped s)"
      "queue_ok (s_chunks s) (s_pending s)" "phases_ok (s_chunks s)" "carried_ok X (s_chunks s) (s_outstanding s)"
      "posts_ok (s_outstanding s) (s_next_batch_id s) (length (s_lanes s)) (length (s_chunks s))" "lanes_ok (s_lanes s) (s_outstanding s)"
    using inv by (simp_all add: sched_inv_but_def)
  have "index_ok ?cs (s_index s)" using s(1) addr by (rule index_ok_update)
  moreover have "counts_ok ?cs a n (s_skipped s)"
    using counts_ok_update [OF s(2) i, of c] live n
      counts_ok_more_failed [of ?cs a "s_failed s + (if cs_phase c = Failed \<and> cs_phase (s_chunks s ! i) \<noteq> Failed then 1 else 0)"
        "s_skipped s" "n - (s_failed s + (if cs_phase c = Failed \<and> cs_phase (s_chunks s ! i) \<noteq> Failed then 1 else 0))"]
    by (simp add: resolved_def)
  moreover have "queue_ok ?cs q" using queue_ok_update [OF s(3) i, of c] q by auto
  moreover have "phases_ok ?cs" using s(4) i on(2) by (rule phases_ok_update)
  moreover have "carried_ok X ?cs (s_outstanding s)" using s(5) i on(1) by (rule carried_ok_update)
  ultimately show ?thesis using s(6,7) by (simp add: sched_inv_but_def c)
qed


subsection \<open>Admission\<close>

lemma sched_inv_admit_one:
  assumes inv: "sched_inv s"
  shows "sched_inv (admit_one s x)"
proof -
  obtain a n where x: "x = (a, n)" by (cases x)
  show ?thesis
  proof (cases "hm_contains (s_index s) a")
    case True
    then show ?thesis using inv by (simp add: admit_one_def x)
  next
    case False
    let ?cs = "s_chunks s"
    let ?c = "\<lparr>cs_addr = a, cs_size = n, cs_phase = Pending, cs_attempts = 0, cs_on = [], cs_since_ms = 0, cs_hedged = False, cs_group = None\<rparr>"
    have idx: "index_ok ?cs (s_index s)" using inv by (simp add: sched_inv_but_def)
    have new: "cs_addr (?cs ! i) \<noteq> a" if "i < length ?cs" for i
      using idx False that by (auto simp: index_ok_def hm_contains_def)
    have "index_ok (?cs @ [?c]) (hm_insert a (length ?cs) (s_index s))"
      unfolding index_ok_def
    proof (intro allI)
      fix b i
      show "hm_get (hm_insert a (length ?cs) (s_index s)) b = Some i \<longleftrightarrow> i < length (?cs @ [?c]) \<and> cs_addr ((?cs @ [?c]) ! i) = b"
        using idx new unfolding index_ok_def by (cases "i < length ?cs") (auto simp: nth_append)
    qed
    moreover have "counts_ok (?cs @ [?c]) (s_acked s) (s_failed s) (s_skipped s)"
      using inv by (simp add: sched_inv_but_def counts_ok_def)
    moreover have "queue_ok (?cs @ [?c]) (s_pending s @ [length ?cs])"
      using inv by (auto simp: sched_inv_but_def queue_ok_def nth_append less_Suc_eq)
    moreover have "phases_ok (?cs @ [?c])" "carried_ok {} (?cs @ [?c]) (s_outstanding s)"
      using inv by (auto simp: sched_inv_but_def phases_ok_def carried_ok_def nth_append)
    moreover have "posts_ok (s_outstanding s) (s_next_batch_id s) (length (s_lanes s)) (Suc (length ?cs))"
      using inv unfolding sched_inv_but_def posts_ok_def by (meson less_SucI)
    ultimately show ?thesis using inv False by (simp add: admit_one_def x Let_def sched_inv_but_def)
  qed
qed

lemma sched_inv_admit: "sched_inv s \<Longrightarrow> sched_inv (snd (sched_admit cs s))"
  unfolding sched_admit_def Let_def snd_conv by (induction cs arbitrary: s) (auto simp: sched_inv_admit_one)

text \<open>A change of the chunks that keeps everything the invariant reads.\<close>

definition same_view :: "chunk_state \<Rightarrow> chunk_state \<Rightarrow> bool" where
  "same_view c d = (cs_addr c = cs_addr d \<and> cs_phase c = cs_phase d \<and> cs_on c = cs_on d)"

lemma sched_inv_same_view:
  assumes "sched_inv_but X s" "list_all2 same_view cs (s_chunks s)"
  shows "sched_inv_but X (s\<lparr>s_chunks := cs\<rparr>)"
proof -
  have len: "length cs = length (s_chunks s)" using assms(2) by (rule list_all2_lengthD)
  have nth: "cs_addr (cs ! i) = cs_addr (s_chunks s ! i)" "cs_phase (cs ! i) = cs_phase (s_chunks s ! i)" "cs_on (cs ! i) = cs_on (s_chunks s ! i)"
    if "i < length (s_chunks s)" for i
    using list_all2_nthD2 [OF assms(2) that] by (simp_all add: same_view_def)
  have cnt: "phase_count p cs = phase_count p (s_chunks s)" for p
    using assms(2) by (induction rule: list_all2_induct) (auto simp: phase_count_def same_view_def)
  show ?thesis
    using assms(1) len nth unfolding sched_inv_but_def
    by (simp add: index_ok_def counts_ok_def queue_ok_def phases_ok_def carried_ok_def cnt) (metis len nth)
qed

lemma sched_inv_groups [simp]: "sched_inv_but X (s\<lparr>s_groups := g\<rparr>) = sched_inv_but X s"
  by (simp add: sched_inv_but_def)

lemma sched_inv_hedges [simp]: "sched_inv_but X (s\<lparr>s_hedges_used := g\<rparr>) = sched_inv_but X s"
  by (simp add: sched_inv_but_def)

lemma sched_inv_admit_group:
  assumes "sched_inv s"
  shows "sched_inv (snd (admit_group cs need s))"
proof -
  let ?s1 = "s\<lparr>s_groups := s_groups s @ [\<lparr>gs_need = need, gs_acked = 0\<rparr>]\<rparr>"
  obtain a b s2 where s2: "sched_admit cs ?s1 = ((a, b), s2)" by (metis prod.exhaust)
  have i: "sched_inv s2" using sched_inv_admit [of ?s1 cs] assms s2 by simp
  have b: "b = length (s_chunks s2)" using s2 by (auto simp: sched_admit_def Let_def)
  have "list_all2 same_view (map (\<lambda>(i, c). if a \<le> i then c\<lparr>cs_group := Some (length (s_groups s))\<rparr> else c) (zip [0..<b] (s_chunks s2))) (s_chunks s2)"
    by (simp add: list_all2_conv_all_nth b same_view_def)
  from sched_inv_same_view [OF i this] show ?thesis by (simp add: admit_group_def s2)
qed

subsection \<open>Acknowledgements\<close>

lemma sched_inv_skip:
  assumes inv: "sched_inv_but X s"
  shows "sched_inv_but X (skip_members gid s)"
proof -
  let ?cs = "s_chunks s"
  let ?hit = "\<lambda>c. cs_group c = Some gid \<and> cs_phase c = Pending"
  let ?f = "\<lambda>c. if ?hit c then c\<lparr>cs_phase := Skipped\<rparr> else c"
  let ?ds = "map ?f ?cs"
  have f: "cs_addr (?f c) = cs_addr c" "cs_on (?f c) = cs_on c" for c by simp_all
  have cnt: "phase_count Done (map ?f xs) = phase_count Done xs" "phase_count Failed (map ?f xs) = phase_count Failed xs"
      "phase_count Skipped (map ?f xs) = phase_count Skipped xs + length (filter ?hit xs)" for xs
    by (induction xs) (auto simp: phase_count_def)
  have "index_ok ?ds (s_index s)" using inv by (simp add: sched_inv_but_def index_ok_def f cong: conj_cong)
  moreover have "counts_ok ?ds (s_acked s) (s_failed s) (s_skipped s + length (filter ?hit ?cs))"
    using inv by (simp add: sched_inv_but_def counts_ok_def cnt)
  moreover have "queue_ok ?ds (filter (\<lambda>i. cs_phase (?ds ! i) = Pending) (s_pending s))"
    using inv by (auto simp: sched_inv_but_def queue_ok_def split: if_splits)
  moreover have "phases_ok ?ds"
    using inv unfolding sched_inv_but_def phases_ok_def by auto
  moreover have "carried_ok X ?ds (s_outstanding s)" using inv by (simp add: sched_inv_but_def carried_ok_def f)
  ultimately show ?thesis
    using inv by (simp add: skip_members_def Let_def sched_inv_but_def pending_only_def [abs_def])
qed

lemma sched_inv_group_ack: "sched_inv_but X s \<Longrightarrow> sched_inv_but X (on_group_ack ci s)"
  by (auto simp: on_group_ack_def Let_def sched_inv_skip split: option.split)

lemma sched_inv_ack:
  assumes inv: "sched_inv s"
  shows "sched_inv (on_ack lno addr ok s)"
proof (cases "hm_get (s_index s) addr")
  case None
  then show ?thesis using inv by (simp add: on_ack_def)
next
  case (Some ci)
  then have ci: "ci < length (s_chunks s)" using inv by (simp add: sched_inv_but_def index_ok_def)
  let ?c = "s_chunks s ! ci"
  have ph: "cs_phase ?c = InFlight \<longleftrightarrow> cs_on ?c \<noteq> []" using inv ci by (simp add: sched_inv_but_def phases_ok_def)
  show ?thesis
  proof (cases "resolved ?c")
    case True
    then show ?thesis using inv Some by (simp add: on_ack_def Let_def resolved_def)
  next
    case live: False
    show ?thesis
    proof (cases ok)
      case True
      have "sched_inv ((upd_chunk ci (\<lambda>c. c\<lparr>cs_phase := Done, cs_on := []\<rparr>) s)\<lparr>s_acked := s_acked s + 1, s_failed := s_failed s, s_pending := s_pending s\<rparr>)"
        by (rule sched_inv_chunk [OF inv ci refl]) (use live in auto)
      then have "sched_inv ((upd_chunk ci (\<lambda>c. c\<lparr>cs_phase := Done, cs_on := []\<rparr>) s)\<lparr>s_acked := s_acked s + 1\<rparr>)"
        by (simp add: upd_chunk_def)
      then show ?thesis
        using Some True live by (auto simp: on_ack_def Let_def resolved_def intro!: sched_inv_group_ack sched_inv_upd_lane)
    next
      case False
      let ?s1 = "upd_lane lno (\<lambda>l. l\<lparr>ln_failed_total := ln_failed_total l + 1\<rparr>) s"
      let ?g = "\<lambda>c. c\<lparr>cs_on := filter (\<lambda>l. l \<noteq> lno) (cs_on c)\<rparr>"
      have i1: "sched_inv ?s1" by (rule sched_inv_upd_lane [OF inv]) simp
      consider (carried) "cs_on (?g ?c) \<noteq> []" | (exhausted) "cs_on (?g ?c) = []" "cs_attempts ?c \<ge> sc_max_attempts (s_cfg s)"
        | (again) "cs_on (?g ?c) = []" "\<not> cs_attempts ?c \<ge> sc_max_attempts (s_cfg s)" by blast
      then show ?thesis
      proof cases
        case carried
        then have "cs_on ?c \<noteq> []" by auto
        have "sched_inv ((upd_chunk ci ?g ?s1)\<lparr>s_acked := s_acked ?s1, s_failed := s_failed ?s1, s_pending := s_pending ?s1\<rparr>)"
          by (rule sched_inv_chunk [OF i1 _ refl]) (use carried ci live ph \<open>cs_on ?c \<noteq> []\<close> in \<open>auto simp: resolved_def\<close>)
        then show ?thesis
          using Some False live carried ci by (simp add: on_ack_def Let_def resolved_def sched_inv_but_def)
      next
        case exhausted
        have "sched_inv ((upd_chunk ci (\<lambda>c. (?g c)\<lparr>cs_phase := Failed\<rparr>) ?s1)\<lparr>s_acked := s_acked ?s1, s_failed := s_failed ?s1 + 1, s_pending := s_pending ?s1\<rparr>)"
          by (rule sched_inv_chunk [OF i1 _ refl]) (use exhausted ci live in \<open>auto simp: resolved_def\<close>)
        then show ?thesis
          using Some False live exhausted ci by (simp add: on_ack_def Let_def resolved_def sched_inv_but_def)
      next
        case again
        have "sched_inv ((upd_chunk ci (\<lambda>c. (?g c)\<lparr>cs_phase := Pending, cs_hedged := False\<rparr>) ?s1)\<lparr>s_acked := s_acked ?s1, s_failed := s_failed ?s1, s_pending := s_pending ?s1 @ [ci]\<rparr>)"
          by (rule sched_inv_chunk [OF i1 _ refl]) (use again ci live in \<open>auto simp: resolved_def\<close>)
        then show ?thesis
          using Some False live again ci by (simp add: on_ack_def Let_def resolved_def sched_inv_but_def)
      qed
    qed
  qed
qed

subsection \<open>Results\<close>

lemma sched_inv_refund:
  assumes "sched_inv_but X s" "ci < length (s_chunks s)"
  shows "sched_inv_but X (refund_attempt s ci)"
proof -
  have "list_all2 same_view ((s_chunks s)[ci := (s_chunks s ! ci)\<lparr>cs_attempts := cs_attempts (s_chunks s ! ci) - 1\<rparr>]) (s_chunks s)"
    using assms(2) by (auto simp: list_all2_conv_all_nth same_view_def nth_list_update)
  from sched_inv_same_view [OF assms(1) this] show ?thesis
    using assms(1) by (simp add: refund_attempt_def upd_chunk_def)
qed

lemma sched_inv_but_weaken: "sched_inv_but X s \<Longrightarrow> X \<subseteq> Y \<Longrightarrow> sched_inv_but Y s"
  by (fastforce simp: sched_inv_but_def carried_ok_def)

lemma sched_inv_requeue:
  assumes inv: "sched_inv_but X s" and ci: "ci < length (s_chunks s)"
  shows "sched_inv_but (X - {(ci, lno)}) (requeue lno s ci)"
proof -
  let ?c = "s_chunks s ! ci"
  let ?g = "\<lambda>c. c\<lparr>cs_on := filter (\<lambda>l. l \<noteq> lno) (cs_on c)\<rparr>"
  have ph: "cs_phase ?c = InFlight \<longleftrightarrow> cs_on ?c \<noteq> []" using inv ci by (simp add: sched_inv_but_def phases_ok_def)
  have drop: "sched_inv_but (X - {(ci, lno)}) s'" if "sched_inv_but X s'" "lno \<notin> set (cs_on (s_chunks s' ! ci))" for s'
    using that by (auto simp: sched_inv_but_def carried_ok_def)
  show ?thesis
  proof (cases "resolved ?c")
    case True
    then have "cs_on ?c = []" using ph by (auto simp: resolved_def)
    then show ?thesis using True drop [OF inv] by (simp add: requeue_def)
  next
    case live: False
    consider (carried) "cs_on (?g ?c) \<noteq> []"
      | (exhausted) "cs_on (?g ?c) = []" "cs_attempts ?c \<ge> sc_max_attempts (s_cfg s)" "cs_phase ?c \<noteq> Failed"
      | (failed) "cs_on (?g ?c) = []" "cs_attempts ?c \<ge> sc_max_attempts (s_cfg s)" "cs_phase ?c = Failed"
      | (again) "cs_on (?g ?c) = []" "\<not> cs_attempts ?c \<ge> sc_max_attempts (s_cfg s)" "cs_phase ?c \<noteq> Pending"
      | (queued) "cs_on (?g ?c) = []" "\<not> cs_attempts ?c \<ge> sc_max_attempts (s_cfg s)" "cs_phase ?c = Pending" by blast
    then show ?thesis
    proof cases
      case carried
      then have ne: "cs_on ?c \<noteq> []" by auto
      have "sched_inv_but X ((upd_chunk ci ?g s)\<lparr>s_acked := s_acked s, s_failed := s_failed s, s_pending := s_pending s\<rparr>)"
        by (rule sched_inv_chunk [OF inv ci refl]) (use carried live ph ne in \<open>auto simp: resolved_def\<close>)
      then have "sched_inv_but X (requeue lno s ci)" using live carried ci by (simp add: requeue_def Let_def upd_chunk_def)
      then show ?thesis by (rule drop) (use live carried ci in \<open>simp add: requeue_def Let_def\<close>)
    next
      case exhausted
      have "sched_inv_but X ((upd_chunk ci (\<lambda>c. (?g c)\<lparr>cs_phase := Failed\<rparr>) s)\<lparr>s_acked := s_acked s, s_failed := s_failed s + 1, s_pending := s_pending s\<rparr>)"
        by (rule sched_inv_chunk [OF inv ci refl]) (use exhausted live in \<open>auto simp: resolved_def\<close>)
      then have "sched_inv_but X (requeue lno s ci)" using live exhausted ci by (simp add: requeue_def Let_def upd_chunk_def)
      then show ?thesis by (rule drop) (use live exhausted ci in \<open>simp add: requeue_def Let_def\<close>)
    next
      case failed
      have "sched_inv_but X ((upd_chunk ci ?g s)\<lparr>s_acked := s_acked s, s_failed := s_failed s, s_pending := s_pending s\<rparr>)"
        by (rule sched_inv_chunk [OF inv ci refl]) (use failed live in \<open>auto simp: resolved_def\<close>)
      then have "sched_inv_but X (requeue lno s ci)" using live failed ci by (simp add: requeue_def Let_def upd_chunk_def)
      then show ?thesis by (rule drop) (use live failed ci in \<open>simp add: requeue_def Let_def\<close>)
    next
      case again
      have "sched_inv_but X ((upd_chunk ci (\<lambda>c. (?g c)\<lparr>cs_phase := Pending, cs_hedged := False\<rparr>) s)\<lparr>s_acked := s_acked s, s_failed := s_failed s, s_pending := s_pending s @ [ci]\<rparr>)"
        by (rule sched_inv_chunk [OF inv ci refl]) (use again live in \<open>auto simp: resolved_def\<close>)
      then have "sched_inv_but X (requeue lno s ci)" using live again ci by (simp add: requeue_def Let_def upd_chunk_def)
      then show ?thesis by (rule drop) (use live again ci in \<open>simp add: requeue_def Let_def\<close>)
    next
      case queued
      have "sched_inv_but X ((upd_chunk ci ?g s)\<lparr>s_acked := s_acked s, s_failed := s_failed s, s_pending := s_pending s\<rparr>)"
        by (rule sched_inv_chunk [OF inv ci refl]) (use queued live in \<open>auto simp: resolved_def\<close>)
      then have "sched_inv_but X (requeue lno s ci)" using live queued ci by (simp add: requeue_def Let_def upd_chunk_def)
      then show ?thesis by (rule drop) (use live queued ci in \<open>simp add: requeue_def Let_def\<close>)
    qed
  qed
qed

lemma length_requeue [simp]: "length (s_chunks (requeue lno s ci)) = length (s_chunks s)"
  by (simp add: requeue_def Let_def)

lemma length_refund [simp]: "length (s_chunks (refund_attempt s ci)) = length (s_chunks s)"
  by (simp add: refund_attempt_def)

lemma sched_inv_requeue_all:
  assumes "sched_inv_but X s" "\<forall>i \<in> set ixs. i < length (s_chunks s)" "X \<subseteq> {(i, lno) |i. i \<in> set ixs}"
  shows "sched_inv (foldl (requeue lno) s ixs)"
  using assms
proof (induction ixs arbitrary: s X)
  case Nil
  then show ?case by simp
next
  case (Cons ci ixs)
  show ?case
    using Cons.IH [of "X - {(ci, lno)}" "requeue lno s ci"] sched_inv_requeue [of X s ci lno] Cons.prems by auto
qed

lemma sched_inv_refund_all:
  "sched_inv_but X s \<Longrightarrow> \<forall>i \<in> set ixs. i < length (s_chunks s) \<Longrightarrow>
     sched_inv_but X (foldl refund_attempt s ixs) \<and> length (s_chunks (foldl refund_attempt s ixs)) = length (s_chunks s)"
  by (induction ixs arbitrary: s) (auto simp: sched_inv_refund)

lemma lane_failed_inflight [simp]: "ln_inflight (lane_failed now l) = ln_inflight l"
  by (simp add: lane_failed_def Let_def)

lemma sched_inv_removed:
  assumes inv: "sched_inv s" and b: "hm_get (s_outstanding s) b = Some (lno, ixs)"
  shows "sched_inv_but {(i, lno) |i. i \<in> set ixs}
    (upd_lane lno (\<lambda>l. l\<lparr>ln_inflight := ln_inflight l - 1\<rparr>) (s\<lparr>s_outstanding := hm_remove b (s_outstanding s)\<rparr>))"
proof -
  let ?m = "s_outstanding s"
  let ?s = "s\<lparr>s_outstanding := hm_remove b ?m\<rparr>"
  have wf: "hm_wf ?m" and lno: "lno < length (s_lanes s)" using inv b by (auto simp: sched_inv_but_def posts_ok_def)
  have "carried_ok {(i, lno) |i. i \<in> set ixs} (s_chunks s) (hm_remove b ?m)"
    unfolding carried_ok_def
  proof (intro allI impI ballI)
    fix i l assume "i < length (s_chunks s)" "l \<in> set (cs_on (s_chunks s ! i))"
    then obtain b' ixs' where c: "hm_get ?m b' = Some (l, ixs')" "i \<in> set ixs'"
      using inv unfolding sched_inv_but_def carried_ok_def by (metis empty_iff)
    show "(i, l) \<in> {(i, lno) |i. i \<in> set ixs} \<or> (\<exists>b' ixs'. hm_get (hm_remove b ?m) b' = Some (l, ixs') \<and> i \<in> set ixs')"
    proof (cases "b' = b")
      case True
      then show ?thesis using c b by simp
    next
      case False
      then have "hm_get (hm_remove b ?m) b' = Some (l, ixs')" using c by (simp add: hm_simps)
      then show ?thesis using c(2) by blast
    qed
  qed
  moreover have "posts_ok (hm_remove b ?m) (s_next_batch_id s) (length (s_lanes s)) (length (s_chunks s))"
    using inv wf by (auto simp: sched_inv_but_def posts_ok_def hm_simps split: if_splits)
  moreover have "lanes_ok (s_lanes (upd_lane lno (\<lambda>l. l\<lparr>ln_inflight := ln_inflight l - 1\<rparr>) ?s)) (hm_remove b ?m)"
    unfolding lanes_ok_def
  proof (intro allI impI)
    fix l assume l: "l < length (s_lanes (upd_lane lno (\<lambda>l. l\<lparr>ln_inflight := ln_inflight l - 1\<rparr>) ?s))"
    let ?w = "\<lambda>(l', _). if l' = l then 1 else (0 :: nat)"
    have "hm_sum ?w (hm_remove b ?m) + ?w (lno, ixs) = hm_sum ?w ?m" using hm_sum_remove [OF wf b, of ?w] by simp
    moreover have "ln_inflight (s_lanes s ! l) = hm_sum ?w ?m" using inv l by (simp add: sched_inv_but_def lanes_ok_def)
    ultimately show "ln_inflight (s_lanes (upd_lane lno (\<lambda>l. l\<lparr>ln_inflight := ln_inflight l - 1\<rparr>) ?s) ! l) = hm_sum ?w (hm_remove b ?m)"
      using l by (auto simp: upd_lane_nth split: if_splits)
  qed
  ultimately show ?thesis using inv by (simp add: sched_inv_but_def)
qed

lemma sched_inv_result:
  assumes inv: "sched_inv s"
  shows "sched_inv (on_batch_result b outcome now s)"
proof (cases "hm_get (s_outstanding s) b")
  case None
  then show ?thesis using inv by (simp add: on_batch_result_def)
next
  case (Some p)
  obtain lno ixs where p: "p = (lno, ixs)" by (cases p)
  have ix: "\<forall>i \<in> set ixs. i < length (s_chunks s)" using inv Some p by (auto simp: sched_inv_but_def posts_ok_def)
  define s2 where "s2 = upd_lane lno (\<lambda>l. l\<lparr>ln_inflight := ln_inflight l - 1\<rparr>) (s\<lparr>s_outstanding := hm_remove b (s_outstanding s)\<rparr>)"
  let ?X = "{(i, lno) |i. i \<in> set ixs}"
  have s2: "sched_inv_but ?X s2" "length (s_chunks s2) = length (s_chunks s)"
    using sched_inv_removed [OF inv, of b lno ixs] Some p by (auto simp: s2_def)
  have lanes: "sched_inv_but ?X (upd_lane lno f s2)" if "\<And>l. ln_inflight (f l) = ln_inflight l" for f
    by (rule sched_inv_upd_lane [OF s2(1) that])
  have fin: "sched_inv (foldl (requeue lno) s3 ixs)" if "sched_inv_but ?X s3" "length (s_chunks s3) = length (s_chunks s)" for s3
    using sched_inv_requeue_all [OF that(1)] that(2) ix by simp
  have "sched_inv_but ?X (foldl refund_attempt (upd_lane lno (\<lambda>l. l\<lparr>ln_health := Unfunded\<rparr>) s2) ixs) \<and>
      length (s_chunks (foldl refund_attempt (upd_lane lno (\<lambda>l. l\<lparr>ln_health := Unfunded\<rparr>) s2) ixs)) = length (s_chunks s)"
    using sched_inv_refund_all [OF lanes, of "\<lambda>l. l\<lparr>ln_health := Unfunded\<rparr>" ixs] ix s2(2) by simp
  then show ?thesis
    unfolding on_batch_result_def Some p option.case prod.case Let_def s2_def [symmetric]
    using fin lanes s2(2) by (cases outcome) simp_all
qed

subsection \<open>Dispatch\<close>

lemma foldl_upd_frame [simp]:
  "s_lanes (foldl (\<lambda>s ci. upd_chunk ci f s) s ixs) = s_lanes s"
  "s_outstanding (foldl (\<lambda>s ci. upd_chunk ci f s) s ixs) = s_outstanding s"
  "s_pending (foldl (\<lambda>s ci. upd_chunk ci f s) s ixs) = s_pending s"
  "s_next_batch_id (foldl (\<lambda>s ci. upd_chunk ci f s) s ixs) = s_next_batch_id s"
  "s_cfg (foldl (\<lambda>s ci. upd_chunk ci f s) s ixs) = s_cfg s"
  "s_index (foldl (\<lambda>s ci. upd_chunk ci f s) s ixs) = s_index s"
  "s_acked (foldl (\<lambda>s ci. upd_chunk ci f s) s ixs) = s_acked s"
  "s_failed (foldl (\<lambda>s ci. upd_chunk ci f s) s ixs) = s_failed s"
  "s_skipped (foldl (\<lambda>s ci. upd_chunk ci f s) s ixs) = s_skipped s"
  "length (s_chunks (foldl (\<lambda>s ci. upd_chunk ci f s) s ixs)) = length (s_chunks s)"
  by (induction ixs arbitrary: s) simp_all

lemma sched_inv_mark:
  assumes inv: "sched_inv_but X s" and ci: "ci < length (s_chunks s)" "(ci, lno) \<in> X"
    and ph: "cs_phase (s_chunks s ! ci) = InFlight \<or> \<not> hedge \<and> cs_phase (s_chunks s ! ci) = Pending"
  shows "sched_inv_but X (upd_chunk ci (dispatch_chunk lno hedge now) s)"
proof -
  let ?f = "dispatch_chunk lno hedge now"
  have "sched_inv_but X ((upd_chunk ci ?f s)\<lparr>s_acked := s_acked s, s_failed := s_failed s, s_pending := s_pending s\<rparr>)"
    by (rule sched_inv_chunk [OF inv ci(1) refl]) (use ph ci(2) in \<open>auto simp: dispatch_chunk_def Let_def resolved_def split: if_splits\<close>)
  then show ?thesis by (simp add: upd_chunk_def)
qed

lemma sched_inv_mark_all:
  assumes "sched_inv_but X s" "\<And>ci. ci \<in> set ixs \<Longrightarrow> ci < length (s_chunks s) \<and> (ci, lno) \<in> X \<and>
      (cs_phase (s_chunks s ! ci) = InFlight \<or> \<not> hedge \<and> cs_phase (s_chunks s ! ci) = Pending)"
  shows "sched_inv_but X (foldl (\<lambda>s ci. upd_chunk ci (dispatch_chunk lno hedge now) s) s ixs)"
  using assms
proof (induction ixs arbitrary: s)
  case (Cons ci ixs)
  let ?s = "upd_chunk ci (dispatch_chunk lno hedge now) s"
  have "sched_inv_but X ?s" using Cons.prems by (intro sched_inv_mark) auto
  moreover have "j < length (s_chunks ?s) \<and> (j, lno) \<in> X \<and>
      (cs_phase (s_chunks ?s ! j) = InFlight \<or> \<not> hedge \<and> cs_phase (s_chunks ?s ! j) = Pending)" if "j \<in> set ixs" for j
    using Cons.prems(2) [of j] Cons.prems(2) [of ci] that by (cases "j = ci") (auto simp: dispatch_chunk_def Let_def)
  ultimately show ?case using Cons.IH by simp
qed simp

lemma sched_inv_dispatch:
  assumes inv: "sched_inv s" and lno: "lno < length (s_lanes s)"
    and ixs: "\<And>ci. ci \<in> set ixs \<Longrightarrow> ci < length (s_chunks s) \<and> cs_phase (s_chunks s ! ci) = (if hedge then InFlight else Pending)"
  shows "sched_inv (snd (dispatch lno ixs hedge now s))"
proof -
  let ?X = "{(i, lno) |i. i \<in> set ixs}"
  let ?b = "s_next_batch_id s" and ?m = "s_outstanding s"
  define s1 where "s1 = foldl (\<lambda>s ci. upd_chunk ci (dispatch_chunk lno hedge now) s) (s\<lparr>s_next_batch_id := ?b + 1\<rparr>) ixs"
  have "sched_inv_but ?X (s\<lparr>s_next_batch_id := ?b + 1\<rparr>)"
    using sched_inv_but_weaken [OF inv, of ?X] by (auto simp: sched_inv_but_def posts_ok_def less_SucI)
  then have s1: "sched_inv_but ?X s1" unfolding s1_def by (rule sched_inv_mark_all) (use ixs in auto)
  have fr: "s_lanes s1 = s_lanes s" "s_outstanding s1 = ?m" "length (s_chunks s1) = length (s_chunks s)"
      "s_next_batch_id s1 = Suc ?b"
    by (simp_all add: s1_def)
  have fresh: "hm_get ?m ?b = None"
    using inv unfolding sched_inv_but_def posts_ok_def by (metis less_irrefl not_None_eq surj_pair)
  let ?q = "if \<not> hedge then filter (pending_only s1) (s_pending s1) else s_pending s1"
  let ?m' = "hm_insert ?b (lno, ixs) ?m"
  let ?ls = "s_lanes (upd_lane lno (\<lambda>l. l\<lparr>ln_inflight := ln_inflight l + 1\<rparr>) s)"
  have "queue_ok (s_chunks s1) ?q" using s1 by (auto simp: sched_inv_but_def queue_ok_def pending_only_def)
  moreover have "carried_ok {} (s_chunks s1) ?m'"
    unfolding carried_ok_def
  proof (intro allI impI ballI)
    fix i l assume il: "i < length (s_chunks s1)" "l \<in> set (cs_on (s_chunks s1 ! i))"
    consider "l = lno" "i \<in> set ixs" | b ixs' where "hm_get ?m b = Some (l, ixs')" "i \<in> set ixs'"
    proof -
      have "carried_ok ?X (s_chunks s1) ?m" using s1 fr(2) by (simp add: sched_inv_but_def)
      then have "(i, l) \<in> ?X \<or> (\<exists>b ixs. hm_get ?m b = Some (l, ixs) \<and> i \<in> set ixs)"
        using il unfolding carried_ok_def by blast
      then show thesis using that by blast
    qed
    then have "\<exists>b ixs. hm_get ?m' b = Some (l, ixs) \<and> i \<in> set ixs"
    proof cases
      case 1
      then show ?thesis by (intro exI [of _ ?b] exI [of _ ixs]) simp
    next
      case (2 b ixs')
      then have "b \<noteq> ?b" using fresh by auto
      then show ?thesis using 2 by (intro exI [of _ b] exI [of _ ixs']) simp
    qed
    then show "(i, l) \<in> {} \<or> (\<exists>b ixs. hm_get ?m' b = Some (l, ixs) \<and> i \<in> set ixs)" by simp
  qed
  moreover have "posts_ok ?m' (Suc ?b) (length (s_lanes s)) (length (s_chunks s))"
    using inv lno ixs by (auto simp: sched_inv_but_def posts_ok_def less_SucI split: if_splits)
  moreover have "lanes_ok ?ls ?m'"
    unfolding lanes_ok_def
  proof (intro allI impI)
    fix l assume l: "l < length ?ls"
    let ?w = "\<lambda>(l', _). if l' = l then 1 else (0 :: nat)"
    have "hm_sum ?w ?m' = hm_sum ?w ?m + ?w (lno, ixs)" using hm_sum_insert [of ?w ?b "(lno, ixs)" ?m] fresh by simp
    moreover have "ln_inflight (s_lanes s ! l) = hm_sum ?w ?m" using inv l by (simp add: sched_inv_but_def lanes_ok_def)
    ultimately show "ln_inflight (?ls ! l) = hm_sum ?w ?m'" using l by (simp add: upd_lane_nth)
  qed
  moreover have "s_lanes (upd_lane lno (\<lambda>l. l\<lparr>ln_inflight := ln_inflight l + 1\<rparr>)
      (if \<not> hedge then s1\<lparr>s_pending := filter (pending_only s1) (s_pending s1)\<rparr> else s1)) = ?ls"
    by (simp add: upd_lane_def fr)
  ultimately show ?thesis
    using s1 fr unfolding dispatch_def Let_def s1_def [symmetric] snd_conv
    by (cases hedge) (simp_all add: sched_inv_but_def)
qed

subsection \<open>Choosing work\<close>

lemma last_max_mem: "last_max key xs = Some x \<Longrightarrow> x \<in> set xs"
proof -
  have "foldl (\<lambda>best x. case best of None \<Rightarrow> Some x | Some y \<Rightarrow> if key y \<le> key x then Some x else best) b xs = Some x \<Longrightarrow>
      x \<in> set xs \<or> b = Some x" for b
    by (induction xs arbitrary: b) (fastforce split: option.splits if_splits)+
  then show "last_max key xs = Some x \<Longrightarrow> x \<in> set xs" unfolding last_max_def by blast
qed

lemma last_max_Some: "xs \<noteq> [] \<Longrightarrow> \<exists>x. last_max key xs = Some x"
proof -
  have "\<exists>x. foldl (\<lambda>best x. case best of None \<Rightarrow> Some x | Some y \<Rightarrow> if key y \<le> key x then Some x else best) (Some b) ys = Some x" for b ys
    by (induction ys arbitrary: b) (auto split: if_splits)
  then show "xs \<noteq> [] \<Longrightarrow> \<exists>x. last_max key xs = Some x" unfolding last_max_def by (cases xs) auto
qed

lemma pick_until_set: "set (pick_until want n acc xs) \<subseteq> set acc \<union> {x \<in> set xs. want x}"
  by (induction want n acc xs rule: pick_until.induct) auto

lemma by_lane_targets:
  assumes "(l, v) \<in> set (by_lane target xs)" "ci \<in> set v"
  shows "target ci = Some l \<and> ci \<in> set xs"
proof -
  let ?f = "\<lambda>m ci. case target ci of None \<Rightarrow> m
     | Some alt \<Rightarrow> hm_insert alt ((case hm_get m alt of None \<Rightarrow> [] | Some v \<Rightarrow> v) @ [ci]) m"
  have "\<forall>(l, v) \<in> set m. \<forall>ci \<in> set v. target ci = Some l \<and> ci \<in> S \<Longrightarrow> set xs \<subseteq> S \<Longrightarrow>
      \<forall>(l, v) \<in> set (foldl ?f m xs). \<forall>ci \<in> set v. target ci = Some l \<and> ci \<in> S" for m S
  proof (induction xs arbitrary: m)
    case (Cons x xs)
    have "\<forall>(l, v) \<in> set (?f m x). \<forall>ci \<in> set v. target ci = Some l \<and> ci \<in> S"
    proof (cases "target x")
      case (Some alt)
      note set_hm_insert [of alt "(case hm_get m alt of None \<Rightarrow> [] | Some v \<Rightarrow> v) @ [x]" m]
      moreover have "(alt, v) \<in> set m" if "hm_get m alt = Some v" for v using that by (rule hm_get_in_set)
      ultimately show ?thesis using Cons.prems Some by (fastforce split: option.splits)
    qed (use Cons.prems in simp)
    then show ?case using Cons by simp
  qed simp
  from this [of "[]" "set xs"] show ?thesis using assms by (fastforce simp: by_lane_def)
qed

lemma best_lane_mem:
  assumes "best_lane fl lanes s free = Some (l, p)"
  shows "l \<in> set free \<and> p = picked_for fl lanes s l \<and> p \<noteq> []"
proof -
  define step where "step = (\<lambda>best l. let picked = picked_for fl lanes s l in
     if picked = [] then best
     else case best of
            None \<Rightarrow> Some (l, picked)
          | Some (bl, bp) \<Rightarrow>
              if (length picked, weight fl (s_cfg s) (s_lanes s ! l)) > (length bp, weight fl (s_cfg s) (s_lanes s ! bl))
              then Some (l, picked) else best)"
  have st: "step b f = b \<or> step b f = Some (f, picked_for fl lanes s f) \<and> picked_for fl lanes s f \<noteq> []" for b f
    by (auto simp: step_def Let_def split: option.splits)
  have "foldl step b xs = Some (l, p) \<Longrightarrow> (l \<in> set xs \<and> p = picked_for fl lanes s l \<and> p \<noteq> []) \<or> b = Some (l, p)" for b xs
  proof (induction xs arbitrary: b)
    case (Cons f xs)
    from Cons.prems have "foldl step (step b f) xs = Some (l, p)" by simp
    from Cons.IH [OF this] st [of b f] show ?case by (elim disjE conjE) (simp_all, blast?)
  qed simp
  then show ?thesis using assms unfolding best_lane_def step_def by blast
qed

lemma sched_inv_expire: "sched_inv s \<Longrightarrow> sched_inv (expire_backoffs now s)"
  by (auto simp: sched_inv_but_def expire_backoffs_def lanes_ok_def split: lane_health.splits)

definition ord_ok :: "((usize \<times> usize list) list \<Rightarrow> (usize \<times> usize list) list) \<Rightarrow> bool" where
  "ord_ok ord = (\<forall>xs. mset (ord xs) = mset xs)"

lemma rank_nth_mem:
  assumes "rank_nth fl s ci lanes n = Some l"
  shows "l \<in> set lanes"
proof -
  let ?sc = "sort_key (\<lambda>(sc, l). (- sc, l)) (map (\<lambda>l. (score fl s ci l, l)) lanes)"
  have "n < length ?sc" "l = snd (?sc ! n)" using assms by (simp_all add: rank_nth_def Let_def split: if_splits)
  then have "l \<in> snd ` set ?sc" by (blast intro: nth_mem)
  then show ?thesis unfolding set_sort by auto
qed

lemma hedge_target_Some:
  assumes "hedge_target fl now lanes s ci = Some l"
  shows "l \<in> set lanes \<and> has_room s l \<and> cs_phase (s_chunks s ! ci) = InFlight \<and> \<not> cs_hedged (s_chunks s ! ci)"
  using assms rank_nth_mem [of fl s ci lanes 1 l]
  by (auto simp: hedge_target_def Let_def simp del: One_nat_def split: if_splits option.splits)

lemma next_hedge_cases:
  assumes "next_hedge fl ord now s = (r, s')" "ord_ok ord"
  obtains (none) "r = None" "s' = s"
  | (hedge) l p a where "r = Some a" "p \<noteq> []" "l < length (s_lanes s)" "eligible now (s_lanes s ! l)" "has_room s l"
      "length p \<le> batch_size (s_cfg s) (s_lanes s ! l)" "s_hedges_used s + length p \<le> hedge_budget fl s"
      "\<And>ci. ci \<in> set p \<Longrightarrow> ci < length (s_chunks s) \<and> cs_phase (s_chunks s ! ci) = InFlight \<and> \<not> cs_hedged (s_chunks s ! ci)"
      "(a, s') = dispatch l p True now
         (foldl (\<lambda>s ci. upd_chunk ci (\<lambda>c. c\<lparr>cs_hedged := True\<rparr>) s) (s\<lparr>s_hedges_used := s_hedges_used s + length p\<rparr>) p)"
proof -
  define lanes where "lanes = eligible_lanes now s"
  define m where "m = by_lane (hedge_target fl now lanes s) [0..<length (s_chunks s)]"
  define room where "room = (\<lambda>l. min (batch_size (s_cfg s) (s_lanes s ! l)) (hedge_budget fl s - s_hedges_used s))"
  have nh: "next_hedge fl ord now s =
     (if s_hedges_used s \<ge> hedge_budget fl s then (None, s)
      else if length lanes < 2 then (None, s)
      else case last_max (\<lambda>(_, v). length v) (ord m) of
            None \<Rightarrow> (None, s)
          | Some (l, v) \<Rightarrow>
              if take (room l) v = [] then (None, s)
              else (case dispatch l (take (room l) v) True now
                     (foldl (\<lambda>s ci. upd_chunk ci (\<lambda>c. c\<lparr>cs_hedged := True\<rparr>) s)
                       (s\<lparr>s_hedges_used := s_hedges_used s + length (take (room l) v)\<rparr>) (take (room l) v)) of
                    (a, s3) \<Rightarrow> (Some a, s3)))"
    unfolding next_hedge_def Let_def lanes_def m_def room_def by (rule refl)
  show thesis
  proof (cases "r = None \<and> s' = s")
    case True
    then show ?thesis by (intro none) auto
  next
    case False
    obtain l v where lv: "last_max (\<lambda>(_, v). length v) (ord m) = Some (l, v)"
      using False assms(1) unfolding nh by (cases "last_max (\<lambda>(_, v). length v) (ord m)") (auto split: if_splits)
    define p where "p = take (room l) v"
    have p: "p \<noteq> []" and used: "s_hedges_used s < hedge_budget fl s"
      using False assms(1) unfolding nh lv p_def by (auto split: if_splits)
    obtain a where a: "(a, s') = dispatch l p True now
        (foldl (\<lambda>s ci. upd_chunk ci (\<lambda>c. c\<lparr>cs_hedged := True\<rparr>) s) (s\<lparr>s_hedges_used := s_hedges_used s + length p\<rparr>) p)" "r = Some a"
      using False assms(1) unfolding nh lv p_def [symmetric] option.case prod.case
      by (cases "dispatch l p True now
        (foldl (\<lambda>s ci. upd_chunk ci (\<lambda>c. c\<lparr>cs_hedged := True\<rparr>) s) (s\<lparr>s_hedges_used := s_hedges_used s + length p\<rparr>) p)")
        (simp split: if_splits)
    have "set (ord m) = set m" using assms(2) mset_eq_setD unfolding ord_ok_def by blast
    then have t: "hedge_target fl now lanes s ci = Some l \<and> ci < length (s_chunks s)" if "ci \<in> set v" for ci
      using last_max_mem [OF lv] by_lane_targets [of l v "hedge_target fl now lanes s" "[0..<length (s_chunks s)]" ci] that
      by (simp add: m_def)
    note ht = hedge_target_Some [OF conjunct1 [OF t]]
    obtain c where c: "c \<in> set v" using p by (cases v) (auto simp: p_def)
    have pv: "ci \<in> set v" if "ci \<in> set p" for ci using that unfolding p_def by (rule in_set_takeD)
    show ?thesis
    proof (rule hedge [OF a(2) p _ _ _ _ _ _ a(1)])
      show "length p \<le> batch_size (s_cfg s) (s_lanes s ! l)" "s_hedges_used s + length p \<le> hedge_budget fl s"
        using used by (auto simp: p_def room_def)
    qed (use ht [OF c] ht [OF pv] t [OF pv] in \<open>auto simp: lanes_def eligible_lanes_def\<close>)
  qed
qed

lemma sched_inv_hedged_flag:
  "sched_inv s \<Longrightarrow> sched_inv (foldl (\<lambda>s ci. upd_chunk ci (\<lambda>c. c\<lparr>cs_hedged := True\<rparr>) s) s p)"
proof (induction p arbitrary: s)
  case (Cons a p)
  have "list_all2 same_view ((s_chunks s)[a := (s_chunks s ! a)\<lparr>cs_hedged := True\<rparr>]) (s_chunks s)"
  proof (rule list_all2_all_nthI)
    fix i assume "i < length ((s_chunks s)[a := (s_chunks s ! a)\<lparr>cs_hedged := True\<rparr>])"
    then show "same_view ((s_chunks s)[a := (s_chunks s ! a)\<lparr>cs_hedged := True\<rparr>] ! i) (s_chunks s ! i)"
      by (cases "a = i") (simp_all add: same_view_def)
  qed simp
  then show ?case using Cons sched_inv_same_view [of "{}" s] by (simp add: upd_chunk_def)
qed simp

lemma foldl_hedged_nth:
  "i < length (s_chunks s) \<Longrightarrow>
   cs_phase (s_chunks (foldl (\<lambda>s ci. upd_chunk ci (\<lambda>c. c\<lparr>cs_hedged := True\<rparr>) s) s p) ! i) = cs_phase (s_chunks s ! i)"
proof (induction p arbitrary: s)
  case (Cons a p)
  then show ?case by (cases "a = i") (auto simp: upd_chunk_def)
qed simp

lemma sched_inv_next_hedge:
  assumes "sched_inv s" "ord_ok ord"
  shows "sched_inv (snd (next_hedge fl ord now s))"
proof -
  obtain r s' where e: "next_hedge fl ord now s = (r, s')" by (cases "next_hedge fl ord now s")
  from e assms(2) show ?thesis
  proof (cases rule: next_hedge_cases)
    case none
    then show ?thesis using e assms by simp
  next
    case (hedge l p a)
    let ?t = "s\<lparr>s_hedges_used := s_hedges_used s + length p\<rparr>"
    have "sched_inv (snd (dispatch l p True now (foldl (\<lambda>s ci. upd_chunk ci (\<lambda>c. c\<lparr>cs_hedged := True\<rparr>) s) ?t p)))"
      by (rule sched_inv_dispatch) (use hedge assms in \<open>auto simp: foldl_hedged_nth intro: sched_inv_hedged_flag\<close>)
    then show ?thesis using e hedge by (metis snd_conv)
  qed
qed

lemma pick_until_length:
  "0 < n \<Longrightarrow> length acc < n \<Longrightarrow> length (pick_until want n acc xs) \<le> n"
  by (induction want n acc xs rule: pick_until.induct) auto

lemma picked_for_props:
  shows "ci \<in> set (picked_for fl lanes s l) \<Longrightarrow> ci \<in> set (s_pending s) \<and> pending_only s ci"
    and "0 < batch_size (s_cfg s) (s_lanes s ! l) \<Longrightarrow> length (picked_for fl lanes s l) \<le> batch_size (s_cfg s) (s_lanes s ! l)"
  using pick_until_set unfolding picked_for_def by (fastforce, intro pick_until_length) auto

definition first_choice :: "(real \<Rightarrow> real) \<Rightarrow> nat \<Rightarrow> scheduler \<Rightarrow> usize list \<Rightarrow> (usize \<times> usize list) option" where
  "first_choice fl now t free =
     (case best_lane fl (eligible_lanes now t) t free of
        Some b \<Rightarrow> Some b
      | None \<Rightarrow>
          (case last_max (\<lambda>l. weight fl (s_cfg t) (s_lanes t ! l)) free of
             None \<Rightarrow> None
           | Some l \<Rightarrow>
               let picked = take (batch_size (s_cfg t) (s_lanes t ! l)) (filter (pending_only t) (s_pending t))
               in if picked = [] then None else Some (l, picked)))"

definition free_lanes :: "nat \<Rightarrow> scheduler \<Rightarrow> usize list" where
  "free_lanes now t = filter (\<lambda>l. eligible now (s_lanes t ! l) \<and> has_room t l) [0..<length (s_lanes t)]"

lemma sched_next_unfold:
  "sched_next fl ord now s =
     (case next_hedge fl ord now (expire_backoffs now s) of
        (Some a, t) \<Rightarrow> (Some a, t)
      | (None, t) \<Rightarrow>
          if s_pending t = [] then (None, t)
          else if free_lanes now t = [] then (None, t)
          else case first_choice fl now t (free_lanes now t) of
                      None \<Rightarrow> (None, t)
                    | Some (l, picked) \<Rightarrow> (case dispatch l picked False now t of (a, s3) \<Rightarrow> (Some a, s3)))"
  unfolding sched_next_def first_choice_def free_lanes_def Let_def by (rule refl)

lemma first_choice_Some:
  assumes "first_choice fl now t free = Some (l, p)"
  shows "l \<in> set free \<and> p \<noteq> [] \<and> (\<forall>ci \<in> set p. ci \<in> set (s_pending t) \<and> pending_only t ci) \<and>
    (0 < batch_size (s_cfg t) (s_lanes t ! l) \<longrightarrow> length p \<le> batch_size (s_cfg t) (s_lanes t ! l))"
proof (cases "best_lane fl (eligible_lanes now t) t free")
  case (Some b)
  then have "best_lane fl (eligible_lanes now t) t free = Some (l, p)" using assms by (simp add: first_choice_def)
  from best_lane_mem [OF this] show ?thesis using picked_for_props by blast
next
  case None
  then obtain "last_max (\<lambda>l. weight fl (s_cfg t) (s_lanes t ! l)) free = Some l" "p \<noteq> []"
      "p = take (batch_size (s_cfg t) (s_lanes t ! l)) (filter (pending_only t) (s_pending t))"
    using assms by (auto simp: first_choice_def Let_def split: option.splits if_splits)
  then show ?thesis using last_max_mem by (fastforce dest: in_set_takeD)
qed

lemma sched_next_cases:
  assumes "sched_next fl ord now s = (r, s')" "ord_ok ord" "t = expire_backoffs now s"
  obtains (none) "r = None" "s' = t"
  | (hedge) a where "r = Some a" "next_hedge fl ord now t = (Some a, s')"
  | (first) l p a where "r = Some a" "p \<noteq> []" "l < length (s_lanes t)" "eligible now (s_lanes t ! l)" "has_room t l"
      "0 < batch_size (s_cfg t) (s_lanes t ! l) \<longrightarrow> length p \<le> batch_size (s_cfg t) (s_lanes t ! l)"
      "\<forall>ci \<in> set p. ci \<in> set (s_pending t) \<and> pending_only t ci"
      "(a, s') = dispatch l p False now t"
proof -
  obtain r' t' where nh: "next_hedge fl ord now t = (r', t')" by (cases "next_hedge fl ord now t")
  have sn: "sched_next fl ord now s = (case (r', t') of
        (Some a, t) \<Rightarrow> (Some a, t)
      | (None, t) \<Rightarrow>
          if s_pending t = [] then (None, t)
          else if free_lanes now t = [] then (None, t)
          else case first_choice fl now t (free_lanes now t) of
                      None \<Rightarrow> (None, t)
                    | Some (l, picked) \<Rightarrow> (case dispatch l picked False now t of (a, s3) \<Rightarrow> (Some a, s3)))"
    using sched_next_unfold [of fl ord now s] assms(3) nh by simp
  show thesis
  proof (cases r')
    case (Some a)
    then show ?thesis using sn assms(1) nh by (intro hedge) auto
  next
    case None
    have t: "t' = t" using nh assms(2) by (cases rule: next_hedge_cases) (auto simp: None)
    show ?thesis
    proof (cases "r = None")
      case True
      then show ?thesis using sn assms(1) None t by (intro none) (auto split: if_splits option.splits prod.splits)
    next
      case False
      then obtain l p where c: "first_choice fl now t (free_lanes now t) = Some (l, p)"
        using sn assms(1) None t by (auto split: if_splits option.splits)
      have "l \<in> set (free_lanes now t)" using first_choice_Some [OF c] by blast
      moreover obtain a where "r = Some a" "(a, s') = dispatch l p False now t"
        using False sn assms(1) None t c by (cases "dispatch l p False now t") (auto split: if_splits)
      ultimately show ?thesis using first_choice_Some [OF c] by (intro first) (auto simp: free_lanes_def)
    qed
  qed
qed

lemma sched_inv_next:
  assumes "sched_inv s" "ord_ok ord"
  shows "sched_inv (snd (sched_next fl ord now s))"
proof -
  let ?t = "expire_backoffs now s"
  have t: "sched_inv ?t" by (rule sched_inv_expire [OF assms(1)])
  obtain r s' where e: "sched_next fl ord now s = (r, s')" by (cases "sched_next fl ord now s")
  from e assms(2) refl show ?thesis
  proof (cases rule: sched_next_cases)
    case none
    then show ?thesis using t e by simp
  next
    case (hedge a)
    then show ?thesis using sched_inv_next_hedge [OF t assms(2), of fl now] e by simp
  next
    case (first l p a)
    have "sched_inv (snd (dispatch l p False now ?t))"
      by (rule sched_inv_dispatch [OF t])
        (use first t in \<open>auto simp: pending_only_def sched_inv_but_def queue_ok_def\<close>)
    then show ?thesis using e first by (metis snd_conv)
  qed
qed

section \<open>Runs\<close>

text \<open>The calls the push driver makes, in the order it makes them.\<close>

datatype sched_op =
    OpInfo usize lane_info
  | OpAdmit "(bytes \<times> nat) list"
  | OpAdmitGroup "(bytes \<times> nat) list" nat
  | OpNext nat
  | OpAck usize bytes bool
  | OpFund usize
  | OpRetire usize
  | OpBatchMax usize usize
  | OpResult nat batch_outcome nat
  | OpTiming usize usize nat

fun sched_step :: "(real \<Rightarrow> real) \<Rightarrow> ((usize \<times> usize list) list \<Rightarrow> (usize \<times> usize list) list) \<Rightarrow> scheduler \<Rightarrow> sched_op
    \<Rightarrow> scheduler" where
  "sched_step fl ord s (OpInfo l info) = set_lane_info l info s"
| "sched_step fl ord s (OpAdmit cs) = snd (sched_admit cs s)"
| "sched_step fl ord s (OpAdmitGroup cs need) = snd (admit_group cs need s)"
| "sched_step fl ord s (OpNext now) = snd (sched_next fl ord now s)"
| "sched_step fl ord s (OpAck l addr ok) = on_ack l addr ok s"
| "sched_step fl ord s (OpFund l) = fund_lane l s"
| "sched_step fl ord s (OpRetire l) = retire_lane l s"
| "sched_step fl ord s (OpBatchMax l n) = set_lane_batch_max l n s"
| "sched_step fl ord s (OpResult b outcome now) = on_batch_result b outcome now s"
| "sched_step fl ord s (OpTiming l n ms) = on_batch_timing fl l n ms s"

definition sched_run :: "(real \<Rightarrow> real) \<Rightarrow> ((usize \<times> usize list) list \<Rightarrow> (usize \<times> usize list) list) \<Rightarrow> scheduler
    \<Rightarrow> sched_op list \<Rightarrow> scheduler" where
  "sched_run fl ord = foldl (sched_step fl ord)"

lemma sched_inv_with_policy: "sched_inv (with_policy lanes cfg policy)"
  by (auto simp: sched_inv_but_def with_policy_def index_ok_def counts_ok_def phase_count_def queue_ok_def phases_ok_def
      carried_ok_def posts_ok_def lanes_ok_def new_lane_def hm_wf_def hm_sum_def case_prod_beta)

lemma sched_inv_step:
  assumes "sched_inv s" "ord_ok ord"
  shows "sched_inv (sched_step fl ord s p)"
  using assms
  by (cases p) (auto simp: set_lane_info_def fund_lane_def retire_lane_def set_lane_batch_max_def on_batch_timing_def Let_def
      intro: sched_inv_upd_lane sched_inv_admit sched_inv_admit_group sched_inv_next sched_inv_ack sched_inv_result)

lemma sched_inv_run:
  assumes "ord_ok ord" "sched_inv s"
  shows "sched_inv (sched_run fl ord s ops)"
  using assms(2) unfolding sched_run_def by (induction ops arbitrary: s) (simp_all add: sched_inv_step assms(1))

subsection \<open>Where a delivered chunk comes from\<close>

text \<open>From \<open>cs\<close> to \<open>cs'\<close> chunks keep their place and address, and one becomes delivered only if its address is in \<open>A\<close>.\<close>

definition evolves :: "bytes set \<Rightarrow> chunk_state list \<Rightarrow> chunk_state list \<Rightarrow> bool" where
  "evolves A cs cs' =
     (length cs \<le> length cs' \<and> (\<forall>i < length cs. cs_addr (cs' ! i) = cs_addr (cs ! i)) \<and>
      (\<forall>i < length cs'. cs_phase (cs' ! i) = Done \<longrightarrow> i < length cs \<and> cs_phase (cs ! i) = Done \<or> cs_addr (cs' ! i) \<in> A))"

lemma evolves_refl [simp, intro]: "evolves A cs cs"
  by (simp add: evolves_def)

lemma evolves_trans [trans]:
  assumes "evolves A cs cs'" "evolves A cs' cs''"
  shows "evolves A cs cs''"
proof -
  have len: "length cs \<le> length cs'" "length cs' \<le> length cs''" using assms by (simp_all add: evolves_def)
  have addr: "cs_addr (cs'' ! i) = cs_addr (cs' ! i)" if "i < length cs'" for i using assms(2) that by (simp add: evolves_def)
  have addr': "cs_addr (cs' ! i) = cs_addr (cs ! i)" if "i < length cs" for i using assms(1) that by (simp add: evolves_def)
  have "i < length cs \<and> cs_phase (cs ! i) = Done \<or> cs_addr (cs'' ! i) \<in> A" if i: "i < length cs''" "cs_phase (cs'' ! i) = Done" for i
  proof -
    have "i < length cs' \<and> cs_phase (cs' ! i) = Done \<or> cs_addr (cs'' ! i) \<in> A" using assms(2) i by (simp add: evolves_def)
    moreover have "i < length cs \<and> cs_phase (cs ! i) = Done \<or> cs_addr (cs' ! i) \<in> A" if "i < length cs'" "cs_phase (cs' ! i) = Done"
      using assms(1) that by (simp add: evolves_def)
    ultimately show ?thesis using addr by metis
  qed
  then show ?thesis using len addr addr' unfolding evolves_def by (simp add: order_less_le_trans)
qed

lemma evolves_upd:
  assumes "\<And>c. cs_addr (f c) = cs_addr c"
    "cs_phase (f (s_chunks s ! ci)) = Done \<Longrightarrow> cs_phase (s_chunks s ! ci) = Done \<or> cs_addr (s_chunks s ! ci) \<in> A"
  shows "evolves A (s_chunks s) (s_chunks (upd_chunk ci f s))"
  unfolding evolves_def upd_chunk_def
proof (simp, intro conjI allI impI)
  fix i assume i: "i < length (s_chunks s)"
  show "cs_addr ((s_chunks s)[ci := f (s_chunks s ! ci)] ! i) = cs_addr (s_chunks s ! i)"
    using i assms(1) by (cases "ci = i") auto
  assume "cs_phase ((s_chunks s)[ci := f (s_chunks s ! ci)] ! i) = Done"
  then show "cs_phase (s_chunks s ! i) = Done \<or> cs_addr ((s_chunks s)[ci := f (s_chunks s ! ci)] ! i) \<in> A"
    using i assms by (cases "ci = i") auto
qed

lemma evolves_foldl:
  assumes "\<And>s x. evolves A (s_chunks s) (s_chunks (f s x))"
  shows "evolves A (s_chunks s) (s_chunks (foldl f s xs))"
proof (induction xs arbitrary: s)
  case (Cons x xs)
  then show ?case using evolves_trans [OF assms [of s x] Cons.IH] by simp
qed simp

lemma evolves_list_all2:
  assumes "list_all2 (\<lambda>c c'. cs_addr c' = cs_addr c \<and> (cs_phase c' = Done \<longrightarrow> cs_phase c = Done)) cs cs'"
  shows "evolves A cs cs'"
  using assms by (auto simp: evolves_def list_all2_conv_all_nth)

lemma evolves_admit_one: "evolves A (s_chunks s) (s_chunks (admit_one s p))"
  by (cases p) (auto simp: admit_one_def evolves_def Let_def nth_append)

lemma evolves_admit: "evolves A (s_chunks s) (s_chunks (snd (sched_admit cs s)))"
  by (simp add: sched_admit_def Let_def evolves_foldl evolves_admit_one)

lemma evolves_admit_group: "evolves A (s_chunks s) (s_chunks (snd (admit_group cs need s)))"
proof -
  let ?s = "snd (sched_admit cs (s\<lparr>s_groups := s_groups s @ [\<lparr>gs_need = need, gs_acked = 0\<rparr>]\<rparr>))"
  have "evolves A (s_chunks s) (s_chunks ?s)" using evolves_admit [of A "s\<lparr>s_groups := s_groups s @ [\<lparr>gs_need = need, gs_acked = 0\<rparr>]\<rparr>"] by simp
  also have "evolves A (s_chunks ?s) (s_chunks (snd (admit_group cs need s)))"
    by (rule evolves_list_all2) (auto simp: admit_group_def sched_admit_def Let_def list_all2_conv_all_nth)
  finally show ?thesis .
qed

lemma evolves_dispatch: "evolves A (s_chunks s) (s_chunks (snd (dispatch l p h now s)))"
proof -
  have "evolves A (s_chunks (s\<lparr>s_next_batch_id := s_next_batch_id s + 1\<rparr>))
      (s_chunks (foldl (\<lambda>s ci. upd_chunk ci (dispatch_chunk l h now) s) (s\<lparr>s_next_batch_id := s_next_batch_id s + 1\<rparr>) p))"
    by (intro evolves_foldl evolves_upd) (auto simp: dispatch_chunk_def Let_def split: if_splits)
  then show ?thesis by (cases h) (simp_all add: dispatch_def Let_def)
qed

lemma evolves_next:
  assumes "ord_ok ord"
  shows "evolves A (s_chunks s) (s_chunks (snd (sched_next fl ord now s)))"
proof -
  obtain r s' where e: "sched_next fl ord now s = (r, s')" by (cases "sched_next fl ord now s")
  from e assms refl have "evolves A (s_chunks (expire_backoffs now s)) (s_chunks s')"
  proof (cases rule: sched_next_cases)
    case (hedge a)
    from hedge(2) assms show ?thesis
    proof (cases rule: next_hedge_cases)
      case h: (hedge l p b)
      let ?t = "(expire_backoffs now s)\<lparr>s_hedges_used := s_hedges_used (expire_backoffs now s) + length p\<rparr>"
      let ?u = "foldl (\<lambda>s ci. upd_chunk ci (\<lambda>c. c\<lparr>cs_hedged := True\<rparr>) s) ?t p"
      have "evolves A (s_chunks ?t) (s_chunks ?u)" by (intro evolves_foldl evolves_upd) auto
      also have "evolves A (s_chunks ?u) (s_chunks s')" using evolves_dispatch [of A ?u l p True now] h(9) by (metis snd_conv)
      finally show ?thesis by simp
    qed simp
  next
    case (first l p a)
    then show ?thesis using evolves_dispatch [of A "expire_backoffs now s" l p False now] by (metis snd_conv)
  qed simp
  then show ?thesis using e by (simp add: expire_backoffs_def)
qed

lemma evolves_group_ack: "evolves A (s_chunks s) (s_chunks (on_group_ack ci s))"
  by (auto simp: on_group_ack_def skip_members_def Let_def intro!: evolves_list_all2 split: option.split)
    (auto simp: list_all2_conv_all_nth)

lemma evolves_ack:
  assumes "sched_inv s"
  shows "evolves (if ok then {addr} else {}) (s_chunks s) (s_chunks (on_ack l addr ok s))"
proof (cases "hm_get (s_index s) addr")
  case None
  then show ?thesis by (simp add: on_ack_def)
next
  case (Some ci)
  have a: "cs_addr (s_chunks s ! ci) = addr" using assms Some by (auto simp: sched_inv_but_def index_ok_def)
  let ?s1 = "upd_chunk ci (\<lambda>c. c\<lparr>cs_phase := Done, cs_on := []\<rparr>) s"
  let ?s2 = "?s1\<lparr>s_acked := s_acked ?s1 + 1\<rparr>"
  let ?s3 = "upd_lane l (\<lambda>l. l\<lparr>ln_acked_total := ln_acked_total l + 1,
                       ln_bytes_total := ln_bytes_total l + cs_size (s_chunks ?s2 ! ci)\<rparr>) ?s2"
  have ok: "evolves {addr} (s_chunks s) (s_chunks (on_group_ack ci ?s3))"
  proof -
    have "evolves {addr} (s_chunks s) (s_chunks ?s3)" using evolves_upd [of "\<lambda>c. c\<lparr>cs_phase := Done, cs_on := []\<rparr>" s ci "{addr}"] a by simp
    also have "evolves {addr} (s_chunks ?s3) (s_chunks (on_group_ack ci ?s3))" by (rule evolves_group_ack)
    finally show ?thesis .
  qed
  let ?e1 = "upd_lane l (\<lambda>l. l\<lparr>ln_failed_total := ln_failed_total l + 1\<rparr>) s"
  let ?e2 = "upd_chunk ci (\<lambda>c. c\<lparr>cs_on := filter (\<lambda>l'. l' \<noteq> l) (cs_on c)\<rparr>) ?e1"
  have e2: "evolves {} (s_chunks s) (s_chunks ?e2)" using evolves_upd [of "\<lambda>c. c\<lparr>cs_on := filter (\<lambda>l'. l' \<noteq> l) (cs_on c)\<rparr>" ?e1 ci "{}"] by simp
  have e3: "evolves {} (s_chunks s) (s_chunks (upd_chunk ci f ?e2))" if "\<And>c. cs_addr (f c) = cs_addr c" "\<And>c. cs_phase (f c) \<noteq> Done" for f
    using evolves_trans [OF e2 evolves_upd [of f ?e2 ci "{}"]] that by simp
  show ?thesis
    using Some ok e2 e3 [of "\<lambda>c. c\<lparr>cs_phase := Failed\<rparr>"] e3 [of "\<lambda>c. c\<lparr>cs_phase := Pending, cs_hedged := False\<rparr>"]
    unfolding on_ack_def by (simp add: Let_def)
qed

lemma evolves_requeue: "evolves A (s_chunks s) (s_chunks (requeue l s ci))"
proof -
  let ?s1 = "upd_chunk ci (\<lambda>c. c\<lparr>cs_on := filter (\<lambda>l'. l' \<noteq> l) (cs_on c)\<rparr>) s"
  have 1: "evolves A (s_chunks s) (s_chunks ?s1)" by (rule evolves_upd) auto
  have "evolves A (s_chunks s) (s_chunks (upd_chunk ci f ?s1))" if "\<And>c. cs_addr (f c) = cs_addr c" "\<And>c. cs_phase (f c) \<noteq> Done" for f
    using evolves_trans [OF 1 evolves_upd [of f ?s1 ci A]] that by simp
  from this [of "\<lambda>c. c\<lparr>cs_phase := Failed\<rparr>"] this [of "\<lambda>c. c\<lparr>cs_phase := Pending, cs_hedged := False\<rparr>"] 1
  show ?thesis unfolding requeue_def by (simp add: Let_def)
qed

lemma evolves_refund: "evolves A (s_chunks s) (s_chunks (refund_attempt s ci))"
  using evolves_upd [of "\<lambda>c. c\<lparr>cs_attempts := cs_attempts c - 1\<rparr>" s ci A] by (simp add: refund_attempt_def)

lemma evolves_result: "evolves A (s_chunks s) (s_chunks (on_batch_result b outcome now s))"
proof (cases "hm_get (s_outstanding s) b")
  case (Some p)
  obtain l ixs where p: "p = (l, ixs)" by (cases p)
  have r: "evolves A (s_chunks t) (s_chunks (foldl (requeue l) t ixs))" for t by (rule evolves_foldl [OF evolves_requeue])
  have f: "evolves A (s_chunks t) (s_chunks (foldl refund_attempt t ixs))" for t by (rule evolves_foldl [OF evolves_refund])
  define s2 where "s2 = upd_lane l (\<lambda>l. l\<lparr>ln_inflight := ln_inflight l - 1\<rparr>) (s\<lparr>s_outstanding := hm_remove b (s_outstanding s)\<rparr>)"
  have s2: "s_chunks s2 = s_chunks s" by (simp add: s2_def)
  show ?thesis
    unfolding on_batch_result_def Some p option.case prod.case Let_def s2_def [symmetric]
    using r [of "upd_lane l g s2" for g] evolves_trans [OF f [of "upd_lane l g s2" for g] r] s2
    by (cases outcome) simp_all
qed (simp add: on_batch_result_def)

fun acked_by :: "sched_op \<Rightarrow> bytes set" where
  "acked_by (OpAck l addr ok) = (if ok then {addr} else {})"
| "acked_by _ = {}"

lemma evolves_step:
  assumes "sched_inv s" "ord_ok ord"
  shows "evolves (acked_by p) (s_chunks s) (s_chunks (sched_step fl ord s p))"
proof (cases p)
  case (OpAck l addr ok)
  then show ?thesis using evolves_ack [OF assms(1)] by simp
qed (use assms in \<open>simp_all add: set_lane_info_def fund_lane_def retire_lane_def set_lane_batch_max_def on_batch_timing_def
  evolves_admit evolves_admit_group evolves_next evolves_result\<close>)

fun admitted_by :: "sched_op \<Rightarrow> bytes set" where
  "admitted_by (OpAdmit cs) = fst ` set cs"
| "admitted_by (OpAdmitGroup cs need) = fst ` set cs"
| "admitted_by _ = {}"

lemma evolves_addrs:
  assumes "evolves A cs cs'"
  shows "cs_addr ` set cs \<subseteq> cs_addr ` set cs'"
proof
  fix a assume "a \<in> cs_addr ` set cs"
  then obtain i where "i < length cs" "a = cs_addr (cs ! i)" by (auto simp: in_set_conv_nth)
  then have "i < length cs'" "a = cs_addr (cs' ! i)" using assms by (simp_all add: evolves_def)
  then show "a \<in> cs_addr ` set cs'" by simp
qed

lemma admit_one_mem: "sched_inv s \<Longrightarrow> fst x \<in> cs_addr ` set (s_chunks (admit_one s x))"
  by (cases x) (force simp: admit_one_def Let_def hm_contains_def sched_inv_but_def index_ok_def)

lemma admits: "sched_inv s \<Longrightarrow> fst ` set cs \<subseteq> cs_addr ` set (s_chunks (snd (sched_admit cs s)))"
proof (induction cs arbitrary: s)
  case (Cons x cs)
  let ?s = "admit_one s x"
  have "fst ` set cs \<subseteq> cs_addr ` set (s_chunks (snd (sched_admit cs ?s)))"
    by (rule Cons.IH) (rule sched_inv_admit_one [OF Cons.prems])
  moreover have "fst x \<in> cs_addr ` set (s_chunks (snd (sched_admit cs ?s)))"
    using admit_one_mem [OF Cons.prems, of x] evolves_addrs [OF evolves_admit [of "{}" ?s cs]] by blast
  ultimately show ?case by (simp add: sched_admit_def Let_def)
qed simp

lemma admits_group:
  assumes "sched_inv s"
  shows "fst ` set cs \<subseteq> cs_addr ` set (s_chunks (snd (admit_group cs need s)))"
proof -
  let ?s = "s\<lparr>s_groups := s_groups s @ [\<lparr>gs_need = need, gs_acked = 0\<rparr>]\<rparr>"
  have "fst ` set cs \<subseteq> cs_addr ` set (s_chunks (snd (sched_admit cs ?s)))" using admits [of ?s cs] assms by simp
  also have "map cs_addr (s_chunks (snd (admit_group cs need s))) = map cs_addr (s_chunks (snd (sched_admit cs ?s)))"
    by (auto simp: admit_group_def sched_admit_def Let_def intro: nth_equalityI)
  then have "cs_addr ` set (s_chunks (snd (sched_admit cs ?s))) = cs_addr ` set (s_chunks (snd (admit_group cs need s)))"
    by (metis list.set_map)
  finally show ?thesis .
qed

definition delivered_ok :: "sched_op list \<Rightarrow> scheduler \<Rightarrow> bool" where
  "delivered_ok ops s = ((\<Union>p \<in> set ops. admitted_by p) \<subseteq> cs_addr ` set (s_chunks s) \<and>
     (\<forall>c \<in> set (s_chunks s). cs_phase c = Done \<longrightarrow> cs_addr c \<in> (\<Union>p \<in> set ops. acked_by p)))"

lemma delivered_ok_run:
  assumes "ord_ok ord"
  shows "delivered_ok ops (sched_run fl ord (with_policy lanes cfg policy) ops)"
proof (induction ops rule: rev_induct)
  case Nil
  then show ?case by (simp add: delivered_ok_def sched_run_def with_policy_def)
next
  case (snoc p ops)
  let ?s = "sched_run fl ord (with_policy lanes cfg policy) ops"
  let ?s' = "sched_step fl ord ?s p"
  have inv: "sched_inv ?s" by (rule sched_inv_run [OF assms sched_inv_with_policy])
  note ev = evolves_step [OF inv assms, of p fl]
  have "admitted_by p \<subseteq> cs_addr ` set (s_chunks ?s')" using admits [OF inv] admits_group [OF inv] by (cases p) auto
  moreover have "(\<Union>p \<in> set ops. admitted_by p) \<subseteq> cs_addr ` set (s_chunks ?s')"
    using snoc.IH evolves_addrs [OF ev] unfolding delivered_ok_def by blast
  moreover have "cs_addr c \<in> (\<Union>p \<in> set (ops @ [p]). acked_by p)" if c: "c \<in> set (s_chunks ?s')" "cs_phase c = Done" for c
  proof -
    obtain i where i: "i < length (s_chunks ?s')" "c = s_chunks ?s' ! i" using c(1) by (auto simp: in_set_conv_nth)
    then have "i < length (s_chunks ?s) \<and> cs_phase (s_chunks ?s ! i) = Done \<and> cs_addr c = cs_addr (s_chunks ?s ! i) \<or> cs_addr c \<in> acked_by p"
      using ev c(2) unfolding evolves_def by metis
    then show ?thesis using snoc.IH unfolding delivered_ok_def by (force dest: nth_mem)
  qed
  ultimately show ?case by (simp add: delivered_ok_def sched_run_def)
qed

lemma all_in_phase: "length cs \<le> phase_count p cs \<Longrightarrow> \<forall>c \<in> set cs. cs_phase c = p"
  unfolding phase_count_def by (meson leD length_filter_less)

lemma acked_all:
  assumes "sched_inv s" "\<not> s_acked s < length (s_chunks s)"
  shows "\<forall>c \<in> set (s_chunks s). cs_phase c = Done"
  using assms by (intro all_in_phase) (simp add: sched_inv_but_def counts_ok_def)

lemma acked_by_iff: "a \<in> acked_by p \<longleftrightarrow> (\<exists>l. p = OpAck l a True)"
  by (cases p) (simp_all, blast)

lemma acked_by_mem: "a \<in> (\<Union>p \<in> set ops. acked_by p) \<longleftrightarrow> (\<exists>l. OpAck l a True \<in> set ops)"
  by (simp only: UN_iff acked_by_iff) blast

text \<open>
  C9. The push driver returns success only when the scheduler's count of acknowledged chunks is not below the number of
  chunks. Whatever calls the driver made before that, every address it admitted was then acknowledged by a lane, each at
  least once: no chunk is missed and none is counted for another.\<close>

theorem push_success_sound:
  assumes "ord_ok ord" "s = sched_run fl ord (with_policy lanes cfg policy) ops"
    and "\<not> s_acked s < length (s_chunks s)" "a \<in> (\<Union>p \<in> set ops. admitted_by p)"
  shows "\<exists>l. OpAck l a True \<in> set ops"
proof -
  have "delivered_ok ops s" "sched_inv s"
    using assms(1,2) delivered_ok_run sched_inv_run sched_inv_with_policy by blast+
  then have "a \<in> (\<Union>p \<in> set ops. acked_by p)" using acked_all [of s] assms(3,4) unfolding delivered_ok_def by force
  then show ?thesis by (simp only: acked_by_mem)
qed

subsection \<open>Progress\<close>

lemma length_le_phases:
  assumes "\<forall>c \<in> set cs. cs_phase c \<in> {Done, Failed, Skipped}"
  shows "length cs \<le> phase_count Done cs + phase_count Failed cs + phase_count Skipped cs"
  using assms by (induction cs) (auto simp: phase_count_def)

lemma idle_has_pending:
  assumes inv: "sched_inv s" and "\<not> sched_done s" "s_outstanding s = []"
  shows "\<exists>ci \<in> set (s_pending s). pending_only s ci"
proof -
  have "\<not> (\<forall>c \<in> set (s_chunks s). cs_phase c \<in> {Done, Failed, Skipped})"
    using length_le_phases [of "s_chunks s"] assms(2) inv by (auto simp: sched_done_def sched_inv_but_def counts_ok_def)
  then obtain i where i: "i < length (s_chunks s)" "cs_phase (s_chunks s ! i) \<notin> {Done, Failed, Skipped}"
    by (auto simp: in_set_conv_nth)
  have "cs_on (s_chunks s ! i) = []"
  proof (rule ccontr)
    assume "cs_on (s_chunks s ! i) \<noteq> []"
    then obtain l where "l \<in> set (cs_on (s_chunks s ! i))" by (cases "cs_on (s_chunks s ! i)") auto
    then show False using inv i(1) assms(3) by (auto simp: sched_inv_but_def carried_ok_def)
  qed
  then have "cs_phase (s_chunks s ! i) = Pending"
    using inv i by (cases "cs_phase (s_chunks s ! i)") (auto simp: sched_inv_but_def phases_ok_def)
  then show ?thesis using inv i(1) by (auto simp: sched_inv_but_def queue_ok_def pending_only_def)
qed

lemma rank_lane_total: "lanes \<noteq> [] \<Longrightarrow> \<exists>l \<in> set lanes. rank_lane fl s ci lanes = Some l"
proof -
  assume "lanes \<noteq> []"
  then obtain l where "rank_lane fl s ci lanes = Some l" by (simp add: rank_lane_def rank_nth_def Let_def flip: length_greater_0_conv)
  then show ?thesis using rank_nth_mem unfolding rank_lane_def by blast
qed

lemma pick_until_nonempty: "acc \<noteq> [] \<or> (\<exists>x \<in> set xs. want x) \<Longrightarrow> pick_until want n acc xs \<noteq> []"
  by (induction want n acc xs rule: pick_until.induct) auto

lemma best_lane_nonempty:
  assumes "l \<in> set free" "picked_for fl lanes s l \<noteq> []"
  shows "best_lane fl lanes s free \<noteq> None"
proof -
  define step where "step = (\<lambda>best l. let picked = picked_for fl lanes s l in
     if picked = [] then best
     else case best of
            None \<Rightarrow> Some (l, picked)
          | Some (bl, bp) \<Rightarrow>
              if (length picked, weight fl (s_cfg s) (s_lanes s ! l)) > (length bp, weight fl (s_cfg s) (s_lanes s ! bl))
              then Some (l, picked) else best)"
  have keep: "b \<noteq> None \<or> picked_for fl lanes s f \<noteq> [] \<Longrightarrow> step b f \<noteq> None" for b f
    by (auto simp: step_def Let_def split: option.splits)
  have "b \<noteq> None \<or> l \<in> set xs \<Longrightarrow> foldl step b xs \<noteq> None" for b xs
  proof (induction xs arbitrary: b)
    case (Cons f xs)
    then have "step b f \<noteq> None \<or> l \<in> set xs" using keep [of b f] assms(2) by auto
    from Cons.IH [OF this] show ?case by simp
  qed simp
  then show ?thesis using assms(1) unfolding best_lane_def step_def by blast
qed

lemma idle_room:
  assumes "sched_inv s" "s_outstanding s = []" "l < length (s_lanes s)"
  shows "has_room s l"
  using assms by (auto simp: sched_inv_but_def lanes_ok_def has_room_def hm_sum_def capacity_def Let_def split: option.splits)

lemma idle_dispatches:
  assumes inv: "sched_inv s" and idle: "\<not> sched_done s" "s_outstanding s = []"
    and l: "l < length (s_lanes s)" "eligible now (s_lanes s ! l)"
  shows "s_pending s \<noteq> [] \<and> free_lanes now s \<noteq> [] \<and> first_choice fl now s (free_lanes now s) \<noteq> None"
proof -
  obtain ci where ci: "ci \<in> set (s_pending s)" "pending_only s ci" using idle_has_pending [OF inv idle] by blast
  have free: "free_lanes now s = eligible_lanes now s"
    unfolding free_lanes_def eligible_lanes_def by (rule filter_cong) (use idle_room [OF inv idle(2)] in auto)
  have ne: "eligible_lanes now s \<noteq> []" using l by (auto simp: eligible_lanes_def filter_empty_conv)
  obtain b where b: "b \<in> set (eligible_lanes now s)" "rank_lane fl s ci (eligible_lanes now s) = Some b"
    using rank_lane_total [OF ne] by blast
  have "picked_for fl (eligible_lanes now s) s b \<noteq> []"
    unfolding picked_for_def using ci b by (intro pick_until_nonempty) auto
  then have "best_lane fl (eligible_lanes now s) s (free_lanes now s) \<noteq> None" using best_lane_nonempty b(1) free by metis
  then show ?thesis using ci free ne by (auto simp: first_choice_def split: option.split)
qed

lemma wake_no_flight:
  assumes "\<forall>c \<in> set cs. \<not> (cs_phase c = InFlight \<and> \<not> cs_hedged c \<and> cs_on c \<noteq> [])"
  shows "foldl (\<lambda>w c. if cs_phase c = InFlight \<and> \<not> cs_hedged c \<and> cs_on c \<noteq> [] then f w c else w) w cs = w"
  using assms by (induction cs) auto

text \<open>The least deadline of the lanes backing off.\<close>

lemma wake_of_backoff:
  fixes ls :: "lane list" and now :: nat
  defines "g \<equiv> \<lambda>w l. case ln_health l of
      Backoff until \<Rightarrow> if until > now then Some (case w of None \<Rightarrow> until | Some x \<Rightarrow> min x until) else w | _ \<Rightarrow> w"
  assumes "(\<exists>t > now. w = Some t) \<or> (w = None \<and> (\<exists>l \<in> set ls. \<exists>until > now. ln_health l = Backoff until))"
  shows "\<exists>t > now. foldl g w ls = Some t"
  using assms(2)
proof (induction ls arbitrary: w)
  case (Cons l ls)
  have "(\<exists>t > now. g w l = Some t) \<or> (g w l = None \<and> (\<exists>l \<in> set ls. \<exists>until > now. ln_health l = Backoff until))"
    using Cons.prems unfolding g_def by (auto split: lane_health.splits)
  from Cons.IH [OF this] show ?case by simp
qed simp


lemma next_hedge_None: "ord_ok ord \<Longrightarrow> next_hedge fl ord now s = (None, s') \<Longrightarrow> s' = s"
  by (erule next_hedge_cases [rotated]) auto

lemma not_eligible_backoff:
  assumes "\<not> eligible now l" "ln_health l \<noteq> Retired" "ln_health l \<noteq> Unfunded"
  shows "\<exists>until > now. ln_health l = Backoff until"
  using assms by (auto simp: eligible_def split: lane_health.splits)

lemma no_eligible_outcome:
  assumes inv: "sched_inv s" and idle: "\<not> sched_done s" "s_outstanding s = []"
    and none: "\<forall>l \<in> set (s_lanes s). \<not> eligible now l"
  shows "stalled now s = Some AllLanesDown \<or> (stalled now s = None \<and> (\<exists>t > now. next_wake_ms fl now s = Some t))"
proof (cases "\<forall>l \<in> set (s_lanes s). ln_health l = Retired \<or> ln_health l = Unfunded")
  case True
  then show ?thesis using idle none by (auto simp: stalled_def list_ex_iff list_all_iff)
next
  case False
  then have bo: "\<exists>l \<in> set (s_lanes s). \<exists>until > now. ln_health l = Backoff until"
    using none not_eligible_backoff by blast
  have "cs_on c = []" if c: "c \<in> set (s_chunks s)" for c
  proof (rule ccontr)
    assume ne: "cs_on c \<noteq> []"
    obtain i where "i < length (s_chunks s)" "c = s_chunks s ! i" using c by (auto simp: in_set_conv_nth)
    moreover obtain l where "l \<in> set (cs_on c)" using ne by (cases "cs_on c") auto
    ultimately show False using inv idle(2) by (auto simp: sched_inv_but_def carried_ok_def)
  qed
  then have "\<exists>t > now. next_wake_ms fl now s = Some t"
    unfolding next_wake_ms_def Let_def using wake_of_backoff [of now None "s_lanes s"] bo by (subst wake_no_flight) auto
  moreover have "stalled now s = None" using False none by (auto simp: stalled_def list_ex_iff list_all_iff)
  ultimately show ?thesis by blast
qed

text \<open>
  C11. The push driver never hangs and never gives up while a lane is usable. Take any state a run of the scheduler
  reaches in which work is left and no request is in flight, and let the driver ask for the next assignment. Either it
  gets a non-empty batch, or no lane is usable and then exactly one of the two other branches of its loop applies: the
  run is reported as stalled with all lanes down, or there is a later instant to wake up at. In particular the stall
  reason \<^verbatim>\<open>ChunksExhausted\<close> does not occur.\<close>

theorem push_driver_never_stuck:
  assumes "ord_ok ord" "s = sched_run fl ord (with_policy lanes cfg policy) ops"
    and "in_flight s = 0" "\<not> sched_done s" "sched_next fl ord now s = (r, s')"
  shows "(\<exists>a. r = Some a \<and> as_chunks a \<noteq> []) \<or>
     (r = None \<and> (\<forall>l \<in> set (s_lanes s'). \<not> eligible now l) \<and>
      (stalled now s' = Some AllLanesDown \<or> (stalled now s' = None \<and> (\<exists>t > now. next_wake_ms fl now s' = Some t))))"
proof -
  let ?t = "expire_backoffs now s"
  have "sched_inv s" using assms(1,2) sched_inv_run sched_inv_with_policy by blast
  then have inv: "sched_inv ?t" by (rule sched_inv_expire)
  have idle: "\<not> sched_done ?t" "s_outstanding ?t = []"
    using assms(3,4) by (simp_all add: sched_done_def in_flight_def expire_backoffs_def)
  from assms(5,1) refl show ?thesis
  proof (cases rule: sched_next_cases)
    case none
    have no: "\<not> eligible now (s_lanes ?t ! l)" if l: "l < length (s_lanes ?t)" for l
    proof
      assume el: "eligible now (s_lanes ?t ! l)"
      have "next_hedge fl ord now ?t = (None, ?t)"
        using none assms(5) sched_next_unfold [of fl ord now s] next_hedge_None [OF assms(1), of fl now ?t]
        by (cases "next_hedge fl ord now ?t") (auto split: option.splits)
      then show False
        using idle_dispatches [OF inv idle l el, of fl] none assms(5) sched_next_unfold [of fl ord now s]
        by (auto split: option.splits prod.splits)
    qed
    have "\<forall>l \<in> set (s_lanes ?t). \<not> eligible now l" using no by (auto simp: in_set_conv_nth)
    with no_eligible_outcome [OF inv idle this, of fl] show ?thesis using none by simp
  next
    case (hedge a)
    from hedge(2) assms(1) show ?thesis
    proof (cases rule: next_hedge_cases)
      case h: (hedge l p b)
      then have "as_chunks a = p" by (simp add: dispatch_def Let_def)
      then show ?thesis using h hedge by simp
    qed simp
  next
    case (first l p a)
    then show ?thesis by (simp add: dispatch_def Let_def)
  qed
qed

subsection \<open>What an assignment respects\<close>

lemma foldl_upd_hedges [simp]: "s_hedges_used (foldl (\<lambda>s ci. upd_chunk ci f s) s ixs) = s_hedges_used s"
  by (induction ixs arbitrary: s) (simp_all add: upd_chunk_def)

lemma dispatch_shape:
  assumes "(a, s') = dispatch l p h now t" "l < length (s_lanes t)"
  shows "as_lane a = l \<and> as_chunks a = p \<and> as_hedge a = h \<and> s_hedges_used s' = s_hedges_used t \<and>
    hm_get (s_outstanding s') (as_batch a) = Some (l, p) \<and> ln_inflight (s_lanes s' ! l) = ln_inflight (s_lanes t ! l) + 1"
  using assms by (cases h) (auto simp: dispatch_def Let_def upd_lane_def)



subsection \<open>A concrete upload\<close>

definition demo_lane :: lane_info where
  "demo_lane = \<lparr>li_overlay = None, li_batch_max = None, li_inflight_max = None, li_budget_remaining_gb = None,
     li_pool_live = None, li_price_plur_per_kib = None, li_hard_enforcement = False\<rparr>"

definition demo_chunks :: "(bytes \<times> nat) list" where
  "demo_chunks = [(replicate 32 1, 100), (replicate 32 2, 200), (replicate 32 1, 100)]"

definition demo_upload :: "sched_op list \<Rightarrow> scheduler" where
  "demo_upload = sched_run (\<lambda>x. x) (\<lambda>m. m) (with_policy [demo_lane] (default_sched_config\<lparr>sc_max_attempts := 1\<rparr>) AllAcked)"

lemma demo_step:
  "demo_upload ops = s \<Longrightarrow> demo_upload (ops @ [p]) = sched_step (\<lambda>x. x) (\<lambda>m. m) s p"
  by (simp add: demo_upload_def sched_run_def)

definition demo_chunk :: "byte \<Rightarrow> nat \<Rightarrow> chunk_phase \<Rightarrow> chunk_state" where
  "demo_chunk b n ph = \<lparr>cs_addr = replicate 32 b, cs_size = n, cs_phase = ph, cs_attempts = (if ph = Pending then 0 else 1),
     cs_on = (if ph = InFlight then [0] else []), cs_since_ms = 0, cs_hedged = False, cs_group = None\<rparr>"

lemma demo_queued:
  "demo_upload [OpAdmit demo_chunks] =
     (with_policy [demo_lane] (default_sched_config\<lparr>sc_max_attempts := 1\<rparr>) AllAcked)
       \<lparr>s_chunks := [demo_chunk 1 100 Pending, demo_chunk 2 200 Pending],
        s_index := [(replicate 32 1, 0), (replicate 32 2, 1)], s_pending := [0, 1]\<rparr>"
  by (simp add: demo_upload_def sched_run_def sched_admit_def admit_one_def demo_chunks_def with_policy_def Let_def
      hm_contains_def hm_get_def hm_insert_def demo_chunk_def)


lemma demo_next:
  "sched_next (\<lambda>x. x) (\<lambda>m. m) 0 (demo_upload [OpAdmit demo_chunks]) =
     (Some \<lparr>as_batch = 1, as_lane = 0, as_chunks = [0, 1], as_hedge = False\<rparr>,
      (with_policy [demo_lane] (default_sched_config\<lparr>sc_max_attempts := 1\<rparr>) AllAcked)
       \<lparr>s_lanes := [(new_lane (0, demo_lane))\<lparr>ln_inflight := 1\<rparr>],
        s_chunks := [demo_chunk 1 100 InFlight, demo_chunk 2 200 InFlight], s_next_batch_id := 2,
        s_index := [(replicate 32 1, 0), (replicate 32 2, 1)], s_pending := [], s_outstanding := [(1, (0, [0, 1]))]\<rparr>)"
  unfolding demo_queued
  by (simp add: sched_next_def next_hedge_def expire_backoffs_def with_policy_def new_lane_def demo_lane_def Let_def hedge_budget_def
      eligible_lanes_def eligible_def has_room_def capacity_def best_lane_def picked_for_def pending_only_def rank_lane_def rank_nth_def
      batch_size_def default_sched_config_def demo_chunk_def dispatch_def upd_chunk_def upd_lane_def dispatch_chunk_def hm_insert_def)

lemma ord_ok_id: "ord_ok (\<lambda>m. m)"
  by (simp add: ord_ok_def)

text \<open>The two chunks of the upload are dispatched together and acknowledged.\<close>

definition demo_ops :: "sched_op list" where
  "demo_ops = [OpAdmit demo_chunks, OpNext 0, OpAck 0 (replicate 32 2) True, OpAck 0 (replicate 32 1) True]"

lemma demo_dispatched: "demo_upload [OpAdmit demo_chunks, OpNext 0] = snd (sched_next (\<lambda>x. x) (\<lambda>m. m) 0 (demo_upload [OpAdmit demo_chunks]))"
  using demo_step [OF refl, of "[OpAdmit demo_chunks]" "OpNext 0"] by simp

lemmas demo_eval = demo_next with_policy_def new_lane_def demo_lane_def Let_def default_sched_config_def demo_chunk_def
  on_ack_def on_group_ack_def upd_chunk_def upd_lane_def hm_get_def

lemma demo_success: "s_acked (demo_upload demo_ops) = 2 \<and> length (s_chunks (demo_upload demo_ops)) = 2"
proof -
  have "demo_upload demo_ops = on_ack 0 (replicate 32 1) True (on_ack 0 (replicate 32 2) True (demo_upload [OpAdmit demo_chunks, OpNext 0]))"
    by (simp add: demo_upload_def sched_run_def demo_ops_def)
  then show ?thesis by (simp add: demo_dispatched demo_eval)
qed

lemma demo_is_run:
  "demo_upload ops = sched_run (\<lambda>x. x) (\<lambda>m. m) (with_policy [demo_lane] (default_sched_config\<lparr>sc_max_attempts := 1\<rparr>) AllAcked) ops"
  by (simp add: demo_upload_def)

theorem push_success_sound_witness: "\<exists>l. OpAck l (replicate 32 1) True \<in> set demo_ops"
  by (rule push_success_sound [OF ord_ok_id demo_is_run])
    (simp add: demo_success, simp add: demo_ops_def demo_chunks_def)

theorem push_driver_never_stuck_witness:
  "\<exists>a. fst (sched_next (\<lambda>x. x) (\<lambda>m. m) 0 (demo_upload [OpAdmit demo_chunks])) = Some a \<and> as_chunks a \<noteq> []"
proof -
  have "in_flight (demo_upload [OpAdmit demo_chunks]) = 0" "\<not> sched_done (demo_upload [OpAdmit demo_chunks])"
    by (simp_all add: demo_queued in_flight_def sched_done_def with_policy_def)
  from push_driver_never_stuck [OF ord_ok_id demo_is_run this demo_next] show ?thesis by (simp add: demo_next)
qed


text \<open>
  One lane with room for several requests, and each request reports each of its chunks once: the error for the first
  chunk of batch 2 requeues it while the batch is still open, it goes out again as batch 3 on the same lane, the end of
  batch 2 then fails it, and the error of batch 3 fails it a second time.\<close>

definition race_ops :: "sched_op list" where
  "race_ops =
    [OpAdmit [(replicate 32 1, 9)], OpNext 0, OpAck 0 (replicate 32 1) True, OpResult 1 Answered 0,
     OpAdmit [(replicate 32 2, 9), (replicate 32 3, 9)], OpNext 0, OpAck 0 (replicate 32 2) False, OpNext 0,
     OpAck 0 (replicate 32 3) True, OpResult 2 Answered 0, OpAck 0 (replicate 32 2) False]"

lemma failure_counted_twice:
  defines "s \<equiv> sched_run (\<lambda>x. x) (\<lambda>m. m) (sched_new [demo_lane] (default_sched_config\<lparr>sc_max_attempts := 2\<rparr>)) race_ops"
  shows "s_acked s = 2 \<and> s_failed s = 2 \<and> length (s_chunks s) = 3"
  unfolding s_def race_ops_def sched_run_def sched_new_def default_sched_config_def with_policy_def new_lane_def demo_lane_def
  by (simp add: sched_admit_def admit_one_def hm_contains_def hm_get_def hm_insert_def hm_remove_def
      sched_next_def next_hedge_def expire_backoffs_def Let_def hedge_budget_def
      eligible_lanes_def eligible_def has_room_def capacity_def best_lane_def picked_for_def pending_only_def rank_lane_def rank_nth_def
      batch_size_def  dispatch_def upd_chunk_def upd_lane_def dispatch_chunk_def on_ack_def on_group_ack_def on_batch_result_def
      requeue_def resolved_def)

end
