(* ===== verification/Galois.thy ===== *)
theory Galois
  imports Prelude
begin

text \<open>
  Arithmetic in the field of 256 elements, the first part of \<^verbatim>\<open>src/erasure/reedsolomon.rs\<close>: the exponent and
  logarithm tables built by \<^verbatim>\<open>build_tables\<close>, and multiplication, powers and division by table lookup. The tables are
  shown to hold the powers of the generator, multiplication to be the product of polynomials, and the bytes to form a
  field, as an instance of the class of fields.
\<close>

unbundle bit_operations_syntax

section \<open>Tables\<close>

record gf_tables =
  gf_exp :: "byte list"
  gf_log :: "byte list"

definition table_step :: "u16 \<times> byte list \<times> byte list \<Rightarrow> nat \<Rightarrow> u16 \<times> byte list \<times> byte list" where
  "table_step = (\<lambda>(x, ex, lg) i.
     let ex = ex[i := ucast x];
         lg = lg[unat x := of_nat i];
         x = push_bit 1 x;
         x = (if x AND 0x100 \<noteq> 0 then x XOR 0x11d else x)
     in (x, ex, lg))"

definition build_tables :: gf_tables where
  "build_tables =
     (case foldl table_step (1, replicate (255 * 2) 0, replicate 256 0) [0..<255] of
        (x, ex, lg) \<Rightarrow>
          \<lparr>gf_exp = foldl (\<lambda>ex i. ex[i := ex ! (i - 255)]) ex [255..<255 * 2], gf_log = lg\<rparr>)"

definition gal_mul :: "byte \<Rightarrow> byte \<Rightarrow> byte" where
  "gal_mul a b =
     (if a = 0 \<or> b = 0 then 0
      else
        let t = build_tables;
            log_sum = unat (gf_log t ! unat a) + unat (gf_log t ! unat b)
        in gf_exp t ! log_sum)"

definition gal_exp :: "byte \<Rightarrow> nat \<Rightarrow> byte" where
  "gal_exp a n =
     (if n = 0 then 1
      else if a = 0 then 0
      else
        let t = build_tables;
            log_a = unat (gf_log t ! unat a);
            log_result = log_a * n;
            log_result = log_result mod 255
        in gf_exp t ! log_result)"

definition gal_divide :: "byte \<Rightarrow> byte \<Rightarrow> byte" where
  "gal_divide a b =
     (if a = 0 then 0
      else
        let t = build_tables;
            log_a = int (unat (gf_log t ! unat a));
            log_b = int (unat (gf_log t ! unat b));
            log_result = log_a - log_b;
            log_result = (if log_result < 0 then log_result + 255 else log_result)
        in gf_exp t ! nat log_result)"

section \<open>The powers of the generator\<close>

text \<open>Multiplication by the generator: a shift, reduced by the polynomial.\<close>

definition xt :: "byte \<Rightarrow> byte" where
  "xt a = push_bit 1 a XOR (if bit a 7 then 0x1d else 0)"

fun orbit :: "nat \<Rightarrow> byte \<Rightarrow> byte list" where
  "orbit 0 x = []"
| "orbit (Suc n) x = x # orbit n (xt x)"

lemma nth_orbit: "i < n \<Longrightarrow> orbit n x ! i = (xt ^^ i) x"
proof (induction n arbitrary: x i)
  case (Suc n)
  then show ?case by (cases i) (simp_all add: funpow_swap1)
qed simp

lemma length_orbit [simp]: "length (orbit n x) = n"
  by (induction n arbitrary: x) simp_all

abbreviation pw :: "nat \<Rightarrow> byte" where
  "pw i \<equiv> (xt ^^ i) 1"

lemma pw_255: "pw 255 = 1"
proof -
  have "last (orbit 256 1) = 1" by code_simp
  moreover have "orbit 256 1 \<noteq> []" using length_orbit [of 256 1] by (metis list.size(3) zero_neq_numeral)
  ultimately show ?thesis using nth_orbit [of 255 256 1] by (simp add: last_conv_nth)
qed

lemma pw_not_1:
  assumes "0 < i" "i < 255"
  shows "pw i \<noteq> 1"
proof -
  have "list_all (\<lambda>x. x \<noteq> 1) (tl (orbit 255 1))" by code_simp
  then have "orbit 255 1 ! i \<noteq> 1" using assms by (auto simp: list_all_length nth_tl dest: spec [of _ "i - 1"])
  then show ?thesis using nth_orbit [of i 255 1] assms by simp
qed

lemma xt_xor: "xt (a XOR b) = xt a XOR xt b"
  by (rule bit_word_eqI) (auto simp: xt_def bit_simps)

lemma xt_0 [simp]: "xt 0 = 0"
  by (simp add: xt_def)

lemma xt_eq_0: "xt a = 0 \<longleftrightarrow> a = 0"
proof
  assume a: "xt a = 0"
  have "bit (xt a) 0 = bit a 7" unfolding xt_def bit_xor_iff bit_push_bit_iff by simp
  with a have b7: "\<not> bit a 7" by simp
  show "a = 0"
  proof (rule bit_word_eqI)
    fix n assume n: "n < LENGTH(8)"
    show "bit a n = bit 0 n"
    proof (cases "n = 7")
      case False
      then have "bit (xt a) (Suc n) = bit a n" using n b7 unfolding xt_def bit_xor_iff bit_push_bit_iff by simp
      then show ?thesis using a by simp
    qed (use b7 in simp)
  qed
qed simp

lemma xt_inject: "xt a = xt b \<longleftrightarrow> a = b"
proof -
  have "xt a = xt b \<longleftrightarrow> xt (a XOR b) = 0" by (simp add: xt_xor xor_eq_0_iff)
  also have "\<dots> \<longleftrightarrow> a = b" by (simp add: xt_eq_0 xor_eq_0_iff)
  finally show ?thesis .
qed

lemma xt_pow_xor: "(xt ^^ i) (a XOR b) = (xt ^^ i) a XOR (xt ^^ i) b"
  by (induction i) (simp_all add: xt_xor)

lemma xt_pow_0 [simp]: "(xt ^^ i) 0 = 0"
  by (induction i) simp_all

lemma xt_pow_inject: "(xt ^^ i) a = (xt ^^ i) b \<longleftrightarrow> a = b"
  by (induction i) (simp_all add: xt_inject)

lemma pw_not_0: "pw i \<noteq> 0"
  using xt_pow_inject [of i 1 0] by simp

lemma pw_add: "pw (i + j) = (xt ^^ i) (pw j)"
  by (simp add: funpow_add)

lemma pw_mod: "pw (i mod 255) = pw i"
proof -
  have "pw (255 * k + j) = pw j" for k j
  proof (induction k)
    case (Suc k)
    have "pw (255 * Suc k + j) = pw ((255 * k + j) + 255)" by (simp add: algebra_simps)
    also have "\<dots> = pw (255 * k + j)" unfolding pw_add [of "255 * k + j"] pw_255 ..
    finally show ?case using Suc by simp
  qed simp
  from this [of "i div 255" "i mod 255"] show ?thesis by simp
qed

lemma pw_inj: "inj_on pw {..<255}"
proof (rule linorder_inj_onI')
  fix i j :: nat assume ij: "i \<in> {..<255}" "j \<in> {..<255}" "i < j"
  then have "pw j = (xt ^^ i) (pw (j - i))" using pw_add [of i "j - i"] by simp
  then have "pw i = pw j \<longleftrightarrow> 1 = pw (j - i)" using xt_pow_inject [of i 1] by simp
  then show "pw i \<noteq> pw j" using pw_not_1 [of "j - i"] ij by auto
qed

lemma pw_surj: "pw ` {..<255} = - {0}"
proof (rule card_subset_eq)
  have "card (- {0::byte}) = card (UNIV :: byte set) - 1" by (simp add: Compl_eq_Diff_UNIV card_Diff_singleton)
  then show "card (pw ` {..<255}) = card (- {0::byte})" using pw_inj by (simp add: card_image card_word)
qed (auto simp: pw_not_0)

text \<open>The discrete logarithm.\<close>

lemma dlog_exists:
  assumes "a \<noteq> 0"
  shows "\<exists>i < 255. a = pw i"
proof -
  have "a \<in> pw ` {..<255}" using assms unfolding pw_surj by simp
  then show ?thesis by blast
qed

section \<open>What the tables hold\<close>

abbreviation shift16 :: "u16 \<Rightarrow> u16" where
  "shift16 x \<equiv> (let y = push_bit 1 x in if y AND 0x100 \<noteq> 0 then y XOR 0x11d else y)"

lemma shift16_ucast: "shift16 (ucast a) = ucast (xt a)"
proof -
  let ?y = "push_bit 1 (ucast a) :: u16"
  have "(?y AND 2 ^ 8 = 0) = (\<not> bit ?y 8)" by (rule and_exp_eq_0_iff_not_bit)
  also have "bit ?y 8 = bit a 7" unfolding bit_push_bit_iff by (simp add: bit_simps)
  finally have c: "(?y AND 0x100 \<noteq> 0) = bit a 7" by simp
  have hi: "\<not> bit a m" if "8 \<le> m" for m using bit_imp_le_length [of a m] that by auto
  have "bit (ucast (xt a) :: u16) n = bit (if bit a 7 then ?y XOR 0x11d else ?y) n" if "n < 16" for n
  proof -
    have "n \<in> {0,1,2,3,4,5,6,7,8,9,10,11,12,13,14,15}" using that by simp presburger
    then show ?thesis unfolding xt_def by (elim insertE emptyE) (simp_all add: bit_simps hi del: push_bit_Suc)
  qed
  then show ?thesis unfolding c Let_def by (intro bit_word_eqI) simp
qed

lemma ucast_down_up: "ucast (ucast (a :: byte) :: u16) = a"
  by (rule bit_word_eqI) (simp add: bit_simps)

lemma table_loop:
  assumes "k \<le> 255"
  shows "\<exists>ex lg. foldl table_step (1, replicate (255 * 2) 0, replicate 256 0) [0..<k] = (ucast (pw k), ex, lg) \<and>
    length ex = 255 * 2 \<and> length lg = 256 \<and> (\<forall>i < k. ex ! i = pw i \<and> lg ! unat (pw i) = of_nat i)"
  using assms
proof (induction k)
  case (Suc k)
  then obtain ex lg where IH: "foldl table_step (1, replicate (255 * 2) 0, replicate 256 0) [0..<k] = (ucast (pw k), ex, lg)"
      "length ex = 255 * 2" "length lg = 256" "\<forall>i < k. ex ! i = pw i \<and> lg ! unat (pw i) = of_nat i"
    by auto
  have "foldl table_step (1, replicate (255 * 2) 0, replicate 256 0) [0..<Suc k] =
      (shift16 (ucast (pw k)), ex[k := pw k], lg[unat (pw k) := of_nat k])"
    using IH(1) by (simp add: table_step_def Let_def unat_ucast_up ucast_down_up)
  also have "shift16 (ucast (pw k)) = ucast (pw (Suc k))" by (simp only: shift16_ucast funpow.simps o_apply)
  finally have step: "foldl table_step (1, replicate (255 * 2) 0, replicate 256 0) [0..<Suc k] =
      (ucast (pw (Suc k)), ex[k := pw k], lg[unat (pw k) := of_nat k])" .
  have "pw i \<noteq> pw k" if "i < k" for i using inj_onD [OF pw_inj, of i k] that Suc.prems by auto
  then have ne: "unat (pw k) \<noteq> unat (pw i)" if "i < k" for i using that unsigned_word_eqI by metis
  have "unat (pw k) < 256" using unat_lt [of "pw k"] by simp
  then have "\<forall>i < Suc k. ex[k := pw k] ! i = pw i \<and> lg[unat (pw k) := of_nat k] ! unat (pw i) = of_nat i"
    using IH ne Suc.prems by (auto simp: less_Suc_eq)
  moreover have "length (ex[k := pw k]) = 255 * 2" "length (lg[unat (pw k) := of_nat k]) = 256" using IH(2,3) by simp_all
  ultimately show ?case using step by blast
qed simp

lemma double_loop:
  assumes "length ex = 255 * 2" "\<forall>i < 255. ex ! i = pw i" "k \<le> 255"
  shows "length (foldl (\<lambda>ex i. ex[i := ex ! (i - 255)]) ex [255..<255 + k]) = 255 * 2 \<and>
    (\<forall>i < 255 + k. foldl (\<lambda>ex i. ex[i := ex ! (i - 255)]) ex [255..<255 + k] ! i = pw i)"
  using assms(3)
proof (induction k)
  case (Suc k)
  let ?ex = "foldl (\<lambda>ex i. ex[i := ex ! (i - 255)]) ex [255..<255 + k]"
  have IH: "length ?ex = 255 * 2" "\<forall>i < 255 + k. ?ex ! i = pw i" using Suc by simp_all
  have "pw (255 + k) = pw k" using pw_mod [of "255 + k"] Suc.prems by simp
  then have "?ex ! k = pw (255 + k)" using IH(2) by simp
  then have "\<forall>i < 255 + Suc k. ?ex[255 + k := ?ex ! k] ! i = pw i" using IH Suc.prems by (auto simp: less_Suc_eq nth_list_update)
  moreover have "[255..<255 + Suc k] = [255..<255 + k] @ [255 + k]" using upt_Suc_append [of 255 "255 + k"] by simp
  ultimately show ?case using IH(1) by simp
qed (use assms in simp)

lemma tables_hold:
  shows "i < 255 * 2 \<Longrightarrow> gf_exp build_tables ! i = pw i"
    and "i < 255 \<Longrightarrow> gf_log build_tables ! unat (pw i) = of_nat i"
proof -
  obtain ex lg where t: "foldl table_step (1, replicate (255 * 2) 0, replicate 256 0) [0..<255] = (ucast (pw 255), ex, lg)"
      "length ex = 255 * 2" "\<forall>i < 255. ex ! i = pw i \<and> lg ! unat (pw i) = of_nat i"
    using table_loop [of 255] by blast
  define ex2 where "ex2 = foldl (\<lambda>ex i. ex[i := ex ! (i - 255)]) ex [255..<255 + 255]"
  have e: "255 * 2 = 255 + (255 :: nat)" by simp
  have bt: "build_tables = \<lparr>gf_exp = ex2, gf_log = lg\<rparr>"
    unfolding build_tables_def t(1) prod.case ex2_def unfolding e ..
  have "\<forall>i < 255. ex ! i = pw i" using t(3) by blast
  from double_loop [OF t(2) this order_refl] have "\<forall>i < 255 + 255. ex2 ! i = pw i" unfolding ex2_def by (rule conjunct2)
  then show "i < 255 * 2 \<Longrightarrow> gf_exp build_tables ! i = pw i" unfolding bt by simp
  show "i < 255 \<Longrightarrow> gf_log build_tables ! unat (pw i) = of_nat i" using t(3) unfolding bt by simp
qed

lemma log_pw: "i < 255 \<Longrightarrow> unat (gf_log build_tables ! unat (pw i)) = i"
  by (simp add: tables_hold unat_of_nat)

lemma gal_mul_pw: "i < 255 \<Longrightarrow> j < 255 \<Longrightarrow> gal_mul (pw i) (pw j) = pw (i + j)"
  by (simp add: gal_mul_def Let_def pw_not_0 log_pw tables_hold(1))

lemma gal_mul_0 [simp]: "gal_mul 0 b = 0" "gal_mul a 0 = 0"
  by (simp_all add: gal_mul_def)

text \<open>Multiplying by the \<open>i\<close>-th power of the generator is \<open>i\<close> shifts.\<close>

lemma gal_mul_shift:
  assumes "i < 255"
  shows "gal_mul (pw i) b = (xt ^^ i) b"
proof (cases "b = 0")
  case False
  then obtain j where "j < 255" "b = pw j" using dlog_exists by blast
  then show ?thesis using gal_mul_pw [OF assms] pw_add by simp
qed simp

lemma gal_mul_xor: "gal_mul a (b XOR c) = gal_mul a b XOR gal_mul a c"
proof (cases "a = 0")
  case False
  then obtain i where "i < 255" "a = pw i" using dlog_exists by blast
  then show ?thesis by (simp add: gal_mul_shift xt_pow_xor)
qed simp

lemma gal_mul_commute: "gal_mul a b = gal_mul b a"
  by (simp add: gal_mul_def Let_def add.commute)

lemma gal_mul_1 [simp]: "gal_mul 1 b = b"
  using gal_mul_shift [of 0 b] by simp

lemma gal_mul_assoc: "gal_mul (gal_mul a b) c = gal_mul a (gal_mul b c)"
proof (cases "a = 0 \<or> b = 0")
  case False
  then obtain i j where ij: "i < 255" "a = pw i" "j < 255" "b = pw j" using dlog_exists by blast
  have "gal_mul (pw ((i + j) mod 255)) c = (xt ^^ (i + j)) c"
  proof (cases "c = 0")
    case False
    then obtain k where k: "k < 255" "c = pw k" using dlog_exists by blast
    have "gal_mul (pw ((i + j) mod 255)) (pw k) = pw ((i + j) mod 255 + k)" by (rule gal_mul_pw) (use k in simp_all)
    also have "\<dots> = pw (i + j + k)" using pw_mod [of "(i + j) mod 255 + k"] pw_mod [of "i + j + k"] by (simp add: mod_add_left_eq)
    finally show ?thesis using k by (simp add: pw_add)
  qed simp
  then show ?thesis using ij by (simp add: gal_mul_pw gal_mul_shift pw_mod funpow_add)
qed auto

lemma gal_exp_power: "gal_exp a (Suc n) = gal_mul a (gal_exp a n)"
proof (cases "a = 0")
  case True
  then show ?thesis by (simp add: gal_exp_def)
next
  case False
  then obtain i where i: "i < 255" "a = pw i" using dlog_exists by blast
  have e: "gal_exp a n = pw ((i * n) mod 255)" for n
    using i False by (simp add: gal_exp_def Let_def log_pw tables_hold(1))
  have "gal_mul a (gal_exp a n) = pw (i + (i * n) mod 255)" unfolding e unfolding i(2) by (rule gal_mul_pw) (use i in simp_all)
  also have "\<dots> = pw ((i * Suc n) mod 255)"
    using pw_mod [of "i + (i * n) mod 255"] by (simp add: mod_add_right_eq)
  finally show ?thesis unfolding e [of "Suc n"] ..
qed

lemma gal_exp_0: "gal_exp a 0 = 1"
  by (simp add: gal_exp_def)

lemma gal_divide_inverse:
  assumes "b \<noteq> 0"
  shows "gal_mul b (gal_divide a b) = a"
proof (cases "a = 0")
  case False
  then obtain i j where ij: "i < 255" "a = pw i" "j < 255" "b = pw j" using assms dlog_exists by blast
  let ?r = "if i < j then i + 255 - j else i - j"
  have "gal_divide a b = gf_exp build_tables ! ?r"
    using False ij unfolding gal_divide_def Let_def ij(2,4) log_pw [OF ij(1)] log_pw [OF ij(3)]
    by (auto intro!: arg_cong [of _ _ "(!) (gf_exp build_tables)"])
  then have "gal_divide a b = pw ?r" using ij by (simp add: tables_hold(1))
  moreover have "gal_mul (pw j) (pw ?r) = pw (j + ?r)" by (rule gal_mul_pw) (use ij in auto)
  moreover have "pw (j + ?r) = pw i" using pw_mod [of "j + ?r"] ij by (auto split: if_splits)
  ultimately show ?thesis using ij by simp
qed (simp add: gal_divide_def)

section \<open>Multiplication is multiplication of polynomials\<close>

text \<open>The schoolbook product: the multiplicand, shifted and reduced once for every bit of the multiplier.\<close>

definition poly_mul :: "byte \<Rightarrow> byte \<Rightarrow> byte" where
  "poly_mul a b = foldl (\<lambda>acc i. if bit b i then acc XOR (xt ^^ i) a else acc) 0 [0..<8]"

lemma pw_exp: "i < 8 \<Longrightarrow> pw i = 2 ^ i"
proof -
  have "list_all (\<lambda>i. orbit 8 1 ! i = 2 ^ i) [0..<8]" by code_simp
  then show "i < 8 \<Longrightarrow> ?thesis" using nth_orbit [of i 8 1] by (simp add: list_all_iff)
qed

lemma take_bit_Suc_xor: "take_bit (Suc k) b = take_bit k b XOR (if bit b k then 2 ^ k else 0)" for b :: byte
  by (rule bit_word_eqI) (auto simp: bit_simps less_Suc_eq)

lemma poly_mul_prefix:
  "k \<le> 8 \<Longrightarrow> foldl (\<lambda>acc i. if bit b i then acc XOR (xt ^^ i) a else acc) 0 [0..<k] = gal_mul a (take_bit k b)"
proof (induction k)
  case (Suc k)
  have "gal_mul a (2 ^ k) = (xt ^^ k) a"
    using gal_mul_shift [of k a] gal_mul_commute [of a "2 ^ k"] pw_exp [of k] Suc.prems by simp
  then show ?case using Suc by (simp add: take_bit_Suc_xor gal_mul_xor)
qed simp

text \<open>
  C23. The table lookup computes the product of the two bytes as polynomials over the field of two elements, reduced by
  \<open>x\<^sup>8 + x\<^sup>4 + x\<^sup>3 + x\<^sup>2 + 1\<close>, for all pairs of bytes.\<close>

theorem gal_mul_polynomial: "gal_mul a b = poly_mul a b"
  using poly_mul_prefix [of 8 b a] unfolding poly_mul_def by (simp add: take_bit_word_eq_self)

section \<open>The field of 256 elements\<close>

typedef gf = "UNIV :: byte set"
  morphisms byte_of gf_of
  by simp

lemmas gf_rep [simp] = gf_of_inverse [OF UNIV_I] byte_of_inverse
lemmas gf_eq = byte_of_inject [symmetric]

lemma gf_of_eq [simp]: "gf_of a = gf_of b \<longleftrightarrow> a = b"
  by (simp add: gf_of_inject)

instantiation gf :: field
begin
definition zero_gf :: gf where "zero_gf = gf_of 0"
definition one_gf :: gf where "one_gf = gf_of 1"
definition plus_gf :: "gf \<Rightarrow> gf \<Rightarrow> gf" where "plus_gf a b = gf_of (byte_of a XOR byte_of b)"
definition minus_gf :: "gf \<Rightarrow> gf \<Rightarrow> gf" where "minus_gf a b = gf_of (byte_of a XOR byte_of b)"
definition uminus_gf :: "gf \<Rightarrow> gf" where "uminus_gf a = a"
definition times_gf :: "gf \<Rightarrow> gf \<Rightarrow> gf" where "times_gf a b = gf_of (gal_mul (byte_of a) (byte_of b))"
definition inverse_gf :: "gf \<Rightarrow> gf" where "inverse_gf a = (if byte_of a = 0 then a else gf_of (gal_divide 1 (byte_of a)))"
definition divide_gf :: "gf \<Rightarrow> gf \<Rightarrow> gf" where "divide_gf a b = a * inverse b"
instance
proof
  fix a b c :: gf
  show "a + b + c = a + (b + c)" by (simp add: plus_gf_def xor.assoc)
  show "a + b = b + a" by (simp add: plus_gf_def xor.commute)
  show "0 + a = a" by (simp add: plus_gf_def zero_gf_def)
  show "- a + a = 0" by (simp add: plus_gf_def zero_gf_def uminus_gf_def)
  show "a - b = a + - b" by (simp add: plus_gf_def minus_gf_def uminus_gf_def)
  show "a * b * c = a * (b * c)" by (simp add: times_gf_def gal_mul_assoc)
  show "a * b = b * a" by (simp add: times_gf_def gal_mul_commute)
  show "1 * a = a" by (simp add: times_gf_def one_gf_def)
  show "(a + b) * c = a * c + b * c"
    using gal_mul_xor [of "byte_of c" "byte_of a" "byte_of b"] by (simp add: times_gf_def plus_gf_def gal_mul_commute)
  show "(0 :: gf) \<noteq> 1" by (simp add: zero_gf_def one_gf_def)
  show "inverse (0 :: gf) = 0" by (simp add: inverse_gf_def zero_gf_def)
  show "a div b = a * inverse b" by (rule divide_gf_def)
  show "inverse a * a = 1" if "a \<noteq> 0"
  proof -
    have "byte_of a \<noteq> 0" using that by (metis byte_of_inverse zero_gf_def)
    then show ?thesis using gal_divide_inverse [of "byte_of a" 1] gal_mul_commute
      by (simp add: inverse_gf_def times_gf_def one_gf_def)
  qed
qed
end

lemma gf_of_ops:
  "gf_of (a XOR b) = gf_of a + gf_of b" "gf_of (gal_mul a b) = gf_of a * gf_of b" "gf_of 0 = 0" "gf_of 1 = 1"
  by (simp_all add: plus_gf_def times_gf_def zero_gf_def one_gf_def)

lemma gf_of_exp: "gf_of (gal_exp a n) = gf_of a ^ n"
  by (induction n) (simp_all add: gal_exp_0 gal_exp_power gf_of_ops)

lemma gf_of_recip: "b \<noteq> 0 \<Longrightarrow> gf_of (gal_divide 1 b) = inverse (gf_of b)"
  by (simp add: inverse_gf_def)

lemma gf_of_eq_0: "gf_of a = 0 \<longleftrightarrow> a = 0"
  by (simp add: zero_gf_def)

lemma gf_char_2: "a + a = (0 :: gf)"
  by (simp add: plus_gf_def zero_gf_def)

lemma gf_minus: "a - b = a + (b :: gf)"
  by (simp add: plus_gf_def minus_gf_def)

end
