(* ===== verification/Matrix.thy ===== *)
theory Matrix
  imports Galois
begin

text \<open>
  The matrices of \<^verbatim>\<open>src/erasure/reedsolomon.rs\<close>: construction, multiplication and the Gauss-Jordan inverse. The
  inverse is shown to be a left inverse whenever it is returned, and to be returned for every matrix that maps only the
  zero vector to zero.
\<close>

unbundle bit_operations_syntax

section \<open>Matrices\<close>

record matrix =
  mx_rows :: usize
  mx_cols :: usize
  mx_data :: "byte list list"

text \<open>A fresh matrix every cell of which is then written once.\<close>

definition tabulate :: "usize \<Rightarrow> usize \<Rightarrow> (nat \<Rightarrow> nat \<Rightarrow> byte) \<Rightarrow> matrix" where
  "tabulate rows cols f = \<lparr>mx_rows = rows, mx_cols = cols, mx_data = map (\<lambda>r. map (f r) [0..<cols]) [0..<rows]\<rparr>"

abbreviation cell :: "matrix \<Rightarrow> nat \<Rightarrow> nat \<Rightarrow> byte" where
  "cell m r c \<equiv> mx_data m ! r ! c"

definition matrix_new :: "usize \<Rightarrow> usize \<Rightarrow> matrix" where
  "matrix_new rows cols = \<lparr>mx_rows = rows, mx_cols = cols, mx_data = replicate rows (replicate cols 0)\<rparr>"

definition identity :: "usize \<Rightarrow> matrix" where
  "identity n =
     (let m = matrix_new n n
      in m\<lparr>mx_data := foldl (\<lambda>d i. d[i := (d ! i)[i := 1]]) (mx_data m) [0..<n]\<rparr>)"

definition vandermonde :: "usize \<Rightarrow> usize \<Rightarrow> matrix" where
  "vandermonde rows cols = tabulate rows cols (\<lambda>r c. gal_exp (of_nat r) c)"

definition sub_matrix :: "matrix \<Rightarrow> usize \<Rightarrow> usize \<Rightarrow> usize \<Rightarrow> usize \<Rightarrow> matrix" where
  "sub_matrix m rmin cmin rmax cmax = tabulate (rmax - rmin) (cmax - cmin) (\<lambda>r c. cell m (rmin + r) (cmin + c))"

definition augment :: "matrix \<Rightarrow> matrix \<Rightarrow> matrix" where
  "augment m right = tabulate (mx_rows m) (mx_cols m + mx_cols right)
     (\<lambda>r c. if c < mx_cols m then cell m r c else cell right r (c - mx_cols m))"

definition multiply :: "matrix \<Rightarrow> matrix \<Rightarrow> matrix" where
  "multiply m right = tabulate (mx_rows m) (mx_cols right)
     (\<lambda>r c. foldl (\<lambda>acc i. acc XOR gal_mul (cell m r i) (cell right i c)) 0 [0..<mx_cols m])"

section \<open>Inversion\<close>

type_synonym rows = "byte list list"

definition swap_rows :: "usize \<Rightarrow> usize \<Rightarrow> rows \<Rightarrow> rows" where
  "swap_rows r1 r2 w = w[r1 := w ! r2, r2 := w ! r1]"

definition scale_row :: "usize \<Rightarrow> byte \<Rightarrow> rows \<Rightarrow> rows" where
  "scale_row r s w = w[r := map (\<lambda>x. gal_mul x s) (w ! r)]"

text \<open>Adds a multiple of row \<open>r\<close> to row \<open>i\<close> unless the entry in column \<open>c\<close>, the scale, is zero already.\<close>

definition clear_entry :: "usize \<Rightarrow> rows \<Rightarrow> usize \<Rightarrow> rows" where
  "clear_entry r w i =
     (if w ! i ! r \<noteq> 0
      then let scale = w ! i ! r in w[i := map2 (\<lambda>x y. x XOR gal_mul scale y) (w ! i) (w ! r)]
      else w)"

definition pivot_step :: "usize \<Rightarrow> usize \<Rightarrow> rows \<Rightarrow> rows option" where
  "pivot_step n r w =
     (let w1 = (if w ! r ! r = 0
                then case find (\<lambda>below. w ! below ! r \<noteq> 0) [r + 1..<n] of
                       None \<Rightarrow> w
                     | Some below \<Rightarrow> swap_rows r below w
                else w)
      in if w1 ! r ! r = 0 then None
         else
           let w2 = (if w1 ! r ! r \<noteq> 1 then scale_row r (gal_divide 1 (w1 ! r ! r)) w1 else w1)
           in Some (foldl (clear_entry r) w2 [r + 1..<n]))"

fun forward :: "usize \<Rightarrow> usize list \<Rightarrow> rows \<Rightarrow> rows option" where
  "forward n [] w = Some w"
| "forward n (r # rs) w = (case pivot_step n r w of None \<Rightarrow> None | Some w' \<Rightarrow> forward n rs w')"

definition backward :: "usize \<Rightarrow> rows \<Rightarrow> rows" where
  "backward n w = foldl (\<lambda>w d. foldl (clear_entry d) w [0..<d]) w [0..<n]"

definition invert :: "matrix \<Rightarrow> matrix option" where
  "invert m =
     (if mx_rows m \<noteq> mx_cols m then None
      else
        let n = mx_rows m;
            work = augment m (identity n)
        in case forward (mx_rows work) [0..<mx_rows work] (mx_data work) of
             None \<Rightarrow> None
           | Some w \<Rightarrow>
               Some (sub_matrix (work\<lparr>mx_data := backward (mx_rows work) w\<rparr>) 0 n n (n * 2)))"

section \<open>Cells\<close>

definition matrix_ok :: "matrix \<Rightarrow> bool" where
  "matrix_ok m = (length (mx_data m) = mx_rows m \<and> (\<forall>row \<in> set (mx_data m). length row = mx_cols m))"

lemma tabulate_simps [simp]:
  "mx_rows (tabulate rows cols f) = rows" "mx_cols (tabulate rows cols f) = cols" "matrix_ok (tabulate rows cols f)"
  "r < rows \<Longrightarrow> c < cols \<Longrightarrow> cell (tabulate rows cols f) r c = f r c"
  by (auto simp: tabulate_def matrix_ok_def)

lemma identity_simps:
  shows "mx_rows (identity n) = n" "mx_cols (identity n) = n" "matrix_ok (identity n)"
    and "r < n \<Longrightarrow> c < n \<Longrightarrow> cell (identity n) r c = (if r = c then 1 else 0)"
proof -
  let ?d = "\<lambda>k. foldl (\<lambda>d i. d[i := (d ! i)[i := 1]]) (replicate n (replicate n (0 :: byte))) [0..<k]"
  have "k \<le> n \<Longrightarrow> length (?d k) = n \<and> (\<forall>r < n. length (?d k ! r) = n \<and>
      (\<forall>c < n. ?d k ! r ! c = (if r = c \<and> r < k then 1 else 0)))" for k
  proof (induction k)
    case (Suc k)
    then show ?case by (auto simp: nth_list_update less_Suc_eq)
  qed simp
  from this [of n] show "mx_rows (identity n) = n" "mx_cols (identity n) = n" "matrix_ok (identity n)"
    "r < n \<Longrightarrow> c < n \<Longrightarrow> cell (identity n) r c = (if r = c then 1 else 0)"
    by (auto simp: identity_def matrix_new_def matrix_ok_def Let_def in_set_conv_nth)
qed

lemma foldl_xor_sum:
  "gf_of (foldl (\<lambda>acc i. acc XOR gal_mul (f i) (g i)) a [0..<n]) = gf_of a + (\<Sum>i<n. gf_of (f i) * gf_of (g i))"
  by (induction n) (simp_all add: gf_of_ops add.assoc)

lemma cell_multiply:
  assumes "r < mx_rows m" "c < mx_cols right"
  shows "gf_of (cell (multiply m right) r c) = (\<Sum>i<mx_cols m. gf_of (cell m r i) * gf_of (cell right i c))"
  using assms foldl_xor_sum [of _ _ 0] by (simp add: multiply_def gf_of_ops)

section \<open>Elimination\<close>

abbreviation G :: "rows \<Rightarrow> nat \<Rightarrow> nat \<Rightarrow> gf" where
  "G w i j \<equiv> gf_of (w ! i ! j)"

definition shape :: "nat \<Rightarrow> rows \<Rightarrow> bool" where
  "shape n w = (length w = n \<and> (\<forall>i < n. length (w ! i) = n * 2))"

text \<open>
  Row operations on \<open>[A | I]\<close> keep two relations to the matrix \<open>A\<close>: the right half times \<open>A\<close> is the left half, and a
  vector the left half maps to zero is one \<open>A\<close> maps to zero.\<close>

definition derived :: "(nat \<Rightarrow> nat \<Rightarrow> gf) \<Rightarrow> nat \<Rightarrow> rows \<Rightarrow> bool" where
  "derived A n w = (shape n w \<and>
     (\<forall>i < n. \<forall>j < n. G w i j = (\<Sum>k<n. G w i (n + k) * A k j)) \<and>
     (\<forall>v. (\<forall>i < n. (\<Sum>j<n. G w i j * v j) = 0) \<longrightarrow> (\<forall>i < n. (\<Sum>j<n. A i j * v j) = 0)))"

lemma derivedI:
  assumes "shape n w" "\<And>i j. i < n \<Longrightarrow> j < n \<Longrightarrow> G w i j = (\<Sum>k<n. G w i (n + k) * A k j)"
    and "\<And>v. \<forall>i < n. (\<Sum>j<n. G w i j * v j) = 0 \<Longrightarrow> \<forall>i < n. (\<Sum>j<n. A i j * v j) = 0"
  shows "derived A n w"
  using assms by (simp add: derived_def)

lemma derivedD:
  assumes "derived A n w"
  shows "shape n w" "i < n \<Longrightarrow> j < n \<Longrightarrow> G w i j = (\<Sum>k<n. G w i (n + k) * A k j)"
    and "\<forall>i < n. (\<Sum>j<n. G w i j * v j) = 0 \<Longrightarrow> i < n \<Longrightarrow> (\<Sum>j<n. A i j * v j) = 0"
  using assms by (simp_all add: derived_def)

lemma derived_swap:
  assumes d: "derived A n w" and rb: "r < n" "b < n"
  shows "derived A n (swap_rows r b w)"
proof -
  let ?p = "\<lambda>i. if i = r then b else if i = b then r else i"
  have sh: "shape n w" using d by (rule derivedD)
  then have row: "swap_rows r b w ! i = w ! ?p i" if "i < n" for i
    using that rb by (auto simp: swap_rows_def shape_def nth_list_update)
  have p: "?p i < n" "?p (?p i) = i" if "i < n" for i using that rb by auto
  show ?thesis
  proof (rule derivedI)
    show "shape n (swap_rows r b w)" using sh p row by (simp add: shape_def swap_rows_def)
    show "G (swap_rows r b w) i j = (\<Sum>k<n. G (swap_rows r b w) i (n + k) * A k j)" if "i < n" "j < n" for i j
      using derivedD(2) [OF d p(1) [OF that(1)] that(2)] by (simp add: row [OF that(1)])
    fix v assume z: "\<forall>i < n. (\<Sum>j<n. G (swap_rows r b w) i j * v j) = 0"
    have "(\<Sum>j<n. G w i j * v j) = 0" if "i < n" for i
      using z [rule_format, OF p(1) [OF that]] row [OF p(1) [OF that]] p(2) [OF that] by simp
    then show "\<forall>i < n. (\<Sum>j<n. A i j * v j) = 0" using derivedD(3) [OF d] by blast
  qed
qed

lemma G_scale:
  assumes "shape n w" "r < n" "j < n * 2" "i < n"
  shows "G (scale_row r s w) i j = (if i = r then gf_of s * G w i j else G w i j)"
  using assms by (auto simp: scale_row_def shape_def nth_list_update gf_of_ops)

lemma shape_scale: "shape n w \<Longrightarrow> shape n (scale_row r s w)"
  by (cases "r < length w") (auto simp: scale_row_def shape_def nth_list_update)

lemma derived_scale:
  assumes d: "derived A n w" and r: "r < n" "s \<noteq> 0"
  shows "derived A n (scale_row r s w)"
proof (rule derivedI)
  have sh: "shape n w" using d by (rule derivedD)
  then show "shape n (scale_row r s w)" by (rule shape_scale)
  show "G (scale_row r s w) i j = (\<Sum>k<n. G (scale_row r s w) i (n + k) * A k j)" if "i < n" "j < n" for i j
    using that derivedD(2) [OF d that] r by (auto simp: G_scale [OF sh] mult.assoc simp flip: sum_distrib_left)
  fix v assume z: "\<forall>i < n. (\<Sum>j<n. G (scale_row r s w) i j * v j) = 0"
  have s: "gf_of s \<noteq> 0" using r by (simp add: gf_of_eq_0)
  have "(\<Sum>j<n. G w i j * v j) = 0" if "i < n" for i
  proof (cases "i = r")
    case True
    have "0 = (\<Sum>j<n. G (scale_row r s w) i j * v j)" using z that by simp
    also have "\<dots> = gf_of s * (\<Sum>j<n. G w i j * v j)"
      using True r by (simp add: G_scale [OF sh] sum_distrib_left mult.assoc)
    finally show ?thesis using s by simp
  next
    case False
    then show ?thesis using z that r by (auto simp: G_scale [OF sh] dest: spec [of _ i])
  qed
  then show "\<forall>i < n. (\<Sum>j<n. A i j * v j) = 0" using derivedD(3) [OF d] by blast
qed

lemma G_clear:
  assumes "shape n w" "r < n" "i < n" "k < n" "j < n * 2"
  shows "G (clear_entry r w i) k j = (if k = i then G w i j + G w i r * G w r j else G w k j)"
  using assms by (auto simp: clear_entry_def Let_def shape_def nth_list_update gf_of_ops gf_of_eq_0)

lemma shape_clear: "shape n w \<Longrightarrow> r < n \<Longrightarrow> shape n (clear_entry r w i)"
  by (cases "i < length w") (auto simp: clear_entry_def shape_def nth_list_update Let_def)

lemma derived_clear:
  assumes d: "derived A n w" and r: "r < n" "i < n" "i \<noteq> r"
  shows "derived A n (clear_entry r w i)"
proof (rule derivedI)
  have sh: "shape n w" using d by (rule derivedD)
  then show "shape n (clear_entry r w i)" using r by (intro shape_clear)
  note g = G_clear [OF sh r(1,2)]
  show "G (clear_entry r w i) k j = (\<Sum>l<n. G (clear_entry r w i) k (n + l) * A l j)" if "k < n" "j < n" for k j
    using that derivedD(2) [OF d _ that(2)] r
    by (auto simp: g distrib_right sum.distrib mult.assoc simp flip: sum_distrib_left)
  fix v assume z: "\<forall>k < n. (\<Sum>j<n. G (clear_entry r w i) k j * v j) = 0"
  have rz: "(\<Sum>j<n. G w r j * v j) = 0" using z r by (auto simp: g dest: spec [of _ r])
  have "(\<Sum>j<n. G w k j * v j) = 0" if "k < n" for k
  proof (cases "k = i")
    case True
    have "0 = (\<Sum>j<n. G (clear_entry r w i) i j * v j)" using z r by simp
    also have "\<dots> = (\<Sum>j<n. G w i j * v j) + G w i r * (\<Sum>j<n. G w r j * v j)"
      using r by (simp add: g distrib_right sum.distrib sum_distrib_left mult.assoc)
    finally show ?thesis using rz True by simp
  next
    case False
    then show ?thesis using z that by (auto simp: g dest: spec [of _ k])
  qed
  then show "\<forall>k < n. (\<Sum>j<n. A k j * v j) = 0" using derivedD(3) [OF d] by blast
qed

subsection \<open>Forward\<close>

text \<open>The first \<open>r\<close> columns have ones on the diagonal and zeros below.\<close>

definition lower :: "nat \<Rightarrow> nat \<Rightarrow> rows \<Rightarrow> bool" where
  "lower n r w = (\<forall>j < r. G w j j = 1 \<and> (\<forall>i < n. j < i \<longrightarrow> G w i j = 0))"

lemma clear_below:
  assumes "derived A n w" "r < n" "G w r r = 1" "\<forall>i \<in> set is. r < i \<and> i < n" "distinct is" "lower n r w"
  shows "derived A n (foldl (clear_entry r) w is) \<and> lower n r (foldl (clear_entry r) w is) \<and>
    (\<forall>j < n * 2. G (foldl (clear_entry r) w is) r j = G w r j) \<and>
    (\<forall>i < n. G (foldl (clear_entry r) w is) i r = (if i \<in> set is then 0 else G w i r))"
  using assms
proof (induction "is" arbitrary: w)
  case (Cons i "is")
  let ?w = "clear_entry r w i"
  have i: "r < i" "i < n" using Cons.prems by auto
  have sh: "shape n w" using Cons.prems(1) by (rule derivedD)
  note g = G_clear [OF sh Cons.prems(2) i(2)]
  have d: "derived A n ?w" using Cons.prems i by (intro derived_clear) auto
  have low: "lower n r ?w"
    unfolding lower_def
  proof (intro allI impI conjI)
    fix j assume j: "j < r"
    show "G ?w j j = 1" using j i Cons.prems(2,6) by (simp add: g lower_def)
    fix k assume k: "k < n" "j < k"
    show "G ?w k j = 0" using j k i Cons.prems(2,6) by (auto simp: g lower_def)
  qed
  have one: "G ?w r r = 1" using g [of r r] i Cons.prems(2,3) by simp
  note IH = Cons.IH [OF d Cons.prems(2) one _ _ low]
  have row: "G ?w r j = G w r j" if "j < n * 2" for j using g [of r j] i Cons.prems(2) that by simp
  have col: "G ?w k r = (if k = i then 0 else G w k r)" if "k < n" for k
    using g [OF that, of r] Cons.prems(2,3) by (simp add: gf_char_2)
  show ?case using IH Cons.prems(4,5) row col by auto
qed simp

lemma derived_pivot:
  assumes "derived A n w" "r < n" "lower n r w" "pivot_step n r w = Some w'"
  shows "derived A n w' \<and> lower n (Suc r) w'"
proof -
  define w1 where "w1 = (if w ! r ! r = 0
                then case find (\<lambda>below. w ! below ! r \<noteq> 0) [r + 1..<n] of
                       None \<Rightarrow> w
                     | Some below \<Rightarrow> swap_rows r below w
                else w)"
  define w2 where "w2 = (if w1 ! r ! r \<noteq> 1 then scale_row r (gal_divide 1 (w1 ! r ! r)) w1 else w1)"
  have nz: "w1 ! r ! r \<noteq> 0" and w': "w' = foldl (clear_entry r) w2 [r + 1..<n]"
    using assms(4) by (auto simp: pivot_step_def w1_def [symmetric] w2_def [symmetric] Let_def split: if_splits)
  have sh: "shape n w" using assms(1) by (rule derivedD)
  have 1: "derived A n w1 \<and> lower n r w1"
  proof (cases "w ! r ! r = 0 \<and> find (\<lambda>below. w ! below ! r \<noteq> 0) [r + 1..<n] \<noteq> None")
    case False
    then show ?thesis using assms by (auto simp: w1_def)
  next
    case True
    then obtain b where b: "find (\<lambda>below. w ! below ! r \<noteq> 0) [r + 1..<n] = Some b" by blast
    have bn: "r < b" "b < n" using b by (auto simp: find_Some_iff)
    have "w1 = swap_rows r b w" using True b by (simp add: w1_def)
    moreover have "swap_rows r b w ! i = w ! (if i = r then b else if i = b then r else i)" if "i < n" for i
      using that sh assms(2) bn by (auto simp: swap_rows_def shape_def nth_list_update)
    ultimately show ?thesis using derived_swap [OF assms(1,2) bn(2)] assms(2,3) bn by (auto simp: lower_def)
  qed
  have sh1: "shape n w1" using 1 derivedD by blast
  have g1: "gal_divide 1 (w1 ! r ! r) \<noteq> 0" using gal_divide_inverse [OF nz, of 1] by auto
  have 2: "derived A n w2 \<and> lower n r w2 \<and> G w2 r r = 1"
  proof (cases "w1 ! r ! r = 1")
    case True
    then show ?thesis using 1 by (simp add: w2_def gf_of_ops)
  next
    case False
    then have w2: "w2 = scale_row r (gal_divide 1 (w1 ! r ! r)) w1" by (simp add: w2_def)
    have "G w2 r r = 1" unfolding w2 using nz assms(2)
      by (simp add: G_scale [OF sh1] gf_of_recip gf_of_eq_0)
    moreover have "lower n r w2" unfolding w2 using 1 assms(2) by (auto simp: lower_def G_scale [OF sh1])
    moreover have "derived A n w2" unfolding w2 using 1 assms(2) g1 by (intro derived_scale) auto
    ultimately show ?thesis by blast
  qed
  have "\<forall>i \<in> set [r + 1..<n]. r < i \<and> i < n" by auto
  from clear_below [of A n w2 r "[r + 1..<n]"] 2 assms(2) this
  have 3: "derived A n w'" "lower n r w'" "\<forall>j < n * 2. G w' r j = G w2 r j" "\<forall>i < n. r < i \<longrightarrow> G w' i r = 0"
    unfolding w' by auto
  have "G w' r r = 1" using 3(3) 2 assms(2) by simp
  then show ?thesis using 3 by (auto simp: lower_def less_Suc_eq)
qed

text \<open>A unit upper triangular system has a solution.\<close>

lemma triangular_solve:
  fixes U :: "nat \<Rightarrow> nat \<Rightarrow> gf"
  assumes "\<forall>j < r. U j j = 1 \<and> (\<forall>i < r. j < i \<longrightarrow> U i j = 0)"
  shows "\<exists>v. \<forall>i < r. (\<Sum>j<r. U i j * v j) = (b i :: gf)"
  using assms
proof (induction r arbitrary: b)
  case (Suc r)
  obtain v where v: "\<forall>i < r. (\<Sum>j<r. U i j * v j) = b i - U i r * b r"
    using Suc.IH [of "\<lambda>i. b i - U i r * b r"] Suc.prems by auto
  let ?v = "v(r := b r)"
  have "(\<Sum>j<r. U r j * v j) = 0" using Suc.prems by (intro sum.neutral) auto
  moreover have "(\<Sum>j<r. U i j * ?v j) = (\<Sum>j<r. U i j * v j)" for i by (intro sum.cong) auto
  ultimately have "\<forall>i < Suc r. (\<Sum>j<Suc r. U i j * ?v j) = b i"
    using v Suc.prems by (auto simp: less_Suc_eq)
  then show ?case by blast
qed simp

lemma pivot_exists:
  assumes d: "derived A n w" and r: "r < n" and low: "lower n r w"
    and inj: "\<And>v. \<forall>i < n. (\<Sum>j<n. A i j * v j) = 0 \<Longrightarrow> \<forall>j < n. v j = 0"
  shows "pivot_step n r w \<noteq> None"
proof
  assume none: "pivot_step n r w = None"
  have sh: "shape n w" using d by (rule derivedD)
  have col: "G w i r = 0" if i: "r \<le> i" "i < n" for i
  proof (cases "find (\<lambda>below. w ! below ! r \<noteq> 0) [r + 1..<n]")
    case None
    then have "w ! r ! r = 0" using none by (auto simp: pivot_step_def Let_def split: if_splits)
    moreover have "w ! i ! r = 0" if "r < i" using None i that by (auto simp: find_None_iff)
    ultimately show ?thesis using i by (cases "i = r") (auto simp: gf_of_eq_0)
  next
    case (Some b)
    then have "r < b" "b < n" "w ! b ! r \<noteq> 0" by (auto simp: find_Some_iff)
    then show ?thesis using none Some r sh
      by (auto simp: pivot_step_def Let_def swap_rows_def shape_def nth_list_update split: if_splits)
  qed
  obtain v where v: "\<forall>i < r. (\<Sum>j<r. G w i j * v j) = - G w i r"
    using triangular_solve [of r "G w" "\<lambda>i. - G w i r"] low r by (auto simp: lower_def)
  let ?v = "\<lambda>j. if j < r then v j else if j = r then 1 else 0"
  have split: "(\<Sum>j<n. f j * ?v j) = (\<Sum>j<r. f j * v j) + f r" for f :: "nat \<Rightarrow> gf"
  proof -
    have "(\<Sum>j<n. f j * ?v j) = (\<Sum>j\<in>{..<Suc r}. f j * ?v j)" using r by (intro sum.mono_neutral_right) auto
    also have "\<dots> = (\<Sum>j<r. f j * ?v j) + f r" by simp
    also have "(\<Sum>j<r. f j * ?v j) = (\<Sum>j<r. f j * v j)" by (intro sum.cong) auto
    finally show ?thesis .
  qed
  have "(\<Sum>j<n. G w i j * ?v j) = 0" if i: "i < n" for i
  proof (cases "i < r")
    case True
    then show ?thesis unfolding split using v by simp
  next
    case False
    then have "(\<Sum>j<r. G w i j * v j) = 0" using low i by (intro sum.neutral) (auto simp: lower_def)
    then show ?thesis unfolding split using col [of i] i False by simp
  qed
  then have "\<forall>i < n. (\<Sum>j<n. A i j * ?v j) = 0" using derivedD(3) [OF d, of ?v] by simp
  from inj [OF this] have "?v r = 0" using r by blast
  then show False by simp
qed

lemma derived_forward:
  assumes "derived A n w" "r \<le> n" "lower n r w" "forward n [r..<n] w = Some w'"
  shows "derived A n w' \<and> lower n n w'"
  using assms
proof (induction "n - r" arbitrary: r w)
  case 0
  then show ?case by simp
next
  case (Suc k)
  then have rn: "r < n" by simp
  then obtain w1 where w1: "pivot_step n r w = Some w1" "forward n [Suc r..<n] w1 = Some w'"
    using Suc.prems(4) by (auto simp: upt_conv_Cons split: option.splits)
  have "derived A n w1 \<and> lower n (Suc r) w1" using derived_pivot [OF Suc.prems(1) rn Suc.prems(3) w1(1)] .
  then show ?case using Suc.hyps(1) [of "Suc r" w1] Suc.hyps(2) rn w1(2) by simp
qed

lemma forward_exists:
  assumes inj: "\<And>v. \<forall>i < n. (\<Sum>j<n. A i j * v j) = 0 \<Longrightarrow> \<forall>j < n. v j = 0"
    and "derived A n w" "r \<le> n" "lower n r w"
  shows "forward n [r..<n] w \<noteq> None"
  using assms(2-4)
proof (induction "n - r" arbitrary: r w)
  case (Suc k)
  then have rn: "r < n" by simp
  obtain w1 where w1: "pivot_step n r w = Some w1" using pivot_exists [OF Suc.prems(1) rn Suc.prems(3) inj] by auto
  have "derived A n w1 \<and> lower n (Suc r) w1" using derived_pivot [OF Suc.prems(1) rn Suc.prems(3) w1] .
  then show ?case using Suc.hyps(1) [of "Suc r" w1] Suc.hyps(2) rn w1 by (simp add: upt_conv_Cons)
qed simp

subsection \<open>Backward\<close>

definition upper :: "nat \<Rightarrow> rows \<Rightarrow> bool" where
  "upper d w = (\<forall>j < d. \<forall>i < j. G w i j = 0)"

lemma clear_above:
  assumes "derived A n w" "d < n" "lower n n w" "\<forall>i \<in> set is. i < d" "distinct is" "upper d w"
  shows "derived A n (foldl (clear_entry d) w is) \<and> lower n n (foldl (clear_entry d) w is) \<and>
    upper d (foldl (clear_entry d) w is) \<and>
    (\<forall>i < n. G (foldl (clear_entry d) w is) i d = (if i \<in> set is then 0 else G w i d))"
  using assms
proof (induction "is" arbitrary: w)
  case (Cons i "is")
  let ?w = "clear_entry d w i"
  have i: "i < d" "i < n" using Cons.prems by auto
  have sh: "shape n w" using Cons.prems(1) by (rule derivedD)
  note g = G_clear [OF sh Cons.prems(2) i(2)]
  have dd: "derived A n ?w" using Cons.prems i by (intro derived_clear) auto
  have zero: "G w d j = 0" if "j < d" for j using Cons.prems(2,3) that by (auto simp: lower_def)
  have g': "G ?w k j = G w k j" if "k < n" "j < d" for k j using g [of k j] that zero Cons.prems(2) by simp
  have one: "G w d d = 1" using Cons.prems(2,3) by (simp add: lower_def)
  have low: "lower n n ?w"
    unfolding lower_def
  proof (intro allI impI conjI)
    fix j assume j: "j < n"
    show "G ?w j j = 1" using g [of j j] j i zero Cons.prems(3) by (auto simp: lower_def)
    fix k assume k: "k < n" "j < k"
    have "G w k j = 0" using k j Cons.prems(3) by (auto simp: lower_def)
    moreover have "G w d j = 0" if "k = i" using zero [of j] k i that by auto
    ultimately show "G ?w k j = 0" using g [of k j] k j by auto
  qed
  have up: "upper d ?w" using Cons.prems(2,6) g' by (auto simp: upper_def)
  have col: "G ?w k d = (if k = i then 0 else G w k d)" if "k < n" for k
    using g [OF that, of d] Cons.prems(2) one by (simp add: gf_char_2)
  from Cons.IH [OF dd Cons.prems(2) low _ _ up] show ?case using Cons.prems(4,5) col by auto
qed simp

lemma derived_backward:
  assumes "derived A n w" "lower n n w"
  shows "derived A n (backward n w) \<and> lower n n (backward n w) \<and> upper n (backward n w)"
proof -
  let ?f = "\<lambda>w d. foldl (clear_entry d) w [0..<d]"
  have "d \<le> n \<Longrightarrow> derived A n (foldl ?f w [0..<d]) \<and> lower n n (foldl ?f w [0..<d]) \<and> upper d (foldl ?f w [0..<d])" for d
  proof (induction d)
    case 0
    then show ?case using assms by (simp add: upper_def)
  next
    case (Suc d)
    let ?w = "foldl ?f w [0..<d]"
    have "\<forall>i \<in> set [0..<d]. i < d" by simp
    from clear_above [of A n ?w d "[0..<d]"] this Suc
    have c: "derived A n (?f ?w d)" "lower n n (?f ?w d)" "upper d (?f ?w d)" "\<forall>i < n. i < d \<longrightarrow> G (?f ?w d) i d = 0"
      by auto
    then have "upper (Suc d) (?f ?w d)" using Suc.prems by (auto simp: upper_def less_Suc_eq)
    then show ?case using c by simp
  qed
  then show ?thesis by (simp add: backward_def)
qed

subsection \<open>The inverse\<close>

lemma derived_start:
  assumes "matrix_ok m" "mx_rows m = n" "mx_cols m = n"
  shows "derived (\<lambda>i j. gf_of (cell m i j)) n (mx_data (augment m (identity n)))"
proof -
  let ?w = "augment m (identity n)"
  have left: "cell ?w i j = cell m i j" if "i < n" "j < n" for i j
    using that assms by (simp add: augment_def identity_simps)
  have right: "cell ?w i (n + k) = (if i = k then 1 else 0)" if "i < n" "k < n" for i k
    using that assms by (simp add: augment_def identity_simps)
  have "matrix_ok ?w" "mx_rows ?w = n" "mx_cols ?w = n * 2" using assms by (simp_all add: augment_def identity_simps)
  then have "shape n (mx_data ?w)" by (auto simp: shape_def matrix_ok_def)
  then show ?thesis
  proof (rule derivedI)
    fix i j assume ij: "i < n" "j < n"
    have "(\<Sum>k<n. gf_of (cell ?w i (n + k)) * gf_of (cell m k j)) = (\<Sum>k<n. if k = i then gf_of (cell m k j) else 0)"
      using ij by (intro sum.cong) (auto simp: right gf_of_ops)
    then show "gf_of (cell ?w i j) = (\<Sum>k<n. gf_of (cell ?w i (n + k)) * gf_of (cell m k j))"
      using ij by (simp add: left)
  qed (auto simp: left)
qed

lemma invert_shape:
  assumes "invert m = Some b"
  shows "matrix_ok b \<and> mx_rows b = mx_rows m \<and> mx_cols b = mx_rows m"
  using assms by (auto simp: invert_def Let_def sub_matrix_def split: if_splits option.splits)

lemma invert_left_inverse:
  assumes m: "matrix_ok m" "mx_rows m = n" "mx_cols m = n" and b: "invert m = Some b" and ij: "i < n" "j < n"
  shows "(\<Sum>k<n. gf_of (cell b i k) * gf_of (cell m k j)) = (if i = j then 1 else 0)"
proof -
  let ?A = "\<lambda>i j. gf_of (cell m i j)" and ?w0 = "augment m (identity n)"
  have rows: "mx_rows ?w0 = n" using m by (simp add: augment_def)
  obtain w where w: "forward n [0..<n] (mx_data ?w0) = Some w"
      and bb: "b = sub_matrix (?w0\<lparr>mx_data := backward n w\<rparr>) 0 n n (n * 2)"
    using b m rows by (auto simp: invert_def Let_def split: option.splits)
  have "lower n 0 (mx_data ?w0)" by (simp add: lower_def)
  from derived_forward [OF derived_start [OF m] le0 this w] have "derived ?A n w" "lower n n w" by auto
  note fin = derived_backward [OF this]
  have cells: "cell b i k = backward n w ! i ! (n + k)" if "k < n" for k
    using that ij unfolding bb sub_matrix_def by simp
  have "(\<Sum>k<n. gf_of (cell b i k) * gf_of (cell m k j)) = G (backward n w) i j"
    using derivedD(2) [of ?A n "backward n w" i j] fin ij cells by simp
  also have "\<dots> = (if i = j then 1 else 0)"
    using fin ij by (cases i j rule: linorder_cases) (auto simp: lower_def upper_def)
  finally show ?thesis .
qed

lemma invert_exists:
  assumes m: "matrix_ok m" "mx_rows m = n" "mx_cols m = n"
    and inj: "\<And>v. \<forall>i < n. (\<Sum>j<n. gf_of (cell m i j) * v j) = 0 \<Longrightarrow> \<forall>j < n. v j = 0"
  shows "invert m \<noteq> None"
proof -
  let ?w0 = "augment m (identity n)"
  have rows: "mx_rows ?w0 = n" using m by (simp add: augment_def)
  have "lower n 0 (mx_data ?w0)" by (simp add: lower_def)
  from forward_exists [OF inj derived_start [OF m] le0 this] show ?thesis
    using m rows by (auto simp: invert_def Let_def)
qed

end
