(* ===== verification/ReedSolomon.thy ===== *)
theory ReedSolomon
  imports Matrix "HOL-Library.FuncSet"
begin

text \<open>
  The erasure code of \<^verbatim>\<open>src/erasure/reedsolomon.rs\<close>: the coding matrix, encoding and reconstruction. Every square
  choice of rows of the coding matrix is shown to be invertible, because a polynomial has no more roots than its degree,
  and reconstruction to be exact on every set of surviving shards.
\<close>

unbundle bit_operations_syntax

section \<open>The codec\<close>

definition build_matrix :: "usize \<Rightarrow> usize \<Rightarrow> matrix option" where
  "build_matrix data_shards total_shards =
     (let vm = vandermonde total_shards data_shards;
          upp = sub_matrix vm 0 0 data_shards data_shards
      in case invert upp of None \<Rightarrow> None | Some top_inv \<Rightarrow> Some (multiply vm top_inv))"

record reed_solomon =
  data_shards :: usize
  parity_shards :: usize
  total_shards :: usize
  rs_matrix :: matrix

datatype rs_error =
    InvalidShardNumber
  | TooFewShards usize usize
  | ShardSizeMismatch
  | Singular

definition rs_new :: "usize \<Rightarrow> usize \<Rightarrow> rs_error + reed_solomon" where
  "rs_new d p =
     (let total = d + p in
      if d = 0 \<or> total > 256 then Inl InvalidShardNumber
      else
        case (if p = 0 then Some (identity d) else build_matrix d total) of
          None \<Rightarrow> Inl Singular
        | Some m \<Rightarrow> Inr \<lparr>data_shards = d, parity_shards = p, total_shards = total, rs_matrix = m\<rparr>)"

fun xor_into :: "byte \<Rightarrow> bytes \<Rightarrow> bytes \<Rightarrow> bytes" where
  "xor_into coeff (x # xs) (y # ys) = (x XOR gal_mul coeff y) # xor_into coeff xs ys"
| "xor_into coeff xs ys = xs"

text \<open>The linear combination of shards both directions compute.\<close>

definition combine :: "bytes \<Rightarrow> bytes list \<Rightarrow> usize \<Rightarrow> bytes" where
  "combine row ins shard_size =
     foldl (\<lambda>out (c, in_shard). if row ! c = 0 then out else xor_into (row ! c) out in_shard)
       (replicate shard_size 0) (zip [0..<length ins] ins)"

fun scan_sizes :: "bytes option list \<Rightarrow> usize option \<Rightarrow> rs_error + usize option" where
  "scan_sizes [] sz = Inr sz"
| "scan_sizes (None # ss) sz = scan_sizes ss sz"
| "scan_sizes (Some s # ss) None = scan_sizes ss (Some (length s))"
| "scan_sizes (Some s # ss) (Some z) = (if z \<noteq> length s then Inl ShardSizeMismatch else scan_sizes ss (Some z))"

fun collect :: "usize \<Rightarrow> usize \<Rightarrow> (bytes \<times> usize) list \<Rightarrow> bytes option list \<Rightarrow> (bytes \<times> usize) list" where
  "collect d row acc [] = acc"
| "collect d row acc (s # ss) =
     (if length acc = d then acc
      else case s of
             Some b \<Rightarrow> collect d (Suc row) (acc @ [(b, row)]) ss
           | None \<Rightarrow> collect d (Suc row) acc ss)"

definition present_count :: "bytes option list \<Rightarrow> nat" where
  "present_count shards = length (filter (\<lambda>s. s \<noteq> None) shards)"

definition reconstruct_data :: "reed_solomon \<Rightarrow> bytes option list \<Rightarrow> rs_error + bytes option list" where
  "reconstruct_data rs shards =
     (let d = data_shards rs in
      if length shards \<noteq> total_shards rs then Inl InvalidShardNumber
      else
        case scan_sizes shards None of
          Inl e \<Rightarrow> Inl e
        | Inr None \<Rightarrow> Inl (TooFewShards d 0)
        | Inr (Some shard_size) \<Rightarrow>
            if present_count (take d shards) = d then Inr shards
            else
              let number_present = present_count shards in
              if number_present < d then Inl (TooFewShards d number_present)
              else
                let valid = collect d 0 [] shards;
                    sub_shards = map fst valid;
                    valid_indices = map snd valid;
                    sub = tabulate d d (\<lambda>r c. cell (rs_matrix rs) (valid_indices ! r) c)
                in case invert sub of
                     None \<Rightarrow> Inl Singular
                   | Some decode \<Rightarrow>
                       Inr (foldl (\<lambda>shards i.
                           if shards ! i \<noteq> None then shards
                           else shards[i := Some (combine (mx_data decode ! i) sub_shards shard_size)])
                         shards [0..<d]))"

definition encode :: "reed_solomon \<Rightarrow> bytes list \<Rightarrow> rs_error + bytes list" where
  "encode rs shards =
     (let d = data_shards rs in
      if length shards \<noteq> total_shards rs then Inl InvalidShardNumber
      else
        let shard_size = length (shards ! 0) in
        if list_ex (\<lambda>s. length s \<noteq> shard_size) shards then Inl ShardSizeMismatch
        else Inr (foldl (\<lambda>shards p.
               shards[d + p := combine (mx_data (rs_matrix rs) ! (d + p)) (take d shards) shard_size])
             shards [0..<parity_shards rs]))"

section \<open>Vandermonde matrices\<close>

fun horner :: "gf list \<Rightarrow> gf \<Rightarrow> gf" where
  "horner [] x = 0"
| "horner (c # cs) x = c + x * horner cs x"

lemma horner_sum: "horner cs x = (\<Sum>i<length cs. cs ! i * x ^ i)"
  by (induction cs) (simp_all add: sum.lessThan_Suc_shift sum_distrib_left algebra_simps del: sum.lessThan_Suc)

text \<open>The quotient of a polynomial by the linear factor of a point.\<close>

fun quotient :: "gf \<Rightarrow> gf list \<Rightarrow> gf list" where
  "quotient a [] = []"
| "quotient a (c # cs) = (if cs = [] then [] else horner cs a # quotient a cs)"

lemma length_quotient: "length (quotient a p) = length p - 1"
  by (induction p) (auto simp: Suc_diff_Suc neq_Nil_conv)

lemma horner_quotient: "horner p x = (x - a) * horner (quotient a p) x + horner p a"
proof (induction p)
  case (Cons c cs)
  show ?case
  proof (cases "cs = []")
    case False
    have "horner (c # cs) x = c + x * ((x - a) * horner (quotient a cs) x + horner cs a)" using Cons by simp
    also have "\<dots> = (x - a) * horner (quotient a (c # cs)) x + horner (c # cs) a"
      using False by (simp add: algebra_simps)
    finally show ?thesis .
  qed simp
qed simp

lemma quotient_zero: "\<forall>c \<in> set (quotient a p). c = 0 \<Longrightarrow> horner p a = 0 \<Longrightarrow> \<forall>c \<in> set p. c = 0"
proof (induction p)
  case (Cons c cs)
  show ?case
  proof (cases "cs = []")
    case True
    then show ?thesis using Cons.prems by simp
  next
    case False
    then have "\<forall>c \<in> set cs. c = 0" using Cons by simp
    moreover from False Cons.prems(1) have "horner cs a = 0" by simp
    ultimately show ?thesis using Cons.prems(2) by simp
  qed
qed simp

lemma roots_bound:
  assumes "\<forall>x \<in> S. horner p x = 0" "finite S" "length p \<le> card S"
  shows "\<forall>c \<in> set p. c = 0"
  using assms
proof (induction "length p" arbitrary: p S)
  case (Suc n)
  obtain a where a: "a \<in> S" using Suc by (metis card.empty ex_in_conv le_zero_eq nat.distinct(1))
  have "horner (quotient a p) x = 0" if "x \<in> S - {a}" for x
  proof -
    have "(x - a) * horner (quotient a p) x = 0" using horner_quotient [of p x a] Suc.prems(1) a that by simp
    then show ?thesis using that by simp
  qed
  then have "\<forall>c \<in> set (quotient a p). c = 0"
    using Suc.hyps(1) [of "quotient a p" "S - {a}"] Suc.hyps(2) Suc.prems a by (simp add: length_quotient)
  then show ?case using quotient_zero Suc.prems(1) a by blast
qed simp

lemma of_nat_byte_inj: "i < 256 \<Longrightarrow> j < 256 \<Longrightarrow> (of_nat i :: byte) = of_nat j \<longleftrightarrow> i = j"
proof -
  assume ij: "i < 256" "j < 256"
  have "unat (of_nat i :: byte) = i" "unat (of_nat j :: byte) = j" using ij by (simp_all add: unat_of_nat)
  then show ?thesis by metis
qed

lemma vandermonde_rows_inj:
  assumes "\<forall>i < d. row i < 256" "inj_on row {..<d}"
    and z: "\<forall>i < d. (\<Sum>j<d. gf_of (gal_exp (of_nat (row i)) j) * v j) = 0"
  shows "\<forall>j < d. v j = 0"
proof -
  let ?p = "map v [0..<d]" and ?x = "\<lambda>i. gf_of (of_nat (row i))"
  have "inj_on ?x {..<d}" using assms(1,2) by (auto simp: inj_on_def of_nat_byte_inj)
  then have "card (?x ` {..<d}) = d" by (simp add: card_image)
  moreover have "horner ?p (?x i) = 0" if "i < d" for i
    using z that by (simp add: horner_sum gf_of_exp mult.commute)
  ultimately have "\<forall>c \<in> set ?p. c = 0" by (intro roots_bound [of "?x ` {..<d}"]) auto
  then show ?thesis by simp
qed

section \<open>A left inverse is a right inverse\<close>

instance gf :: finite
proof
  have "(UNIV :: gf set) = range gf_of" by (metis byte_of_inverse surjI)
  then show "finite (UNIV :: gf set)" by (metis finite finite_imageI)
qed

definition mat_vec :: "nat \<Rightarrow> (nat \<Rightarrow> nat \<Rightarrow> gf) \<Rightarrow> (nat \<Rightarrow> gf) \<Rightarrow> nat \<Rightarrow> gf" where
  "mat_vec n M v = restrict (\<lambda>i. \<Sum>j<n. M i j * v j) {..<n}"

definition vectors :: "nat \<Rightarrow> (nat \<Rightarrow> gf) set" where
  "vectors n = PiE {..<n} (\<lambda>_. UNIV)"

lemma finite_vectors: "finite (vectors n)"
  unfolding vectors_def by (rule finite_PiE) simp_all

lemma mat_vec_vectors: "mat_vec n M v \<in> vectors n"
  by (simp add: mat_vec_def vectors_def)

lemma mat_vec_nth: "i < n \<Longrightarrow> mat_vec n M v i = (\<Sum>j<n. M i j * v j)"
  by (simp add: mat_vec_def)

lemma mat_vec_inverse:
  assumes BA: "\<And>i j. i < n \<Longrightarrow> j < n \<Longrightarrow> (\<Sum>k<n. B i k * A k j) = (if i = j then 1 else 0)"
    and v: "v \<in> vectors n"
  shows "mat_vec n B (mat_vec n A v) = v"
proof (rule ext)
  fix i
  show "mat_vec n B (mat_vec n A v) i = v i"
  proof (cases "i < n")
    case True
    have "mat_vec n B (mat_vec n A v) i = (\<Sum>k<n. \<Sum>j<n. B i k * (A k j * v j))"
      using True by (simp add: mat_vec_nth sum_distrib_left)
    also have "\<dots> = (\<Sum>j<n. \<Sum>k<n. B i k * (A k j * v j))" by (rule sum.swap)
    also have "\<dots> = (\<Sum>j<n. (\<Sum>k<n. B i k * A k j) * v j)" by (simp add: sum_distrib_right mult.assoc)
    also have "\<dots> = (\<Sum>j<n. if j = i then v j else 0)" using True by (intro sum.cong) (auto simp: BA)
    finally show ?thesis using True by simp
  next
    case False
    then have "v i = undefined" using v by (simp add: vectors_def PiE_def extensional_def)
    then show ?thesis using False by (simp add: mat_vec_def)
  qed
qed

lemma mat_vec_surj:
  assumes "\<And>i j. i < n \<Longrightarrow> j < n \<Longrightarrow> (\<Sum>k<n. B i k * A k j) = (if i = j then 1 else 0)"
  shows "mat_vec n A ` vectors n = vectors n"
proof (rule endo_inj_surj [OF finite_vectors])
  show "mat_vec n A ` vectors n \<subseteq> vectors n" using mat_vec_vectors by blast
  show "inj_on (mat_vec n A) (vectors n)" by (rule inj_on_inverseI [of _ "mat_vec n B"]) (rule mat_vec_inverse [of n B A, OF assms])
qed

lemma right_inverse:
  fixes A B :: "nat \<Rightarrow> nat \<Rightarrow> gf"
  assumes BA: "\<And>i j. i < n \<Longrightarrow> j < n \<Longrightarrow> (\<Sum>k<n. B i k * A k j) = (if i = j then 1 else 0)"
    and ij: "i < n" "j < n"
  shows "(\<Sum>k<n. A i k * B k j) = (if i = j then 1 else 0)"
proof -
  define u where "u = restrict (\<lambda>i. if i = j then 1 else 0 :: gf) {..<n}"
  have "mat_vec n A ` vectors n = vectors n" by (rule mat_vec_surj [of n B A]) (rule BA)
  then have "u \<in> mat_vec n A ` vectors n" by (simp add: u_def vectors_def)
  then obtain v where v: "v \<in> vectors n" "u = mat_vec n A v" by blast
  have "mat_vec n B (mat_vec n A v) = v" by (rule mat_vec_inverse [OF _ v(1)]) (rule BA)
  then have "mat_vec n A (mat_vec n B u) = u" by (simp add: v(2))
  then have "mat_vec n A (mat_vec n B u) i = u i" by (rule fun_cong)
  then have *: "(\<Sum>k<n. A i k * mat_vec n B u k) = (if i = j then 1 else 0)" using ij by (simp add: mat_vec_nth u_def)
  have "mat_vec n B u k = B k j" if "k < n" for k
  proof -
    have "mat_vec n B u k = (\<Sum>l<n. if l = j then B k l else 0)" unfolding mat_vec_nth [OF that] u_def by (intro sum.cong) auto
    then show ?thesis using ij by simp
  qed
  then show ?thesis using * by simp
qed

section \<open>The coding matrix\<close>

definition any_rows_inj :: "usize \<Rightarrow> usize \<Rightarrow> matrix \<Rightarrow> bool" where
  "any_rows_inj d tot m = (\<forall>row v. (\<forall>i < d. row i < tot) \<and> inj_on row {..<d} \<and>
     (\<forall>i < d. (\<Sum>j<d. gf_of (cell m (row i) j) * v j) = 0) \<longrightarrow> (\<forall>j < d. v j = 0))"

definition coding_matrix :: "usize \<Rightarrow> usize \<Rightarrow> matrix \<Rightarrow> bool" where
  "coding_matrix d tot m = (matrix_ok m \<and> mx_rows m = tot \<and> mx_cols m = d \<and>
     (\<forall>r < d. \<forall>c < d. gf_of (cell m r c) = (if r = c then 1 else 0)) \<and> any_rows_inj d tot m)"

lemma coding_identity: "coding_matrix d d (identity d)"
proof -
  have "v j = 0" if row: "\<forall>i < d. row i < d" "inj_on row {..<d}"
      and z: "\<forall>i < d. (\<Sum>j<d. gf_of (cell (identity d) (row i) j) * v j) = 0" and j: "j < d" for row j and v :: "nat \<Rightarrow> gf"
  proof -
    have "row ` {..<d} = {..<d}" using row by (intro endo_inj_surj) auto
    then obtain i where i: "i < d" "row i = j" using j by (metis imageE lessThan_iff)
    have "(\<Sum>l<d. gf_of (cell (identity d) j l) * v l) = (\<Sum>l<d. if l = j then v l else 0)"
      using j by (intro sum.cong) (auto simp: identity_simps gf_of_ops)
    then show ?thesis using z i j by auto
  qed
  then have "any_rows_inj d d (identity d)" unfolding any_rows_inj_def by blast
  then show ?thesis unfolding coding_matrix_def by (simp add: identity_simps gf_of_ops)
qed

lemma product_apply:
  "(\<Sum>i<d. V i * (\<Sum>j<d. B i j * v j)) = (\<Sum>j<d. (\<Sum>i<d. V i * B i j) * (v j :: gf))"
proof -
  have "(\<Sum>i<d. V i * (\<Sum>j<d. B i j * v j)) = (\<Sum>i<d. \<Sum>j<d. V i * B i j * v j)"
    by (simp add: sum_distrib_left mult.assoc)
  also have "\<dots> = (\<Sum>j<d. \<Sum>i<d. V i * B i j * v j)" by (rule sum.swap)
  finally show ?thesis by (simp add: sum_distrib_right)
qed

lemma delta_apply: "j < d \<Longrightarrow> (\<Sum>l<d. (if j = l then 1 else 0) * v l) = (v j :: gf)" for j :: nat
proof -
  assume "j < d"
  have "(\<Sum>l<d. (if j = l then 1 else 0) * v l) = (\<Sum>l<d. if l = j then v l else 0)" by (intro sum.cong) auto
  then show ?thesis using \<open>j < d\<close> by simp
qed

lemma inverse_kernel:
  fixes T B :: "nat \<Rightarrow> nat \<Rightarrow> gf"
  assumes TB: "\<And>l. l < d \<Longrightarrow> (\<Sum>k<d. T j k * B k l) = (if j = l then 1 else 0)"
    and z: "\<forall>i < d. (\<Sum>j<d. B i j * v j) = 0" and j: "j < d"
  shows "v j = 0"
proof -
  have "v j = (\<Sum>l<d. (\<Sum>k<d. T j k * B k l) * v l)" using delta_apply [OF j, of v] TB by simp
  also have "\<dots> = (\<Sum>k<d. T j k * (\<Sum>l<d. B k l * v l))" by (rule product_apply [symmetric])
  also have "\<dots> = 0" using z by simp
  finally show ?thesis .
qed

lemma vandermonde_product:
  assumes tot: "d \<le> tot" "tot \<le> 256"
    and M: "\<And>r c. r < tot \<Longrightarrow> c < d \<Longrightarrow> gf_of (cell m r c) = (\<Sum>i<d. gf_of (gal_exp (of_nat r) i) * B i c)"
    and TB: "\<And>j l. j < d \<Longrightarrow> l < d \<Longrightarrow> (\<Sum>k<d. gf_of (gal_exp (of_nat j) k) * B k l) = (if j = l then 1 else 0)"
  shows "any_rows_inj d tot m"
  unfolding any_rows_inj_def
proof (intro allI impI, elim conjE)
  fix row v j
  assume row: "\<forall>i < d. row i < tot" "inj_on row {..<d}" and j: "j < d"
    and z: "\<forall>i < d. (\<Sum>j<d. gf_of (cell m (row i) j) * v j) = 0"
  have "(\<Sum>i<d. gf_of (gal_exp (of_nat (row r)) i) * (\<Sum>j<d. B i j * v j)) = 0" if r: "r < d" for r
  proof -
    have "(\<Sum>i<d. gf_of (gal_exp (of_nat (row r)) i) * (\<Sum>j<d. B i j * v j)) = (\<Sum>j<d. gf_of (cell m (row r) j) * v j)"
      using r row M by (simp add: product_apply)
    then show ?thesis using z r by simp
  qed
  moreover have "\<forall>i < d. row i < 256" using row(1) tot by auto
  ultimately have "\<forall>i < d. (\<Sum>j<d. B i j * v j) = 0"
    using vandermonde_rows_inj [of d row "\<lambda>i. \<Sum>j<d. B i j * v j"] row(2) by blast
  then show "v j = 0" using inverse_kernel [of d "\<lambda>j k. gf_of (gal_exp (of_nat j) k)" j B v] TB j by blast
qed

lemma coding_build:
  assumes tot: "d \<le> tot" "tot \<le> 256"
  shows "\<exists>m. build_matrix d tot = Some m \<and> coding_matrix d tot m"
proof -
  let ?vm = "vandermonde tot d"
  let ?upp = "sub_matrix ?vm 0 0 d d"
  have V: "cell ?vm r c = gal_exp (of_nat r) c" if "r < tot" "c < d" for r c
    using that by (simp add: vandermonde_def)
  have U: "cell ?upp r c = gal_exp (of_nat r) c" if "r < d" "c < d" for r c
    using that V tot by (simp add: sub_matrix_def)
  have upp: "matrix_ok ?upp" "mx_rows ?upp = d" "mx_cols ?upp = d" by (simp_all add: sub_matrix_def)
  have "invert ?upp \<noteq> None"
  proof (rule invert_exists [OF upp])
    fix v assume "\<forall>i < d. (\<Sum>j<d. gf_of (cell ?upp i j) * v j) = 0"
    then have "\<forall>i < d. (\<Sum>j<d. gf_of (gal_exp (of_nat i) j) * v j) = 0" by (simp add: U)
    then show "\<forall>j < d. v j = 0" using tot vandermonde_rows_inj [of d "\<lambda>i. i" v] by simp
  qed
  then obtain b where b: "invert ?upp = Some b" by blast
  let ?m = "multiply ?vm b" and ?B = "\<lambda>i j. gf_of (cell b i j)"
  have bs: "mx_cols b = d" using invert_shape [OF b] upp by simp
  have "(\<Sum>k<d. ?B i k * gf_of (gal_exp (of_nat k) j)) = (if i = j then 1 else 0)" if "i < d" "j < d" for i j
    using invert_left_inverse [OF upp b that] that by (simp add: U)
  then have TB: "(\<Sum>k<d. gf_of (gal_exp (of_nat i) k) * ?B k j) = (if i = j then 1 else 0)" if "i < d" "j < d" for i j
    using right_inverse [of d ?B "\<lambda>i j. gf_of (gal_exp (of_nat i) j)" i j] that by simp
  have M: "gf_of (cell ?m r c) = (\<Sum>i<d. gf_of (gal_exp (of_nat r) i) * ?B i c)" if "r < tot" "c < d" for r c
    using that cell_multiply [of r ?vm c b] bs V by (simp add: vandermonde_def)
  have "any_rows_inj d tot ?m" by (rule vandermonde_product [OF tot M TB])
  moreover have "matrix_ok ?m" "mx_rows ?m = tot" "mx_cols ?m = d" using bs by (simp_all add: multiply_def vandermonde_def)
  moreover have "gf_of (cell ?m r c) = (if r = c then 1 else 0)" if "r < d" "c < d" for r c
    using M [of r c] TB [OF that] that tot by simp
  ultimately have "coding_matrix d tot ?m" unfolding coding_matrix_def by blast
  then show ?thesis using b by (simp add: build_matrix_def Let_def)
qed

lemma rs_new_ok:
  assumes "0 < d" "d + p \<le> 256"
  shows "\<exists>rs. rs_new d p = Inr rs \<and> data_shards rs = d \<and> parity_shards rs = p \<and> total_shards rs = d + p \<and>
    coding_matrix d (d + p) (rs_matrix rs)"
  using assms coding_identity [of d] coding_build [of d "d + p"] by (cases "p = 0") (auto simp: rs_new_def Let_def)

section \<open>Combinations of shards\<close>

lemma length_xor_into [simp]: "length (xor_into coeff xs ys) = length xs"
  by (induction coeff xs ys rule: xor_into.induct) auto

lemma xor_into_nth:
  "length xs = length ys \<Longrightarrow> t < length xs \<Longrightarrow> xor_into coeff xs ys ! t = xs ! t XOR gal_mul coeff (ys ! t)"
  by (induction coeff xs ys arbitrary: t rule: xor_into.induct) (auto simp: nth_Cons split: nat.split)

lemma combine_prefix:
  assumes "\<forall>s \<in> set ins. length s = n" "k \<le> length ins"
  shows "length (foldl (\<lambda>out (c, in_shard). if row ! c = 0 then out else xor_into (row ! c) out in_shard)
      (replicate n 0) (take k (zip [0..<length ins] ins))) = n \<and>
    (\<forall>t < n. gf_of (foldl (\<lambda>out (c, in_shard). if row ! c = 0 then out else xor_into (row ! c) out in_shard)
      (replicate n 0) (take k (zip [0..<length ins] ins)) ! t) = (\<Sum>c<k. gf_of (row ! c) * gf_of (ins ! c ! t)))"
  using assms(2)
proof (induction k)
  case (Suc k)
  let ?f = "\<lambda>out (c, in_shard). if row ! c = 0 then out else xor_into (row ! c) out in_shard"
  have "take (Suc k) (zip [0..<length ins] ins) = take k (zip [0..<length ins] ins) @ [(k, ins ! k)]"
    using Suc.prems by (simp add: take_Suc_conv_app_nth)
  moreover have "length (ins ! k) = n" using assms(1) Suc.prems by simp
  ultimately show ?case using Suc by (auto simp: xor_into_nth gf_of_ops gf_of_eq_0)
qed (simp add: gf_of_ops)

lemma combine_nth:
  assumes "\<forall>s \<in> set ins. length s = n"
  shows "length (combine row ins n) = n"
    and "t < n \<Longrightarrow> gf_of (combine row ins n ! t) = (\<Sum>c<length ins. gf_of (row ! c) * gf_of (ins ! c ! t))"
  using combine_prefix [OF assms order_refl, of row] by (simp_all add: combine_def)

text \<open>A shard is determined by its bytes in the field.\<close>

lemma shard_eqI:
  assumes "length a = length b" "\<And>t. t < length a \<Longrightarrow> gf_of (a ! t) = gf_of (b ! t)"
  shows "a = b"
  using assms by (simp add: list_eq_iff_nth_eq)

section \<open>Encoding\<close>

definition encoded :: "reed_solomon \<Rightarrow> bytes list \<Rightarrow> usize \<Rightarrow> nat \<Rightarrow> bytes" where
  "encoded rs ds n r = (if r < data_shards rs then ds ! r else combine (mx_data (rs_matrix rs) ! r) ds n)"

lemma encode_loop:
  fixes f :: "nat \<Rightarrow> bytes list \<Rightarrow> bytes"
  assumes "length ds = d" "length buf = p" "k \<le> p"
  shows "foldl (\<lambda>shards q. shards[d + q := f q (take d shards)]) (ds @ buf) [0..<k] =
    ds @ map (\<lambda>q. f q ds) [0..<k] @ drop k buf"
  using assms(3)
proof (induction k)
  case (Suc k)
  then have "drop k buf = buf ! k # drop (Suc k) buf" using assms(2) by (simp add: Cons_nth_drop_Suc)
  then show ?case using Suc assms by (simp add: list_update_append)
qed simp

lemma encode_shards:
  assumes rs: "data_shards rs = d" "parity_shards rs = p" "total_shards rs = d + p" and d: "0 < d"
    and ds: "length ds = d" "\<forall>s \<in> set ds. length s = n" and buf: "length buf = p" "\<forall>s \<in> set buf. length s = n"
  shows "encode rs (ds @ buf) = Inr (map (encoded rs ds n) [0..<d + p])"
proof -
  have n: "length ((ds @ buf) ! 0) = n" using ds d by (cases ds) auto
  have "foldl (\<lambda>shards q. shards[d + q := combine (mx_data (rs_matrix rs) ! (d + q)) (take d shards) n]) (ds @ buf) [0..<p] =
      ds @ map (\<lambda>q. combine (mx_data (rs_matrix rs) ! (d + q)) ds n) [0..<p]"
    using encode_loop [of ds d buf p p "\<lambda>q s. combine (mx_data (rs_matrix rs) ! (d + q)) s n"] ds(1) buf(1) by simp
  also have "\<dots> = map (encoded rs ds n) [0..<d + p]"
    using ds rs by (auto simp: encoded_def nth_append intro!: nth_equalityI)
  finally show ?thesis
    using rs ds buf n unfolding encode_def Let_def by (simp add: list_ex_iff) blast
qed

lemma encoded_length:
  assumes "data_shards rs = length ds" "\<forall>s \<in> set ds. length s = n"
  shows "length (encoded rs ds n r) = n"
  using assms combine_nth(1) by (auto simp: encoded_def)

lemma encoded_nth:
  assumes m: "coding_matrix d tot (rs_matrix rs)" and ds: "data_shards rs = d" "length ds = d" "\<forall>s \<in> set ds. length s = n"
    and t: "t < n"
  shows "gf_of (encoded rs ds n r ! t) = (\<Sum>c<d. gf_of (cell (rs_matrix rs) r c) * gf_of (ds ! c ! t))"
proof (cases "r < d")
  case True
  have "(\<Sum>c<d. gf_of (cell (rs_matrix rs) r c) * gf_of (ds ! c ! t)) = (\<Sum>c<d. (if r = c then 1 else 0) * gf_of (ds ! c ! t))"
    using m True by (intro sum.cong) (auto simp: coding_matrix_def)
  then show ?thesis using True ds delta_apply [OF True, of "\<lambda>c. gf_of (ds ! c ! t)"] by (simp add: encoded_def)
next
  case False
  then show ?thesis using combine_nth(2) [OF ds(3) t] ds by (simp add: encoded_def)
qed

section \<open>Reconstruction\<close>

fun present_from :: "usize \<Rightarrow> bytes option list \<Rightarrow> (bytes \<times> usize) list" where
  "present_from row [] = []"
| "present_from row (None # ss) = present_from (Suc row) ss"
| "present_from row (Some b # ss) = (b, row) # present_from (Suc row) ss"

lemma collect_take: "length acc \<le> d \<Longrightarrow> collect d row acc ss = acc @ take (d - length acc) (present_from row ss)"
proof (induction ss arbitrary: row acc)
  case (Cons s ss)
  show ?case
  proof (cases "length acc = d")
    case False
    then have "d - length acc = Suc (d - Suc (length acc))" using Cons.prems by simp
    then show ?thesis using Cons False by (cases s) auto
  qed simp
qed simp

lemma length_present_from: "length (present_from row ss) = present_count ss"
  by (induction row ss rule: present_from.induct) (auto simp: present_count_def)

lemma present_from_mem:
  "(b, r) \<in> set (present_from row ss) \<Longrightarrow> row \<le> r \<and> r - row < length ss \<and> ss ! (r - row) = Some b"
proof (induction row ss rule: present_from.induct)
  case (2 row ss)
  then show ?case by (auto simp: Suc_diff_le nth_Cons' Suc_le_eq dest: Suc_leD)
next
  case (3 row b' ss)
  then show ?case by (auto simp: nth_Cons' Suc_le_eq)
qed simp

lemma distinct_present_from: "distinct (map snd (present_from row ss))"
  by (induction row ss rule: present_from.induct) (auto dest: present_from_mem)

lemma scan_sizes_some:
  "\<forall>s. Some s \<in> set ss \<longrightarrow> length s = n \<Longrightarrow> scan_sizes ss (Some n) = Inr (Some n)"
  by (induction ss "Some n" rule: scan_sizes.induct) auto

lemma scan_sizes_none:
  assumes "\<forall>s. Some s \<in> set ss \<longrightarrow> length s = n" "0 < present_count ss"
  shows "scan_sizes ss None = Inr (Some n)"
  using assms
proof (induction ss)
  case (Cons s ss)
  then show ?case by (cases s) (auto simp: scan_sizes_some present_count_def)
qed (simp add: present_count_def)

lemma fill_loop:
  assumes "k \<le> length shards"
  shows "foldl (\<lambda>shards i. if shards ! i \<noteq> None then shards else shards[i := Some (f i)]) shards [0..<k] =
    map (\<lambda>i. case shards ! i of None \<Rightarrow> Some (f i) | Some s \<Rightarrow> Some s) [0..<k] @ drop k shards"
  using assms
proof (induction k)
  case (Suc k)
  then have "drop k shards = shards ! k # drop (Suc k) shards" by (simp add: Cons_nth_drop_Suc)
  then show ?case using Suc by (auto simp: nth_append list_update_append split: option.split)
qed simp

lemma decode_row:
  assumes m: "coding_matrix d tot (rs_matrix rs)" and ds: "data_shards rs = d" "length ds = d" "\<forall>s \<in> set ds. length s = n"
    and idx: "length idx = d" "distinct idx" "\<forall>r \<in> set idx. r < tot"
    and dec: "invert (tabulate d d (\<lambda>r c. cell (rs_matrix rs) (idx ! r) c)) = Some dec" and i: "i < d"
  shows "combine (mx_data dec ! i) (map (encoded rs ds n) idx) n = ds ! i"
proof (rule shard_eqI)
  let ?sub = "tabulate d d (\<lambda>r c. cell (rs_matrix rs) (idx ! r) c)" and ?ins = "map (encoded rs ds n) idx"
  have ins: "\<forall>s \<in> set ?ins. length s = n" using encoded_length ds by auto
  show "length (combine (mx_data dec ! i) ?ins n) = length (ds ! i)" using combine_nth(1) [OF ins] ds i by simp
  fix t assume "t < length (combine (mx_data dec ! i) ?ins n)"
  then have t: "t < n" using combine_nth(1) [OF ins] by simp
  have "gf_of (combine (mx_data dec ! i) ?ins n ! t) = (\<Sum>c<d. gf_of (cell dec i c) * gf_of (encoded rs ds n (idx ! c) ! t))"
    using combine_nth(2) [OF ins t] idx(1) by simp
  also have "\<dots> = (\<Sum>c<d. gf_of (cell dec i c) * (\<Sum>j<d. gf_of (cell ?sub c j) * gf_of (ds ! j ! t)))"
    by (simp add: encoded_nth [OF m ds t])
  also have "\<dots> = (\<Sum>j<d. (\<Sum>c<d. gf_of (cell dec i c) * gf_of (cell ?sub c j)) * gf_of (ds ! j ! t))"
    by (rule product_apply)
  also have "\<dots> = (\<Sum>j<d. (if i = j then 1 else 0) * gf_of (ds ! j ! t))"
    using invert_left_inverse [OF tabulate_simps(3) tabulate_simps(1,2) dec i] by (intro sum.cong) auto
  finally show "gf_of (combine (mx_data dec ! i) ?ins n ! t) = gf_of (ds ! i ! t)" using delta_apply [OF i] by simp
qed

lemma decode_exists:
  assumes m: "coding_matrix d tot m" and idx: "length idx = d" "distinct idx" "\<forall>r \<in> set idx. r < tot"
  shows "invert (tabulate d d (\<lambda>r c. cell m (idx ! r) c)) \<noteq> None"
proof (rule invert_exists [OF tabulate_simps(3,1,2)])
  fix v assume "\<forall>i < d. (\<Sum>j<d. gf_of (cell (tabulate d d (\<lambda>r c. cell m (idx ! r) c)) i j) * v j) = 0"
  then have "\<forall>i < d. (\<Sum>j<d. gf_of (cell m (idx ! i) j) * v j) = 0" by simp
  moreover have "inj_on ((!) idx) {..<d}" using idx by (simp add: inj_on_nth)
  moreover have "\<forall>i < d. idx ! i < tot" using idx by simp
  ultimately show "\<forall>j < d. v j = 0" using m unfolding coding_matrix_def any_rows_inj_def by blast
qed

text \<open>What is left of an encoding after some shards were lost.\<close>

definition survives :: "bytes list \<Rightarrow> bytes option list \<Rightarrow> bool" where
  "survives full shards = (length shards = length full \<and> (\<forall>i < length full. shards ! i = None \<or> shards ! i = Some (full ! i)))"

lemma survivesD: "survives full shards \<Longrightarrow> i < length full \<Longrightarrow> shards ! i = Some s \<Longrightarrow> s = full ! i"
  by (auto simp: survives_def)

lemma present_count_full: "present_count ss = length ss \<Longrightarrow> i < length ss \<Longrightarrow> ss ! i \<noteq> None"
  unfolding present_count_def using length_filter_less [of "ss ! i" ss "\<lambda>s. s \<noteq> None"] nth_mem by fastforce

lemma present_count_le: "present_count (take k ss) \<le> present_count ss"
  unfolding present_count_def by (metis append_take_drop_id filter_append length_append le_add1)

lemma reconstruct_ok:
  assumes m: "coding_matrix d (d + p) (rs_matrix rs)" and rs: "data_shards rs = d" "total_shards rs = d + p" and d: "0 < d"
    and ds: "length ds = d" "\<forall>s \<in> set ds. length s = n"
    and sv: "survives (map (encoded rs ds n) [0..<d + p]) shards" and cnt: "d \<le> present_count shards"
  shows "reconstruct_data rs shards = Inr (map Some ds @ drop d shards)"
proof -
  have len: "length shards = d + p" using sv by (simp add: survives_def)
  have val: "s = encoded rs ds n i" if "i < d + p" "shards ! i = Some s" for i s
    using survivesD [OF sv] that by (simp del: upt_Suc)
  have "length (encoded rs ds n i) = n" for i using encoded_length rs(1) ds by simp
  then have "\<forall>s. Some s \<in> set shards \<longrightarrow> length s = n" using val len by (metis in_set_conv_nth)
  then have scan: "scan_sizes shards None = Inr (Some n)" using cnt d by (intro scan_sizes_none) auto
  have datav: "s = ds ! i" if "i < d" "shards ! i = Some s" for i s using val [of i s] that rs(1) by (simp add: encoded_def)
  show ?thesis
  proof (cases "present_count (take d shards) = d")
    case True
    have "take d shards ! i = map Some ds ! i" if "i < d" for i
    proof -
      have "take d shards ! i \<noteq> None" using present_count_full [of "take d shards" i] True len that by simp
      then show ?thesis using datav [OF that] that ds len by auto
    qed
    then have "take d shards = map Some ds" using ds len by (intro nth_equalityI) auto
    then have "map Some ds @ drop d shards = shards" by (metis append_take_drop_id)
    then show ?thesis using True rs len scan by (simp add: reconstruct_data_def Let_def)
  next
    case False
    define valid where "valid = take d (present_from 0 shards)"
    let ?idx = "map snd valid"
    have col: "collect d 0 [] shards = valid" using collect_take [of "[]" d 0 shards] by (simp add: valid_def)
    have vmem: "r < d + p \<and> shards ! r = Some b" if "(b, r) \<in> set valid" for b r
      using that present_from_mem [of b r 0 shards] len by (auto simp: valid_def dest: in_set_takeD)
    have idx: "length ?idx = d" "distinct ?idx" "\<forall>r \<in> set ?idx. r < d + p"
      using cnt distinct_present_from [of 0 shards] vmem
      by (simp add: valid_def length_present_from, simp add: valid_def take_map [symmetric], fastforce)
    have sub: "map fst valid = map (encoded rs ds n) ?idx" using vmem val by (auto intro!: map_cong)
    obtain dec where dec: "invert (tabulate d d (\<lambda>r c. cell (rs_matrix rs) (?idx ! r) c)) = Some dec"
      using decode_exists [OF m idx] by blast
    define f where "f = (\<lambda>i. combine (mx_data dec ! i) (map fst valid) n)"
    have f: "f i = ds ! i" if "i < d" for i using decode_row [OF m rs(1) ds idx dec that] unfolding f_def sub .
    have "reconstruct_data rs shards =
        Inr (foldl (\<lambda>shards i. if shards ! i \<noteq> None then shards else shards[i := Some (f i)]) shards [0..<d])"
      unfolding reconstruct_data_def Let_def rs col scan f_def using False cnt len dec by simp
    also have "\<dots> = Inr (map (\<lambda>i. case shards ! i of None \<Rightarrow> Some (f i) | Some s \<Rightarrow> Some s) [0..<d] @ drop d shards)"
      using fill_loop [of d shards f] len by simp
    also have "map (\<lambda>i. case shards ! i of None \<Rightarrow> Some (f i) | Some s \<Rightarrow> Some s) [0..<d] = map Some ds"
      using f datav ds(1) by (intro nth_equalityI) (auto split: option.split)
    finally show ?thesis .
  qed
qed

lemma scan_sizes_empty: "present_count ss = 0 \<Longrightarrow> scan_sizes ss z = Inr z"
  by (induction ss z rule: scan_sizes.induct) (auto simp: present_count_def)

lemma survivor_sizes:
  assumes "data_shards rs = length ds" "\<forall>s \<in> set ds. length s = n" "survives (map (encoded rs ds n) is) shards"
  shows "\<forall>s. Some s \<in> set shards \<longrightarrow> length s = n"
  using assms encoded_length [OF assms(1,2)] by (force simp: survives_def in_set_conv_nth)

lemma reconstruct_too_few:
  assumes rs: "data_shards rs = d" "total_shards rs = d + p" and ds: "length ds = d" "\<forall>s \<in> set ds. length s = n"
    and sv: "survives (map (encoded rs ds n) [0..<d + p]) shards" and cnt: "present_count shards < d"
  shows "reconstruct_data rs shards = Inl (TooFewShards d (present_count shards))"
proof -
  have "length shards = d + p" using sv by (simp add: survives_def)
  moreover have "scan_sizes shards None = Inr (Some n)" if "0 < present_count shards"
    using survivor_sizes [OF _ ds(2) sv] rs(1) ds(1) that by (intro scan_sizes_none) auto
  moreover have "present_count (take d shards) < d" using present_count_le [of d shards] cnt by simp
  ultimately show ?thesis
    using rs cnt scan_sizes_empty [of shards None] by (cases "present_count shards = 0") (auto simp: reconstruct_data_def Let_def)
qed

lemma length_encode: "encode rs shards = Inr full \<Longrightarrow> length full = length shards"
proof -
  have "length (foldl (\<lambda>shards p. shards[f p := g p shards]) shards ps) = length shards" for f g and ps :: "nat list" and shards :: "bytes list"
    by (induction ps arbitrary: shards) simp_all
  then show "encode rs shards = Inr full \<Longrightarrow> ?thesis" by (auto simp: encode_def Let_def split: if_splits)
qed

text \<open>
  C13. Any \<open>d\<close> of the \<open>d + p\<close> shards are enough, and nothing less is. For every split of at most 256 shards into data
  and parity the codec can be built, and it encodes equally long data shards without touching them. After the loss of any
  shards, reconstruction gives back all data shards and leaves the parity slots as they were if at least \<open>d\<close> shards are
  left, and otherwise reports how many were needed and how many were there.\<close>

theorem any_shards_reconstruct:
  assumes "0 < d" "d + p \<le> 256" "length ds = d" "\<forall>s \<in> set ds. length s = n" "length buf = p" "\<forall>s \<in> set buf. length s = n"
  shows "\<exists>rs full. rs_new d p = Inr rs \<and> encode rs (ds @ buf) = Inr full \<and> take d full = ds \<and>
    (\<forall>shards. survives full shards \<longrightarrow>
       reconstruct_data rs shards =
         (if d \<le> present_count shards then Inr (map Some ds @ drop d shards)
          else Inl (TooFewShards d (present_count shards))))"
proof -
  obtain rs where rs: "rs_new d p = Inr rs" "data_shards rs = d" "parity_shards rs = p" "total_shards rs = d + p"
      "coding_matrix d (d + p) (rs_matrix rs)"
    using rs_new_ok [OF assms(1,2)] by blast
  let ?full = "map (encoded rs ds n) [0..<d + p]"
  have "encode rs (ds @ buf) = Inr ?full" by (rule encode_shards [OF rs(2,3,4) assms(1,3-6)])
  moreover have "take d ?full = ds" using rs(2) assms(3) by (auto simp: encoded_def take_map intro!: nth_equalityI)
  moreover have "reconstruct_data rs shards = (if d \<le> present_count shards then Inr (map Some ds @ drop d shards)
      else Inl (TooFewShards d (present_count shards)))" if sv: "survives ?full shards" for shards
    using reconstruct_ok [OF rs(5,2,4) assms(1,3,4) sv] reconstruct_too_few [OF rs(2,4) assms(3,4) sv] by simp
  ultimately show ?thesis using rs(1) by blast
qed

theorem any_shards_reconstruct_witness:
  "\<exists>rs full. rs_new 2 1 = Inr rs \<and> encode rs [[1, 2], [3, 4], [0, 0]] = Inr full \<and>
     reconstruct_data rs [None, Some [3, 4], Some (full ! 2)] = Inr [Some [1, 2], Some [3, 4], Some (full ! 2)]"
proof -
  obtain rs full where rs: "rs_new 2 1 = Inr rs" "encode rs [[1, 2], [3, 4], [0, 0]] = Inr full"
      "take 2 full = [[1, 2], [3, 4]]"
      and rec: "\<And>shards. survives full shards \<Longrightarrow> 2 \<le> present_count shards \<Longrightarrow>
        reconstruct_data rs shards = Inr (map Some [[1, 2], [3, 4]] @ drop 2 shards)"
    using any_shards_reconstruct [of 2 1 "[[1, 2], [3, 4]]" 2 "[[0, 0]]"] by auto
  have "length full = 3" using length_encode [OF rs(2)] by simp
  then have "survives full [None, Some [3, 4], Some (full ! 2)]"
    using rs(3) by (auto simp: survives_def less_Suc_eq numeral_eq_Suc nth_Cons' take_Suc_conv_app_nth)
  from rec [OF this] rs show ?thesis by (simp add: present_count_def)
qed

end
