(* ===== verification/Erasure.thy ===== *)
theory Erasure
  imports ReedSolomon "HOL-Library.While_Combinator"
begin

text \<open>
  What both sides of erasure coding share, \<^verbatim>\<open>src/erasure/mod.rs\<close>: redundancy levels and their tables, the level in the
  top byte of a span, the number of references of a node, and the layout of a node's payload. The hash of a chunk is a
  parameter.
\<close>

unbundle bit_operations_syntax

definition SPAN_SIZE :: usize where "SPAN_SIZE = 8"
definition HASH_SIZE :: usize where "HASH_SIZE = 32"
definition CHUNK_SIZE :: usize where "CHUNK_SIZE = 4096"
definition BRANCHES :: usize where "BRANCHES = 128"

section \<open>Levels\<close>

datatype level = LNone | Medium | Strong | Insane | Paranoid

definition DEFAULT_UPLOAD_LEVEL :: level where "DEFAULT_UPLOAD_LEVEL = Medium"

fun level_u8 :: "level \<Rightarrow> byte" where
  "level_u8 LNone = 0"
| "level_u8 Medium = 1"
| "level_u8 Strong = 2"
| "level_u8 Insane = 3"
| "level_u8 Paranoid = 4"

fun level_to_string :: "level \<Rightarrow> string" where
  "level_to_string LNone = ''none''"
| "level_to_string Medium = ''medium''"
| "level_to_string Strong = ''strong''"
| "level_to_string Insane = ''insane''"
| "level_to_string Paranoid = ''paranoid''"

definition from_u8 :: "byte \<Rightarrow> level option" where
  "from_u8 v =
     (if v = 0 then Some LNone else if v = 1 then Some Medium else if v = 2 then Some Strong
      else if v = 3 then Some Insane else if v = 4 then Some Paranoid else None)"

definition level_from_str :: "string \<Rightarrow> string + level" where
  "level_from_str s =
     (let t = to_ascii_lowercase (str_trim s) in
      if t = ''none'' \<or> t = ''0'' \<or> t = ''off'' then Inr LNone
      else if t = ''medium'' \<or> t = ''1'' then Inr Medium
      else if t = ''strong'' \<or> t = ''2'' then Inr Strong
      else if t = ''insane'' \<or> t = ''3'' then Inr Insane
      else if t = ''paranoid'' \<or> t = ''4'' then Inr Paranoid
      else Inl (''invalid redundancy level `'' @ t @ ''` (expected none|medium|strong|insane|paranoid or 0-4)''))"

definition MEDIUM_ET :: "(usize \<times> usize) list" where
  "MEDIUM_ET = [(95, 9), (69, 8), (47, 7), (29, 6), (15, 5), (6, 4), (2, 3), (1, 2)]"

definition STRONG_ET :: "(usize \<times> usize) list" where
  "STRONG_ET =
    [(105, 21), (96, 20), (87, 19), (78, 18), (70, 17), (62, 16), (54, 15), (47, 14), (40, 13), (33, 12),
     (27, 11), (21, 10), (16, 9), (11, 8), (7, 7), (4, 6), (2, 5), (1, 4)]"

definition INSANE_ET :: "(usize \<times> usize) list" where
  "INSANE_ET =
    [(93, 31), (88, 30), (83, 29), (78, 28), (74, 27), (69, 26), (64, 25), (60, 24), (55, 23), (51, 22),
     (46, 21), (42, 20), (38, 19), (34, 18), (30, 17), (27, 16), (23, 15), (20, 14), (17, 13), (14, 12),
     (11, 11), (9, 10), (6, 9), (4, 8), (3, 7), (2, 6), (1, 5)]"

definition PARANOID_ET :: "(usize \<times> usize) list" where
  "PARANOID_ET =
    [(37, 89), (36, 87), (35, 86), (34, 84), (33, 83), (32, 81), (31, 80), (30, 78), (29, 76), (28, 75),
     (27, 73), (26, 71), (25, 70), (24, 68), (23, 66), (22, 65), (21, 63), (20, 61), (19, 59), (18, 58),
     (17, 56), (16, 54), (15, 52), (14, 50), (13, 48), (12, 47), (11, 45), (10, 43), (9, 40), (8, 38),
     (7, 36), (6, 34), (5, 31), (4, 29), (3, 26), (2, 23), (1, 19)]"

fun erasure_table :: "level \<Rightarrow> (usize \<times> usize) list" where
  "erasure_table LNone = []"
| "erasure_table Medium = MEDIUM_ET"
| "erasure_table Strong = STRONG_ET"
| "erasure_table Insane = INSANE_ET"
| "erasure_table Paranoid = PARANOID_ET"

definition parities :: "level \<Rightarrow> usize \<Rightarrow> usize" where
  "parities l shards =
     (case find (\<lambda>(s, p). shards \<ge> s) (erasure_table l) of None \<Rightarrow> 0 | Some (s, p) \<Rightarrow> p)"

definition max_shards :: "level \<Rightarrow> usize" where
  "max_shards l = BRANCHES - parities l BRANCHES"

section \<open>Spans\<close>

definition decode_span :: "bytes \<Rightarrow> level \<times> u64" where
  "decode_span sp =
     (let buf = take SPAN_SIZE sp in
      if buf ! (SPAN_SIZE - 1) \<le> 128 then (LNone, from_le_bytes buf)
      else
        let lv = (case from_u8 (buf ! (SPAN_SIZE - 1) AND 0x7f) of None \<Rightarrow> LNone | Some l \<Rightarrow> l)
        in (lv, from_le_bytes (buf[SPAN_SIZE - 1 := 0])))"

definition is_level_encoded :: "bytes \<Rightarrow> bool" where
  "is_level_encoded sp = (length sp \<ge> SPAN_SIZE \<and> sp ! (SPAN_SIZE - 1) > 128)"

text \<open>The address of a chunk in wire form; the binary Merkle tree hash of a sp and a body is a parameter.\<close>

type_synonym bmt = "u64 \<Rightarrow> bytes \<Rightarrow> bytes"

definition wire_address :: "bmt \<Rightarrow> bytes \<Rightarrow> bytes option" where
  "wire_address bmt wire =
     (if length wire < SPAN_SIZE \<or> length wire - SPAN_SIZE > CHUNK_SIZE then None
      else Some (bmt (from_le_bytes (take SPAN_SIZE wire)) (drop SPAN_SIZE wire)))"

section \<open>Nodes\<close>

text \<open>The loops multiply and add in 64 bits; \<^verbatim>\<open>None\<close> is a loop that does not end.\<close>

definition reference_count :: "u64 \<Rightarrow> level \<Rightarrow> (usize \<times> usize) option" where
  "reference_count sp l =
     (let branching = of_nat (max (max_shards l) 1) :: u64 in
      case while_option (\<lambda>(branch_size, branch_level). branch_size < sp)
             (\<lambda>(branch_size, branch_level). (branch_size * branching, branch_level + 1)) (of_nat CHUNK_SIZE :: u64, 1 :: nat) of
        None \<Rightarrow> None
      | Some (branch_size, branch_level) \<Rightarrow>
          let reference_size = ((\<lambda>r. r * branching) ^^ (branch_level - 1 - 1)) (of_nat CHUNK_SIZE :: u64) in
          (case while_option (\<lambda>(span_offset, n). span_offset < sp)
                 (\<lambda>(span_offset, n). (span_offset + reference_size, n + 1)) (reference_size, 1 :: nat) of
             None \<Rightarrow> None
           | Some (span_offset, n) \<Rightarrow> Some (n, parities l n)))"

definition chunk_addresses :: "bytes \<Rightarrow> usize \<Rightarrow> bytes list \<times> usize" where
  "chunk_addresses payload par =
     (chunks_exact HASH_SIZE payload, (length payload - par * HASH_SIZE) div HASH_SIZE)"

function trim_from :: "bytes \<Rightarrow> nat \<Rightarrow> usize option" where
  "trim_from payload l =
     (if l \<ge> HASH_SIZE then
        if take HASH_SIZE (drop (l - HASH_SIZE) payload) \<noteq> replicate HASH_SIZE 0 then Some l
        else trim_from payload (l - HASH_SIZE)
      else None)"
  by pat_completeness auto
termination by (relation "measure snd") (auto simp: HASH_SIZE_def)

definition chunk_payload_size :: "bytes \<Rightarrow> usize option" where
  "chunk_payload_size payload = trim_from payload (length payload)"


section \<open>The tables\<close>

lemmas tables = MEDIUM_ET_def STRONG_ET_def INSANE_ET_def PARANOID_ET_def BRANCHES_def

lemma max_shards_eq:
  "max_shards LNone = 128" "max_shards Medium = 119" "max_shards Strong = 107" "max_shards Insane = 97" "max_shards Paranoid = 39"
  by (simp_all add: max_shards_def parities_def tables)

lemma parities_None [simp]: "parities LNone n = 0"
  by (simp add: parities_def)

lemma max_shards_bounds: "2 \<le> max_shards l \<and> max_shards l \<le> 128"
  by (cases l) (simp_all add: max_shards_eq)

lemma full_node: "l \<noteq> LNone \<Longrightarrow> max_shards l + parities l (max_shards l) = 128"
  by (cases l) (simp_all add: max_shards_eq, simp_all add: parities_def tables)

lemma parities_le: "parities l n \<le> 89"
  by (cases l) (auto simp: parities_def tables)

text \<open>A node that is not empty has parities, and fits.\<close>

lemma node_fits: "1 \<le> n \<Longrightarrow> n \<le> max_shards l \<Longrightarrow> l \<noteq> LNone \<Longrightarrow> 1 \<le> parities l n \<and> n + parities l n \<le> 128"
  by (cases l) (auto simp: max_shards_eq parities_def tables split: if_splits)

lemma level_str_roundtrip: "level_from_str (level_to_string l) = Inr l"
  by (cases l) (simp_all add: level_from_str_def str_trim_def is_space_def to_ascii_lowercase_def)

lemma from_u8_level: "from_u8 (level_u8 l) = Some l"
  by (cases l) (simp_all add: from_u8_def)

section \<open>Counting references\<close>

lemma while_option_steps:
  assumes "\<And>i. i < k \<Longrightarrow> b ((c ^^ i) s)" "\<not> b ((c ^^ k) s)"
  shows "while_option b c s = Some ((c ^^ k) s)"
  using assms
proof (induction k arbitrary: s)
  case 0
  then show ?case by (subst while_option_unfold) simp
next
  case (Suc k)
  have "b s" using Suc.prems(1) [of 0] by simp
  moreover have "while_option b c (c s) = Some ((c ^^ k) (c s))"
  proof (rule Suc.IH)
    show "b ((c ^^ i) (c s))" if "i < k" for i using Suc.prems(1) [of "Suc i"] that by (simp add: funpow_swap1)
    show "\<not> b ((c ^^ k) (c s))" using Suc.prems(2) by (simp add: funpow_swap1)
  qed
  ultimately show ?case by (subst while_option_unfold) (simp add: funpow_swap1)
qed

lemma unat_of_nat_small: "n < 2 ^ 64 \<Longrightarrow> unat (of_nat n :: u64) = n"
  by (simp add: unat_of_nat)

lemma branch_steps:
  "((\<lambda>(s, b). (s * of_nat m, b + 1)) ^^ i) (of_nat c :: u64, j) = (of_nat (c * m ^ i), j + i)"
  by (induction i) (simp_all add: algebra_simps)

lemma reference_steps: "((\<lambda>r. r * of_nat m) ^^ i) (of_nat c :: u64) = of_nat (c * m ^ i)"
  by (induction i) (simp_all add: algebra_simps)

lemma offset_steps:
  "((\<lambda>(t, n). (t + of_nat r, n + 1)) ^^ i) (of_nat r :: u64, 1) = (of_nat ((i + 1) * r), i + 1)"
  by (induction i) (simp_all add: algebra_simps)

lemma word_less_of_nat: "n < 2 ^ 64 \<Longrightarrow> (of_nat n :: u64) < sp \<longleftrightarrow> n < unat sp"
  by (simp only: word_less_nat_alt unat_of_nat_small)

lemma branch_loop:
  assumes "\<And>i. i < k \<Longrightarrow> c * m ^ i < unat sp" "unat sp \<le> c * m ^ k" "c * m ^ k < 2 ^ 64"
  shows "while_option (\<lambda>(s, b). s < sp) (\<lambda>(s, b). (s * of_nat m, b + 1)) (of_nat c :: u64, 1 :: nat)
      = Some (of_nat (c * m ^ k), 1 + k)"
proof -
  have "while_option (\<lambda>(s, b). s < sp) (\<lambda>(s, b). (s * of_nat m, b + 1)) (of_nat c :: u64, 1 :: nat)
      = Some (((\<lambda>(s, b). (s * of_nat m, b + 1)) ^^ k) (of_nat c :: u64, 1 :: nat))"
  proof (rule while_option_steps)
    fix i assume "i < k"
    then have "c * m ^ i < unat sp" by (rule assms(1))
    moreover have "unat sp < 2 ^ 64" by (rule le_less_trans [OF assms(2,3)])
    ultimately have "(of_nat (c * m ^ i) :: u64) < sp" using word_less_of_nat less_trans by blast
    then show "case ((\<lambda>(s, b). (s * of_nat m, b + 1)) ^^ i) (of_nat c :: u64, 1 :: nat) of (s, b) \<Rightarrow> s < sp"
      by (simp only: branch_steps prod.case)
  next
    show "\<not> (case ((\<lambda>(s, b). (s * of_nat m, b + 1)) ^^ k) (of_nat c :: u64, 1 :: nat) of (s, b) \<Rightarrow> s < sp)"
      using assms(2) by (simp only: branch_steps prod.case word_less_of_nat [OF assms(3)] not_less)
  qed
  then show ?thesis by (simp only: branch_steps)
qed

lemma offset_loop:
  assumes "1 \<le> e" "e \<noteq> 1 \<longrightarrow> (e - 1) * r < unat sp" "unat sp \<le> e * r" "e * r < 2 ^ 64"
  shows "while_option (\<lambda>(t, n). t < sp) (\<lambda>(t, n). (t + of_nat r, n + 1)) (of_nat r :: u64, 1 :: nat)
      = Some (of_nat (e * r), e)"
proof -
  have e: "e - 1 + 1 = e" using assms(1) by simp
  have "while_option (\<lambda>(t, n). t < sp) (\<lambda>(t, n). (t + of_nat r, n + 1)) (of_nat r :: u64, 1 :: nat)
      = Some (((\<lambda>(t, n). (t + of_nat r, n + 1)) ^^ (e - 1)) (of_nat r :: u64, 1 :: nat))"
  proof (rule while_option_steps)
    fix i assume i: "i < e - 1"
    then have "(i + 1) * r \<le> (e - 1) * r" by (intro mult_right_mono) auto
    moreover have "(e - 1) * r < unat sp" using assms(2) i by simp
    ultimately have "(i + 1) * r < unat sp" by (rule le_less_trans)
    moreover have "unat sp < 2 ^ 64" by (rule le_less_trans [OF assms(3,4)])
    ultimately have "(of_nat ((i + 1) * r) :: u64) < sp" using word_less_of_nat less_trans by blast
    then show "case ((\<lambda>(t, n). (t + of_nat r, n + 1)) ^^ i) (of_nat r :: u64, 1 :: nat) of (t, n) \<Rightarrow> t < sp"
      by (simp only: offset_steps prod.case)
  next
    show "\<not> (case ((\<lambda>(t, n). (t + of_nat r, n + 1)) ^^ (e - 1)) (of_nat r :: u64, 1 :: nat) of (t, n) \<Rightarrow> t < sp)"
      using assms(3) by (simp only: offset_steps prod.case e word_less_of_nat [OF assms(4)] not_less)
  qed
  then show ?thesis by (simp only: offset_steps e)
qed

text \<open>
  A span that fits \<open>e\<close> references of the \<open>k\<close>-th level below but not one fewer, and more than one of them unless it fits
  a chunk, is counted as \<open>e\<close> references.\<close>

lemma reference_count_eq:
  assumes m: "m = max_shards l" and e: "1 \<le> e" "e \<le> m" and k: "k = 0 \<longrightarrow> e = 1"
    and lo: "e \<noteq> 1 \<longrightarrow> (e - 1) * (4096 * m ^ (k - 1)) < unat sp" and hi: "unat sp \<le> e * (4096 * m ^ (k - 1))"
    and big: "k \<noteq> 0 \<longrightarrow> 4096 * m ^ (k - 1) < unat sp" and small: "4096 * m ^ k < 2 ^ 64"
  shows "reference_count sp l = Some (e, parities l e)"
proof -
  have m2: "2 \<le> m" using m max_shards_bounds by simp
  define r where "r = 4096 * m ^ (k - 1)"
  have er: "e * r \<le> 4096 * m ^ k"
  proof (cases "k = 0")
    case True
    then show ?thesis using k by (simp add: r_def)
  next
    case False
    have "e * r \<le> m * r" using e by (intro mult_right_mono) auto
    also have "m * r = 4096 * m ^ k" using False by (cases k) (simp_all add: r_def)
    finally show ?thesis .
  qed
  have "4096 * m ^ i < unat sp" if "i < k" for i
  proof -
    have "m ^ i \<le> m ^ (k - 1)" using that m2 by (intro power_increasing) auto
    then have "4096 * m ^ i \<le> 4096 * m ^ (k - 1)" by simp
    then show ?thesis using big that by simp
  qed
  then have w1: "while_option (\<lambda>(s, b). s < sp) (\<lambda>(s, b). (s * of_nat m, b + 1)) (of_nat 4096 :: u64, 1 :: nat)
      = Some (of_nat (4096 * m ^ k), 1 + k)"
    using order_trans [OF hi [folded r_def] er] small by (rule branch_loop)
  have w2: "while_option (\<lambda>(t, n). t < sp) (\<lambda>(t, n). (t + of_nat r, n + 1)) (of_nat r :: u64, 1 :: nat) = Some (of_nat (e * r), e)"
    using e(1) lo [folded r_def] hi [folded r_def] le_less_trans [OF er small] by (rule offset_loop)
  have mx: "max (max_shards l) 1 = m" using m2 m by simp
  have kk: "1 + k - 1 - 1 = k - 1" by simp
  show ?thesis
    unfolding reference_count_def Let_def CHUNK_SIZE_def mx w1 option.case prod.case kk reference_steps r_def [symmetric] w2 ..
qed



section \<open>Reading spans and nodes back\<close>

lemma take_nat_le: "take 8 (nat_le 8 n @ rest) = nat_le 8 n"
  by simp

lemma nat_le_snoc: "nat_le (Suc k) n = nat_le k n @ [of_nat (n div 256 ^ k)]"
  by (induction k arbitrary: n) (simp_all add: div_mult2_eq)

lemma decode_span_plain:
  assumes "n < 2 ^ 56"
  shows "decode_span (nat_le 8 n @ rest) = (LNone, of_nat n)"
proof -
  have "nat_le (Suc 7) n = nat_le 7 n @ [0]" unfolding nat_le_snoc using assms by simp
  then have "nat_le 8 n = nat_le 7 n @ [0]" by (simp only: Suc_numeral semiring_norm)
  then have "nat_le 8 n ! 7 = 0" by (simp add: nth_append)
  moreover have "le_nat (nat_le 8 n) = n" using assms by (simp add: le_nat_nat_le)
  ultimately show ?thesis by (simp add: decode_span_def SPAN_SIZE_def Let_def from_le_bytes_def)
qed

lemma level_byte: "l \<noteq> LNone \<Longrightarrow> \<not> level_u8 l OR 0x80 \<le> 128 \<and> (level_u8 l OR 0x80) AND 0x7f = level_u8 l"
  by (cases l) simp_all

lemma decode_span_level:
  assumes "n < 2 ^ 56" "l \<noteq> LNone"
  shows "decode_span (nat_le 7 n @ [level_u8 l OR 0x80] @ rest) = (l, of_nat n)"
proof -
  have t: "take 8 (nat_le 7 n @ [level_u8 l OR 0x80] @ rest) = nat_le 7 n @ [level_u8 l OR 0x80]" by simp
  have "le_nat (nat_le 7 n @ [0]) = n" using assms by (simp add: le_nat_append le_nat_nat_le)
  then show ?thesis
    using level_byte [OF assms(2)] unfolding decode_span_def SPAN_SIZE_def t Let_def
    by (simp add: nth_append list_update_append from_le_bytes_def from_u8_level)
qed

declare trim_from.simps [simp del]

lemma trim_zeros:
  assumes "ref \<noteq> replicate 32 0" "length ref = 32" "y \<le> z"
  shows "trim_from (pre @ ref @ replicate (32 * z) 0) (length pre + 32 + 32 * y) = Some (length pre + 32)"
  using assms(3)
proof (induction y)
  case 0
  have "take 32 (drop (length pre) (pre @ ref @ replicate (32 * z) 0)) = ref" using assms by simp
  then show ?case using assms by (subst trim_from.simps) (simp add: HASH_SIZE_def)
next
  case (Suc y)
  have "take 32 (drop (length pre + 32 + 32 * y) (pre @ ref @ replicate (32 * z) 0)) = replicate 32 0"
    using Suc.prems assms by simp
  then show ?case using Suc by (subst trim_from.simps) (simp add: HASH_SIZE_def add_ac)
qed

lemma length_concat_refs: "\<forall>r \<in> set refs. length r = 32 \<Longrightarrow> length (concat refs) = 32 * length (refs :: bytes list)"
  by (induction refs) auto

lemma payload_size_refs:
  assumes "refs \<noteq> []" "\<forall>r \<in> set refs. length r = 32" "last refs \<noteq> replicate 32 0"
  shows "chunk_payload_size (concat refs @ replicate (32 * z) 0) = Some (32 * length refs)"
proof -
  let ?pre = "concat (butlast refs)"
  have c: "concat refs = ?pre @ last refs" using assms(1) by (metis append_butlast_last_id concat_append concat.simps append_Nil2)
  have len: "length ?pre = 32 * (length refs - 1)" using assms(2) by (subst length_concat_refs) (auto dest: in_set_butlastD)
  have "length (last refs) = 32" using assms by simp
  then have "trim_from (?pre @ last refs @ replicate (32 * z) 0) (length ?pre + 32 + 32 * z) = Some (length ?pre + 32)"
    using assms(3) by (intro trim_zeros) auto
  moreover have "length (concat refs @ replicate (32 * z) 0) = length ?pre + 32 + 32 * z" using c \<open>length (last refs) = 32\<close> by simp
  ultimately have "chunk_payload_size (concat refs @ replicate (32 * z) 0) = Some (length ?pre + 32)"
    unfolding chunk_payload_size_def c by (simp add: add.assoc)
  then show ?thesis using len assms(1) by (cases refs) simp_all
qed

lemma chunk_addresses_refs:
  assumes "\<forall>r \<in> set refs. length r = 32"
  shows "chunk_addresses (concat refs) p = (refs, length refs - p)"
  using assms chunks_exact_concat [of 32 refs] length_concat_refs [OF assms]
  by (simp add: chunk_addresses_def HASH_SIZE_def flip: diff_mult_distrib2)

end
