(* ===== verification/Joiner.thy ===== *)
theory Joiner
  imports Erasure
begin

text \<open>
  Reading an erasure-coded object back, \<^verbatim>\<open>src/erasure/joiner.rs\<close>: fetching the children of a node with a bounded number
  of requests in flight, reconstructing the missing ones, and walking the tree. The chunk source and the order in which
  its answers arrive are parameters.
\<close>

unbundle bit_operations_syntax

section \<open>Chunks\<close>

datatype erasure_error =
    Fetch string
  | Malformed string
  | RsError rs_error
  | Unrecoverable usize usize

record decoded_chunk =
  dc_span :: u64
  dc_data :: bytes

definition from_wire :: "bytes \<Rightarrow> erasure_error + decoded_chunk" where
  "from_wire wire =
     (if length wire < SPAN_SIZE then Inl (Malformed ''chunk shorter than its span'')
      else Inr \<lparr>dc_span = from_le_bytes (take SPAN_SIZE wire), dc_data = drop SPAN_SIZE wire\<rparr>)"

definition level_and_len :: "decoded_chunk \<Rightarrow> level \<times> u64" where
  "level_and_len d = decode_span (to_le_bytes 8 (dc_span d))"

definition to_wire_padded :: "decoded_chunk \<Rightarrow> usize \<Rightarrow> bytes" where
  "to_wire_padded d sz =
     (let wire = to_le_bytes 8 (dc_span d) @ dc_data d
      in if length wire < sz then wire @ replicate (sz - length wire) 0 else take sz wire)"

definition decode_wire :: "bytes \<Rightarrow> erasure_error + decoded_chunk" where
  "decode_wire wire =
     (if length wire < SPAN_SIZE then Inl (Malformed ''reconstructed shard too short'')
      else
        let span_bytes = take SPAN_SIZE wire;
            real_len = snd (decode_span span_bytes);
            body = drop SPAN_SIZE wire;
            payload_len = (if unat real_len \<le> CHUNK_SIZE then min (unat real_len) (length body) else length body)
        in Inr \<lparr>dc_span = from_le_bytes span_bytes, dc_data = take payload_len body\<rparr>)"

section \<open>The children of a node\<close>

text \<open>
  A chunk source answers an address with wire bytes or an error. The order in which requests in flight complete is
  chosen by a parameter, which picks one of them each time.\<close>

type_synonym wire_get = "bytes \<Rightarrow> string + bytes"
type_synonym pick = "usize list \<Rightarrow> nat"

definition take_fut :: "pick \<Rightarrow> usize list \<Rightarrow> usize \<times> usize list" where
  "take_fut pick futs = (let k = pick futs mod length futs in (futs ! k, take k futs @ drop (Suc k) futs))"

lemma length_take_fut: "futs \<noteq> [] \<Longrightarrow> length (snd (take_fut pick futs)) = length futs - 1"
proof -
  assume "futs \<noteq> []"
  then have "pick futs mod length futs < length futs" by simp
  then show ?thesis by (simp add: take_fut_def Let_def)
qed

definition refill :: "usize \<Rightarrow> usize \<Rightarrow> usize list \<Rightarrow> usize \<times> usize list" where
  "refill limit nxt futs = (if nxt < limit then (nxt + 1, futs @ [nxt]) else (nxt, futs))"

lemma refill_less: "2 * (limit - fst (refill limit nxt futs)) + length (snd (refill limit nxt futs)) \<le> 2 * (limit - nxt) + length futs"
  by (auto simp: refill_def Suc_diff_le)

function plain_loop :: "wire_get \<Rightarrow> pick \<Rightarrow> bytes list \<Rightarrow> usize \<Rightarrow> usize \<Rightarrow> usize list \<Rightarrow> decoded_chunk option list
    \<Rightarrow> erasure_error + decoded_chunk option list" where
  "plain_loop get pick addrs shard_cnt nxt futs slots =
     (if futs = [] then Inr slots
      else
        let i = fst (take_fut pick futs);
            r = refill shard_cnt nxt (snd (take_fut pick futs))
        in case get (addrs ! i) of
             Inl e \<Rightarrow> Inl (Fetch e)
           | Inr wire \<Rightarrow>
               (case from_wire wire of
                  Inl e \<Rightarrow> Inl e
                | Inr d \<Rightarrow> plain_loop get pick addrs shard_cnt (fst r) (snd r) (slots[i := Some d])))"
  by pat_completeness auto
termination
proof (relation "measure (\<lambda>(get, pick, addrs, shard_cnt, nxt, futs, slots). 2 * (shard_cnt - nxt) + length futs)", goal_cases)
  case (2 get pick addrs shard_cnt nxt futs slots i r wire d)
  then show ?case
    using refill_less [of shard_cnt nxt "snd (take_fut pick futs)"] length_take_fut [of futs pick]
    by (cases futs) auto
qed simp

record race =
  rc_next :: usize
  rc_futs :: "usize list"
  rc_shards :: "bytes option list"
  rc_decoded :: "decoded_chunk option list"
  rc_present :: usize
  rc_failed :: usize

definition land :: "usize \<Rightarrow> usize \<Rightarrow> decoded_chunk \<Rightarrow> race \<Rightarrow> race" where
  "land shard_cnt i d st =
     st\<lparr>rc_shards := (rc_shards st)[i := Some (to_wire_padded d (SPAN_SIZE + CHUNK_SIZE))],
        rc_decoded := (if i < shard_cnt then (rc_decoded st)[i := Some d] else rc_decoded st),
        rc_present := rc_present st + 1\<rparr>"

lemma land_frame [simp]: "rc_next (land n i d st) = rc_next st" "rc_futs (land n i d st) = rc_futs st"
    "rc_failed (land n i d st) = rc_failed st"
  by (simp_all add: land_def)

function race_loop :: "wire_get \<Rightarrow> pick \<Rightarrow> bytes list \<Rightarrow> usize \<Rightarrow> race \<Rightarrow> erasure_error + race" where
  "race_loop get pick addrs shard_cnt st =
     (if rc_futs st = [] then Inr st
      else
        let i = fst (take_fut pick (rc_futs st));
            r = refill (length addrs) (rc_next st) (snd (take_fut pick (rc_futs st)));
            st1 = st\<lparr>rc_next := fst r, rc_futs := snd r\<rparr>
        in case get (addrs ! i) of
             Inr wire \<Rightarrow>
               (case from_wire wire of
                  Inl e \<Rightarrow> Inl e
                | Inr d \<Rightarrow>
                    let st2 = land shard_cnt i d st1
                    in if rc_present st2 \<ge> shard_cnt then Inr st2 else race_loop get pick addrs shard_cnt st2)
           | Inl _ \<Rightarrow>
               let st2 = st1\<lparr>rc_failed := rc_failed st1 + 1\<rparr>
               in if length addrs - rc_failed st2 < shard_cnt then Inr st2
                  else race_loop get pick addrs shard_cnt st2)"
  by pat_completeness auto
termination
proof (relation "measure (\<lambda>(get, pick, addrs, shard_cnt, st). 2 * (length addrs - rc_next st) + length (rc_futs st))", goal_cases)
  case (2 get pick addrs shard_cnt st)
  then show ?case
    using refill_less [of "length addrs" "rc_next st" "snd (take_fut pick (rc_futs st))"] length_take_fut [of "rc_futs st" pick]
    by (cases "rc_futs st") auto
next
  case (3 get pick addrs shard_cnt st)
  then show ?case
    using refill_less [of "length addrs" "rc_next st" "snd (take_fut pick (rc_futs st))"] length_take_fut [of "rc_futs st" pick]
    by (cases "rc_futs st") auto
qed simp

declare plain_loop.simps [simp del] race_loop.simps [simp del]

definition clamp :: "nat \<Rightarrow> nat \<Rightarrow> nat \<Rightarrow> nat" where
  "clamp x lo hi = (if x < lo then lo else if x > hi then hi else x)"

definition race_start :: "usize \<Rightarrow> usize \<Rightarrow> usize \<Rightarrow> race" where
  "race_start tot shard_cnt in_flight =
     (let window = clamp in_flight 1 tot
      in \<lparr>rc_next = window, rc_futs = [0..<window], rc_shards = replicate tot None,
          rc_decoded = replicate shard_cnt None, rc_present = 0, rc_failed = 0\<rparr>)"

text \<open>The data children in order: those fetched as they came, the others parsed from their reconstructed shard.\<close>

fun materialise :: "usize \<Rightarrow> decoded_chunk option list \<Rightarrow> bytes option list \<Rightarrow> erasure_error + decoded_chunk list" where
  "materialise i [] shards = Inr []"
| "materialise i (slot # slots) shards =
     (case (case slot of
              Some d \<Rightarrow> Inr d
            | None \<Rightarrow> (case shards ! i of
                         None \<Rightarrow> Inl (Malformed ''reconstruction left a hole'')
                       | Some wire \<Rightarrow> decode_wire wire)) of
        Inl e \<Rightarrow> Inl e
      | Inr d \<Rightarrow> (case materialise (Suc i) slots shards of Inl e \<Rightarrow> Inl e | Inr ds \<Rightarrow> Inr (d # ds)))"

definition fetch_node_children :: "wire_get \<Rightarrow> pick \<Rightarrow> bytes list \<Rightarrow> usize \<Rightarrow> usize \<Rightarrow> erasure_error + decoded_chunk list" where
  "fetch_node_children get pick addrs shard_cnt in_flight =
     (let parity_cnt = length addrs - shard_cnt in
      if parity_cnt = 0 then
        let window = clamp in_flight 1 (max shard_cnt 1) in
        case plain_loop get pick addrs shard_cnt window [0..<window] (replicate shard_cnt None) of
          Inl e \<Rightarrow> Inl e
        | Inr slots \<Rightarrow> Inr (map the slots)
      else
        case race_loop get pick addrs shard_cnt (race_start (length addrs) shard_cnt in_flight) of
          Inl e \<Rightarrow> Inl e
        | Inr st \<Rightarrow>
            if rc_present st < shard_cnt then Inl (Unrecoverable (rc_present st) shard_cnt)
            else
              let data_present = length (filter (\<lambda>d. d \<noteq> None) (rc_decoded st)) in
              if data_present = shard_cnt then Inr (map the (rc_decoded st))
              else
                case rs_new shard_cnt parity_cnt of
                  Inl e \<Rightarrow> Inl (RsError e)
                | Inr rs \<Rightarrow>
                    (case reconstruct_data rs (rc_shards st) of
                       Inl e \<Rightarrow> Inl (RsError e)
                     | Inr shards \<Rightarrow> materialise 0 (rc_decoded st) shards))"

section \<open>Walking the tree\<close>

definition node_parity :: "level \<Rightarrow> u64 \<Rightarrow> usize option" where
  "node_parity l sp = (if l = LNone then Some 0 else map_option snd (reference_count sp l))"

fun read_all :: "(decoded_chunk \<Rightarrow> bytes \<Rightarrow> (erasure_error + bytes) option) \<Rightarrow> decoded_chunk list \<Rightarrow> bytes
    \<Rightarrow> (erasure_error + bytes) option" where
  "read_all rd [] out = Some (Inr out)"
| "read_all rd (c # cs) out =
     (case rd c out of
        None \<Rightarrow> None
      | Some (Inl e) \<Rightarrow> Some (Inl e)
      | Some (Inr out') \<Rightarrow> read_all rd cs out')"

text \<open>The recursion is bounded by fuel, a bound on the depth of the tree; without enough of it the result is \<^verbatim>\<open>None\<close>.\<close>

fun read_node :: "nat \<Rightarrow> wire_get \<Rightarrow> pick \<Rightarrow> usize \<Rightarrow> bytes \<Rightarrow> u64 \<Rightarrow> usize \<Rightarrow> bytes \<Rightarrow> (erasure_error + bytes) option" where
  "read_node 0 get pick in_flight payload subtrie_size par out = None"
| "read_node (Suc fuel) get pick in_flight payload subtrie_size par out =
     (if unat subtrie_size \<le> length payload then Some (Inr (out @ payload))
      else
        case chunk_payload_size payload of
          None \<Rightarrow> Some (Inl (Malformed ''node has no children''))
        | Some payload_size \<Rightarrow>
            (case chunk_addresses (take payload_size payload) par of
               (addrs, shard_cnt) \<Rightarrow>
                 if shard_cnt = 0 \<or> shard_cnt > length addrs then Some (Inl (Malformed ''bad shard count''))
                 else
                   case fetch_node_children get pick addrs shard_cnt in_flight of
                     Inl e \<Rightarrow> Some (Inl e)
                   | Inr children \<Rightarrow>
                       read_all (\<lambda>child out.
                           case level_and_len child of
                             (child_level, child_span) \<Rightarrow>
                               (case node_parity child_level child_span of
                                  None \<Rightarrow> None
                                | Some child_parity \<Rightarrow>
                                    read_node fuel get pick in_flight (dc_data child) child_span child_parity out))
                         (take shard_cnt children) out))"

definition fetch_erasure_bytes_progress :: "nat \<Rightarrow> wire_get \<Rightarrow> pick \<Rightarrow> usize \<Rightarrow> bytes \<Rightarrow> (erasure_error + bytes) option" where
  "fetch_erasure_bytes_progress fuel get pick in_flight reference =
     (case get reference of
        Inl e \<Rightarrow> Some (Inl (Fetch e))
      | Inr root_wire \<Rightarrow>
          (case from_wire root_wire of
             Inl e \<Rightarrow> Some (Inl e)
           | Inr root_dc \<Rightarrow>
               (case level_and_len root_dc of
                  (lv, sp) \<Rightarrow>
                    (case node_parity lv sp of
                       None \<Rightarrow> None
                     | Some root_parity \<Rightarrow>
                         (case read_node fuel get pick (max in_flight 1) (dc_data root_dc) sp root_parity [] of
                            Some (Inr out) \<Rightarrow> Some (Inr (take (unat sp) out))
                          | r \<Rightarrow> r)))))"

definition DEFAULT_IN_FLIGHT :: usize where "DEFAULT_IN_FLIGHT = 24"

definition fetch_erasure_bytes :: "nat \<Rightarrow> wire_get \<Rightarrow> pick \<Rightarrow> bytes \<Rightarrow> (erasure_error + bytes) option" where
  "fetch_erasure_bytes fuel get pick reference = fetch_erasure_bytes_progress fuel get pick DEFAULT_IN_FLIGHT reference"

definition inspect_root :: "u64 \<Rightarrow> bool \<times> level \<times> u64" where
  "inspect_root raw_span =
     (let raw = to_le_bytes 8 raw_span in (is_level_encoded raw, decode_span raw))"

section \<open>What the fetch loops hold\<close>

lemma take_fut_in: "futs \<noteq> [] \<Longrightarrow> fst (take_fut pick futs) \<in> set futs"
  by (simp add: take_fut_def Let_def)

lemma take_fut_rest:
  assumes "futs \<noteq> []" "distinct futs"
  shows "distinct (snd (take_fut pick futs)) \<and> set (snd (take_fut pick futs)) = set futs - {fst (take_fut pick futs)}"
proof -
  define k where "k = pick futs mod length futs"
  have k: "k < length futs" using assms(1) by (simp add: k_def)
  have "futs = take k futs @ futs ! k # drop (Suc k) futs" using k by (rule id_take_nth_drop)
  then have "distinct (take k futs @ futs ! k # drop (Suc k) futs)" "set futs = set (take k futs @ futs ! k # drop (Suc k) futs)"
    using assms(2) by simp_all
  then show ?thesis by (auto simp: take_fut_def Let_def k_def [symmetric])
qed

text \<open>The requests that have completed: issued, and no longer in flight.\<close>

definition landed :: "usize \<Rightarrow> usize list \<Rightarrow> nat set" where
  "landed nxt futs = {i. i < nxt \<and> i \<notin> set futs}"

definition window_ok :: "usize \<Rightarrow> usize \<Rightarrow> usize list \<Rightarrow> bool" where
  "window_ok limit nxt futs =
     (distinct futs \<and> (\<forall>i \<in> set futs. i < nxt) \<and> nxt \<le> limit \<and> (futs = [] \<longrightarrow> nxt = limit))"

lemma window_start: "0 < w \<Longrightarrow> w \<le> limit \<Longrightarrow> window_ok limit w [0..<w]"
  by (simp add: window_ok_def)

lemma landed_start [simp]: "landed w [0..<w] = {}"
  by (auto simp: landed_def)

lemma landed_end: "window_ok limit nxt [] \<Longrightarrow> landed nxt [] = {..<limit}"
  by (auto simp: landed_def window_ok_def)

lemma landed_bounded: "window_ok limit nxt futs \<Longrightarrow> landed nxt futs \<subseteq> {..<limit}"
  by (auto simp: landed_def window_ok_def)

lemma finite_landed [simp]: "finite (landed nxt futs)"
  by (simp add: landed_def)

lemma window_step:
  fixes pick :: pick
  assumes "window_ok limit nxt futs" "futs \<noteq> []"
  defines "i \<equiv> fst (take_fut pick futs)"
  defines "r \<equiv> refill limit nxt (snd (take_fut pick futs))"
  shows "window_ok limit (fst r) (snd r)" "landed (fst r) (snd r) = insert i (landed nxt futs)"
    "i \<notin> landed nxt futs" "i < limit"
proof -
  note rest = take_fut_rest [OF assms(2), of pick]
  have i: "i \<in> set futs" using take_fut_in [OF assms(2)] by (simp add: i_def)
  have d: "distinct futs" using assms(1) by (simp add: window_ok_def)
  show "i \<notin> landed nxt futs" "i < limit" using i assms(1) by (auto simp: landed_def window_ok_def)
  show "window_ok limit (fst r) (snd r)"
    using rest [OF d] assms(1) by (auto simp: window_ok_def r_def refill_def less_Suc_eq)
  show "landed (fst r) (snd r) = insert i (landed nxt futs)"
    using rest [OF d] i assms(1) by (auto simp: window_ok_def r_def refill_def landed_def i_def less_Suc_eq)
qed

definition slots_hold :: "usize \<Rightarrow> nat set \<Rightarrow> (nat \<Rightarrow> 'a) \<Rightarrow> 'a option list \<Rightarrow> bool" where
  "slots_hold n D v slots = (length slots = n \<and> (\<forall>i < n. slots ! i = (if i \<in> D then Some (v i) else None)))"

lemma slots_hold_empty: "slots_hold n {} v (replicate n None)"
  by (simp add: slots_hold_def)

lemma slots_hold_insert: "slots_hold n D v slots \<Longrightarrow> slots_hold n (insert i D) v (slots[i := Some (v i)])"
  unfolding slots_hold_def by (metis insert_iff length_list_update nth_list_update_eq nth_list_update_neq)

lemma slots_hold_outside: "slots_hold n D v slots \<Longrightarrow> n \<le> i \<Longrightarrow> slots_hold n (insert i D) v slots"
  by (auto simp: slots_hold_def)

lemma slots_hold_all: "slots_hold n D v slots \<Longrightarrow> {..<n} \<subseteq> D \<Longrightarrow> slots = map (\<lambda>i. Some (v i)) [0..<n]"
  by (auto simp: slots_hold_def subset_iff intro!: nth_equalityI)

lemma slots_hold_count: "slots_hold n D v slots \<Longrightarrow> length (filter (\<lambda>s. s \<noteq> None) slots) = card ({..<n} \<inter> D)"
proof -
  assume h: "slots_hold n D v slots"
  have "length (filter (\<lambda>s. s \<noteq> None) slots) = card {i. i < length slots \<and> slots ! i \<noteq> None}"
    by (rule length_filter_conv_card)
  also have "{i. i < length slots \<and> slots ! i \<noteq> None} = {..<n} \<inter> D" using h by (auto simp: slots_hold_def split: if_splits)
  finally show ?thesis .
qed

section \<open>The loops\<close>

definition chunk_of :: "bytes \<Rightarrow> decoded_chunk" where
  "chunk_of w = \<lparr>dc_span = from_le_bytes (take SPAN_SIZE w), dc_data = drop SPAN_SIZE w\<rparr>"

lemma from_wire_ok: "SPAN_SIZE \<le> length w \<Longrightarrow> from_wire w = Inr (chunk_of w)"
  by (simp add: from_wire_def chunk_of_def)

lemma plain_loop_ok:
  "\<forall>i < n. SPAN_SIZE \<le> length (sib ! i) \<and> (get (addrs ! i) = Inr (sib ! i) \<or> isl (get (addrs ! i))) \<Longrightarrow>
    window_ok n nxt futs \<Longrightarrow> slots_hold n (landed nxt futs) (\<lambda>i. chunk_of (sib ! i)) slots \<Longrightarrow>
    plain_loop get pick addrs n nxt futs slots = Inr (map (\<lambda>i. Some (chunk_of (sib ! i))) [0..<n]) \<or>
    (\<exists>i < n. isl (get (addrs ! i))) \<and> (\<exists>e. plain_loop get pick addrs n nxt futs slots = Inl (Fetch e))"
proof (induction get pick addrs n nxt futs slots rule: plain_loop.induct)
  case (1 get pick addrs n nxt futs slots)
  show ?case
  proof (cases "futs = []")
    case True
    then have "slots = map (\<lambda>i. Some (chunk_of (sib ! i))) [0..<n]"
      using slots_hold_all [OF "1.prems"(3)] landed_end "1.prems"(2) by simp
    then show ?thesis using True by (simp add: plain_loop.simps [of _ _ _ _ _ "[]"])
  next
    case False
    let ?i = "fst (take_fut pick futs)" and ?r = "refill n nxt (snd (take_fut pick futs))"
    let ?d = "chunk_of (sib ! ?i)"
    note w = window_step [OF "1.prems"(2) False, of pick]
    have i: "from_wire (sib ! ?i) = Inr ?d" "get (addrs ! ?i) = Inr (sib ! ?i) \<or> isl (get (addrs ! ?i))"
      using "1.prems"(1) w(4) from_wire_ok by auto
    show ?thesis
    proof (cases "isl (get (addrs ! ?i))")
      case lost: True
      then obtain e where "get (addrs ! ?i) = Inl e" by (auto simp: isl_def)
      then have "plain_loop get pick addrs n nxt futs slots = Inl (Fetch e)" using False by (simp add: plain_loop.simps [of _ _ _ _ _ futs])
      then show ?thesis using lost w(4) by blast
    next
      case landed: False
      then have g: "get (addrs ! ?i) = Inr (sib ! ?i)" using i(2) by simp
      have "slots_hold n (landed (fst ?r) (snd ?r)) (\<lambda>i. chunk_of (sib ! i)) (slots[?i := Some ?d])"
        unfolding w(2) using "1.prems"(3) by (rule slots_hold_insert)
      moreover have "plain_loop get pick addrs n nxt futs slots = plain_loop get pick addrs n (fst ?r) (snd ?r) (slots[?i := Some ?d])"
        using False g i(1) by (simp add: plain_loop.simps [of _ _ _ _ _ futs] Let_def)
      ultimately show ?thesis using "1.IH" [OF False refl refl g i(1) "1.prems"(1) w(1)] by simp
    qed
  qed
qed

text \<open>
  The race over the siblings of a node. \<^verbatim>\<open>sib\<close> are their wires and \<^verbatim>\<open>served\<close> the positions the source
  answers for.\<close>

definition race_ok :: "usize \<Rightarrow> bytes list \<Rightarrow> nat set \<Rightarrow> race \<Rightarrow> bool" where
  "race_ok n sib served st =
     (let D = landed (rc_next st) (rc_futs st) in
      window_ok (length sib) (rc_next st) (rc_futs st) \<and>
      slots_hold (length sib) (D \<inter> served) (\<lambda>i. to_wire_padded (chunk_of (sib ! i)) (SPAN_SIZE + CHUNK_SIZE)) (rc_shards st) \<and>
      slots_hold n (D \<inter> served) (\<lambda>i. chunk_of (sib ! i)) (rc_decoded st) \<and>
      rc_present st = card (D \<inter> served) \<and> rc_failed st = card (D - served))"

lemma race_start_ok:
  assumes "0 < length sib"
  shows "race_ok n sib served (race_start (length sib) n in_flight)"
proof -
  have "0 < clamp in_flight 1 (length sib)" "clamp in_flight 1 (length sib) \<le> length sib" using assms by (auto simp: clamp_def Suc_le_eq)
  then show ?thesis using window_start by (simp add: race_ok_def race_start_def Let_def slots_hold_empty)
qed

lemma race_land:
  fixes pick :: pick
  assumes "race_ok n sib served st" "rc_futs st \<noteq> []" "n \<le> length sib"
  defines "i \<equiv> fst (take_fut pick (rc_futs st))"
  defines "r \<equiv> refill (length sib) (rc_next st) (snd (take_fut pick (rc_futs st)))"
  assumes "i \<in> served"
  shows "race_ok n sib served (land n i (chunk_of (sib ! i)) (st\<lparr>rc_next := fst r, rc_futs := snd r\<rparr>))"
proof -
  have w0: "window_ok (length sib) (rc_next st) (rc_futs st)" using assms(1) by (simp add: race_ok_def Let_def)
  note w = window_step [OF w0 assms(2), of pick, folded i_def r_def]
  let ?D = "landed (rc_next st) (rc_futs st)"
  have D: "insert i ?D \<inter> served = insert i (?D \<inter> served)" "insert i ?D - served = ?D - served"
    using assms(6) by auto
  have old: "slots_hold (length sib) (?D \<inter> served) (\<lambda>i. to_wire_padded (chunk_of (sib ! i)) (SPAN_SIZE + CHUNK_SIZE)) (rc_shards st)"
      "slots_hold n (?D \<inter> served) (\<lambda>i. chunk_of (sib ! i)) (rc_decoded st)"
    using assms(1) by (simp_all add: race_ok_def Let_def)
  show ?thesis
    using assms(1) w slots_hold_insert [OF old(1), of i] slots_hold_insert [OF old(2), of i] slots_hold_outside [OF old(2), of i]
    by (simp add: race_ok_def Let_def land_def w(2) D)
qed

lemma race_miss:
  fixes pick :: pick
  assumes "race_ok n sib served st" "rc_futs st \<noteq> []"
  defines "i \<equiv> fst (take_fut pick (rc_futs st))"
  defines "r \<equiv> refill (length sib) (rc_next st) (snd (take_fut pick (rc_futs st)))"
  assumes "i \<notin> served"
  shows "race_ok n sib served (st\<lparr>rc_next := fst r, rc_futs := snd r, rc_failed := rc_failed st + 1\<rparr>)"
proof -
  have w0: "window_ok (length sib) (rc_next st) (rc_futs st)" using assms(1) by (simp add: race_ok_def Let_def)
  note w = window_step [OF w0 assms(2), of pick, folded i_def r_def]
  let ?D = "landed (rc_next st) (rc_futs st)"
  have D: "insert i ?D \<inter> served = ?D \<inter> served" "insert i ?D - served = insert i (?D - served)"
    using assms(5) by auto
  show ?thesis using assms(1) w by (simp add: race_ok_def Let_def w(2) D)
qed

lemma race_enough:
  assumes "race_ok n sib served st" "served \<subseteq> {..<length sib}" "n \<le> card served"
  shows "\<not> length sib - rc_failed st < n" "rc_futs st = [] \<Longrightarrow> n \<le> rc_present st"
proof -
  let ?D = "landed (rc_next st) (rc_futs st)"
  have D: "?D \<subseteq> {..<length sib}" "rc_failed st = card (?D - served)" "rc_present st = card (?D \<inter> served)"
    using assms(1) landed_bounded by (auto simp: race_ok_def Let_def)
  have "card (?D - served) \<le> card ({..<length sib} - served)" using D(1) by (intro card_mono) auto
  also have "\<dots> = length sib - card served" using assms(2) by (simp add: card_Diff_subset finite_subset)
  finally have "rc_failed st \<le> length sib - card served" using D(2) by simp
  moreover have "card served \<le> length sib" using card_mono [OF _ assms(2)] by simp
  ultimately show "\<not> length sib - rc_failed st < n" using assms(3) by linarith
  assume "rc_futs st = []"
  then have "?D = {..<length sib}" using landed_end assms(1) by (auto simp: race_ok_def Let_def)
  then show "n \<le> rc_present st" using D(3) assms(2,3) by (simp add: Int_absorb1)
qed

lemma race_loop_ok:
  "length addrs = length sib \<Longrightarrow> n \<le> length sib \<Longrightarrow> served \<subseteq> {..<length sib} \<Longrightarrow>
   \<forall>i < length sib. SPAN_SIZE \<le> length (sib ! i) \<and> (if i \<in> served then get (addrs ! i) = Inr (sib ! i) else \<exists>e. get (addrs ! i) = Inl e) \<Longrightarrow>
   race_ok n sib served st \<Longrightarrow>
   \<exists>st'. race_loop get pick addrs n st = Inr st' \<and> race_ok n sib served st' \<and> (n \<le> card served \<longrightarrow> n \<le> rc_present st')"
proof (induction get pick addrs n st rule: race_loop.induct)
  case (1 get pick addrs n st)
  show ?case
  proof (cases "rc_futs st = []")
    case True
    then have "race_loop get pick addrs n st = Inr st" by (subst race_loop.simps) simp
    then show ?thesis using True "1.prems"(5) race_enough(2) [OF "1.prems"(5,3)] by blast
  next
    case False
    let ?i = "fst (take_fut pick (rc_futs st))" and ?r = "refill (length addrs) (rc_next st) (snd (take_fut pick (rc_futs st)))"
    let ?st1 = "st\<lparr>rc_next := fst ?r, rc_futs := snd ?r\<rparr>"
    have i: "?i < length sib" using window_step(4) [of "length sib" "rc_next st" "rc_futs st"] False "1.prems"(5) by (simp add: race_ok_def Let_def)
    show ?thesis
    proof (cases "?i \<in> served")
      case True
      let ?st2 = "land n ?i (chunk_of (sib ! ?i)) ?st1"
      have ok: "race_ok n sib served ?st2"
        using race_land [OF "1.prems"(5) False "1.prems"(2)] True "1.prems"(1) by simp
      have g: "get (addrs ! ?i) = Inr (sib ! ?i)" "from_wire (sib ! ?i) = Inr (chunk_of (sib ! ?i))"
        using "1.prems"(4) i True from_wire_ok by auto
      have step: "race_loop get pick addrs n st = (if n \<le> rc_present ?st2 then Inr ?st2 else race_loop get pick addrs n ?st2)"
        using False g by (subst race_loop.simps) (simp add: Let_def)
      show ?thesis
      proof (cases "n \<le> rc_present ?st2")
        case enough: True
        then show ?thesis unfolding step using ok by auto
      next
        case more: False
        show ?thesis unfolding step
          using "1.IH"(2) [OF False refl refl refl g(1) g(2) refl more "1.prems"(1-4) ok] more by simp
      qed
    next
      case miss: False
      let ?st2 = "?st1\<lparr>rc_failed := rc_failed ?st1 + 1\<rparr>"
      have ok: "race_ok n sib served ?st2"
        using race_miss [OF "1.prems"(5) False, of pick] miss "1.prems"(1) by simp
      obtain e where g: "get (addrs ! ?i) = Inl e" using "1.prems"(4) [rule_format, OF i] miss by (auto split: if_splits)
      have step: "race_loop get pick addrs n st = (if length addrs - rc_failed ?st2 < n then Inr ?st2 else race_loop get pick addrs n ?st2)"
        using False g by (subst race_loop.simps) (simp add: Let_def)
      show ?thesis
      proof (cases "length addrs - rc_failed ?st2 < n")
        case True
        then show ?thesis unfolding step using ok race_enough(1) [OF ok "1.prems"(3)] "1.prems"(1) by auto
      next
        case go: False
        show ?thesis unfolding step
          using "1.IH"(1) [OF False refl refl refl g refl go "1.prems"(1-4) ok] go by simp
      qed
    qed
  qed
qed

end
