(* ===== verification/ChunkTree.thy ===== *)
theory ChunkTree
  imports Joiner
begin

text \<open>
  What an erasure-coded object is: a tree whose leaves hold the data and whose inner chunks hold the references of
  their children and of the parity chunks computed over them. The joiner reads such a tree back as long as every inner
  chunk has as many of its siblings left as it has data children.
\<close>

unbundle bit_operations_syntax

section \<open>Trees of chunks\<close>

datatype ctree = CLeaf bytes | CNode "ctree list"

fun tree_data :: "ctree \<Rightarrow> bytes" where
  "tree_data (CLeaf d) = d"
| "tree_data (CNode ts) = concat (map tree_data ts)"

fun height :: "ctree \<Rightarrow> nat" where
  "height (CLeaf d) = 1"
| "height (CNode ts) = Suc (foldr max (map height ts) 0)"

abbreviation tree_len :: "ctree \<Rightarrow> nat" where
  "tree_len t \<equiv> length (tree_data t)"

abbreviation SHARD :: nat where
  "SHARD \<equiv> SPAN_SIZE + CHUNK_SIZE"

definition pad :: "bytes \<Rightarrow> bytes" where
  "pad w = w @ replicate (SHARD - length w) 0"

definition parity_wires :: "level \<Rightarrow> bytes list \<Rightarrow> bytes list" where
  "parity_wires l ws =
     (let e = length ws; p = parities l e in
      case rs_new e p of
        Inl _ \<Rightarrow> []
      | Inr rs \<Rightarrow> (case encode rs (map pad ws @ replicate p (replicate SHARD 0)) of Inl _ \<Rightarrow> [] | Inr full \<Rightarrow> drop e full))"

definition node_span :: "level \<Rightarrow> nat \<Rightarrow> bytes" where
  "node_span l n = (if l = LNone then nat_le 8 n else nat_le 7 n @ [level_u8 l OR 0x80])"

abbreviation ref_of :: "bmt \<Rightarrow> bytes \<Rightarrow> bytes" where
  "ref_of bmt w \<equiv> the (wire_address bmt w)"

fun tree_wire :: "bmt \<Rightarrow> level \<Rightarrow> ctree \<Rightarrow> bytes" where
  "tree_wire bmt l (CLeaf d) = nat_le 8 (length d) @ d"
| "tree_wire bmt l (CNode ts) =
     (let ws = map (tree_wire bmt l) ts
      in node_span l (length (concat (map tree_data ts))) @ concat (map (ref_of bmt) (ws @ parity_wires l ws)))"

definition siblings :: "bmt \<Rightarrow> level \<Rightarrow> ctree list \<Rightarrow> bytes list" where
  "siblings bmt l ts = (let ws = map (tree_wire bmt l) ts in ws @ parity_wires l ws)"

text \<open>A tree as the splitter builds it.\<close>

fun tree_ok :: "level \<Rightarrow> ctree \<Rightarrow> bool" where
  "tree_ok l (CLeaf d) = (length d \<le> CHUNK_SIZE)"
| "tree_ok l (CNode ts) =
     (2 \<le> length ts \<and> length ts \<le> max_shards l \<and> (\<forall>t \<in> set ts. tree_ok l t) \<and>
      CHUNK_SIZE < length (concat (map tree_data ts)) \<and> length (concat (map tree_data ts)) < 2 ^ 56 \<and>
      (l \<noteq> LNone \<longrightarrow> reference_count (of_nat (length (concat (map tree_data ts)))) l = Some (length ts, parities l (length ts))))"

text \<open>What the development relies on of the hash: it is a reference's size, and no chunk hashes to zero.\<close>

definition hash_ok :: "bmt \<Rightarrow> bool" where
  "hash_ok bmt = (\<forall>sp body. length (bmt sp body) = 32 \<and> bmt sp body \<noteq> replicate 32 0)"

section \<open>Parities\<close>

lemma length_pad: "length w \<le> SHARD \<Longrightarrow> length (pad w) = SHARD"
  by (simp add: pad_def)

lemma node_rs:
  assumes "1 \<le> length ws" "length ws \<le> max_shards l"
  shows "0 < length ws \<and> length ws + parities l (length ws) \<le> 256"
  using assms max_shards_bounds [of l] node_fits [of "length ws" l] by (cases "l = LNone") auto

lemma parity_wires_rs:
  assumes "1 \<le> length ws" "length ws \<le> max_shards l" "\<forall>w \<in> set ws. length w \<le> SHARD"
  shows "\<exists>rs. rs_new (length ws) (parities l (length ws)) = Inr rs \<and> data_shards rs = length ws \<and>
    total_shards rs = length ws + parities l (length ws) \<and>
    coding_matrix (length ws) (length ws + parities l (length ws)) (rs_matrix rs) \<and>
    map pad ws @ parity_wires l ws = map (encoded rs (map pad ws) SHARD) [0..<length ws + parities l (length ws)]"
proof -
  let ?e = "length ws" and ?p = "parities l (length ws)"
  obtain rs where rs: "rs_new ?e ?p = Inr rs" "data_shards rs = ?e" "parity_shards rs = ?p" "total_shards rs = ?e + ?p"
      "coding_matrix ?e (?e + ?p) (rs_matrix rs)"
    using node_rs [OF assms(1,2)] rs_new_ok by metis
  let ?full = "map (encoded rs (map pad ws) SHARD) [0..<?e + ?p]"
  have "encode rs (map pad ws @ replicate ?p (replicate SHARD 0)) = Inr ?full"
    using assms length_pad by (intro encode_shards [OF rs(2,3,4)]) auto
  then have "parity_wires l ws = drop ?e ?full" using rs(1) by (simp add: parity_wires_def Let_def)
  moreover have "take ?e ?full = map pad ws" using rs(2) by (auto simp: encoded_def take_map intro!: nth_equalityI)
  ultimately have "map pad ws @ parity_wires l ws = ?full" by (metis append_take_drop_id)
  then show ?thesis using rs by blast
qed

lemma parity_wires_sizes:
  assumes "1 \<le> length ws" "length ws \<le> max_shards l" "\<forall>w \<in> set ws. length w \<le> SHARD"
  shows "length (parity_wires l ws) = parities l (length ws) \<and> (\<forall>w \<in> set (parity_wires l ws). length w = SHARD)"
proof -
  obtain rs where rs: "data_shards rs = length ws"
      "map pad ws @ parity_wires l ws = map (encoded rs (map pad ws) SHARD) [0..<length ws + parities l (length ws)]"
    using parity_wires_rs [OF assms] by blast
  have "length (map pad ws @ parity_wires l ws) = length ws + parities l (length ws)" unfolding rs(2) by simp
  moreover have "length w = SHARD" if "w \<in> set (map pad ws @ parity_wires l ws)" for w
    using that encoded_length [of rs "map pad ws" SHARD] rs(1) length_pad assms(3) unfolding rs(2) by auto
  ultimately show ?thesis by auto
qed

section \<open>Wires\<close>

lemma length_node_span [simp]: "length (node_span l n) = 8"
  by (simp add: node_span_def)

lemma ref_of_length: "hash_ok bmt \<Longrightarrow> 8 \<le> length w \<Longrightarrow> length w \<le> SHARD \<Longrightarrow> length (ref_of bmt w) = 32 \<and> ref_of bmt w \<noteq> replicate 32 0"
  by (auto simp: wire_address_def SPAN_SIZE_def CHUNK_SIZE_def hash_ok_def)

lemma wire_sizes:
  assumes "hash_ok bmt" "tree_ok l t"
  shows "8 \<le> length (tree_wire bmt l t) \<and> length (tree_wire bmt l t) \<le> SHARD"
  using assms(2)
proof (induction t)
  case (CLeaf d)
  then show ?case by (simp add: SPAN_SIZE_def CHUNK_SIZE_def)
next
  case (CNode ts)
  let ?ws = "map (tree_wire bmt l) ts"
  have ws: "\<forall>w \<in> set ?ws. 8 \<le> length w \<and> length w \<le> SHARD" using CNode by auto
  have e: "1 \<le> length ?ws" "length ?ws \<le> max_shards l" using CNode.prems by auto
  have par: "length (parity_wires l ?ws) = parities l (length ?ws)" "\<forall>w \<in> set (parity_wires l ?ws). length w = SHARD"
    using parity_wires_sizes [OF e] ws by auto
  have "\<forall>r \<in> set (map (ref_of bmt) (?ws @ parity_wires l ?ws)). length r = 32"
    using ws par(2) ref_of_length [OF assms(1)] by (auto simp: SPAN_SIZE_def CHUNK_SIZE_def)
  then have "length (concat (map (ref_of bmt) (?ws @ parity_wires l ?ws))) = 32 * (length ts + parities l (length ts))"
    using par(1) by (subst length_concat_refs) auto
  moreover have "length ts + parities l (length ts) \<le> 128"
    using e node_fits [of "length ts" l] max_shards_bounds [of l] by (cases "l = LNone") auto
  ultimately show ?case by (simp add: Let_def SPAN_SIZE_def CHUNK_SIZE_def)
qed

lemma siblings_facts:
  assumes "hash_ok bmt" "tree_ok l (CNode ts)"
  shows "length (siblings bmt l ts) = length ts + parities l (length ts)"
    and "\<forall>w \<in> set (siblings bmt l ts). 8 \<le> length w \<and> length w \<le> SHARD \<and> length (ref_of bmt w) = 32 \<and> ref_of bmt w \<noteq> replicate 32 0"
proof -
  let ?ws = "map (tree_wire bmt l) ts"
  have ws: "\<forall>w \<in> set ?ws. 8 \<le> length w \<and> length w \<le> SHARD" using wire_sizes [OF assms(1)] assms(2) by auto
  have e: "1 \<le> length ?ws" "length ?ws \<le> max_shards l" using assms(2) by auto
  have par: "length (parity_wires l ?ws) = parities l (length ?ws)" "\<forall>w \<in> set (parity_wires l ?ws). length w = SHARD"
    using parity_wires_sizes [OF e] ws by auto
  show "length (siblings bmt l ts) = length ts + parities l (length ts)" using par(1) by (simp add: siblings_def Let_def)
  show "\<forall>w \<in> set (siblings bmt l ts). 8 \<le> length w \<and> length w \<le> SHARD \<and> length (ref_of bmt w) = 32 \<and> ref_of bmt w \<noteq> replicate 32 0"
    using ws par(2) ref_of_length [OF assms(1)] by (auto simp: siblings_def Let_def SPAN_SIZE_def CHUNK_SIZE_def)
qed

lemma tree_wire_node: "tree_wire bmt l (CNode ts) = node_span l (tree_len (CNode ts)) @ concat (map (ref_of bmt) (siblings bmt l ts))"
  by (simp add: siblings_def Let_def)

unbundle bit_operations_syntax

section \<open>Fetching the children of a node\<close>

lemma le_bytes_roundtrip: "length bs = 8 \<Longrightarrow> to_le_bytes 8 (from_le_bytes bs :: u64) = bs"
  using le_nat_bound [of bs] nat_le_le_nat [of bs] by (simp add: to_le_bytes_def from_le_bytes_def unat_of_nat)

lemma to_wire_padded_pad:
  assumes "SPAN_SIZE \<le> length w" "length w \<le> SHARD"
  shows "to_wire_padded (chunk_of w) SHARD = pad w"
proof -
  have "to_le_bytes 8 (dc_span (chunk_of w)) @ dc_data (chunk_of w) = w"
    using assms(1) le_bytes_roundtrip [of "take SPAN_SIZE w"] by (simp add: chunk_of_def SPAN_SIZE_def)
  then show ?thesis using assms(2) by (simp add: to_wire_padded_def pad_def)
qed

definition same_chunk :: "bytes \<Rightarrow> decoded_chunk \<Rightarrow> bool" where
  "same_chunk w c = (c = chunk_of w \<or> decode_wire (pad w) = Inr c)"

lemma decode_wire_pad: "SPAN_SIZE \<le> length w \<Longrightarrow> length w \<le> SHARD \<Longrightarrow> \<exists>c. decode_wire (pad w) = Inr c"
  by (simp add: decode_wire_def length_pad Let_def)

lemma materialise_ok:
  assumes "\<forall>i < length slots. slots ! i = None \<longrightarrow> shards ! (k + i) = Some (pad (ws ! i))"
    and "\<forall>i < length slots. \<forall>d. slots ! i = Some d \<longrightarrow> d = chunk_of (ws ! i)"
    and "length ws = length slots" "\<forall>w \<in> set ws. SPAN_SIZE \<le> length w \<and> length w \<le> SHARD"
  shows "\<exists>cs. materialise k slots shards = Inr cs \<and> list_all2 same_chunk ws cs"
  using assms
proof (induction k slots shards arbitrary: ws rule: materialise.induct)
  case (1 k shards)
  then show ?case by simp
next
  case (2 k slot slots shards)
  obtain w ws' where ws: "ws = w # ws'" using "2.prems"(3) by (cases ws) auto
  obtain c where c: "decode_wire (pad w) = Inr c" using decode_wire_pad "2.prems"(4) ws by auto
  obtain d where d: "(case slot of Some d \<Rightarrow> Inr d
      | None \<Rightarrow> (case shards ! k of None \<Rightarrow> Inl (Malformed ''reconstruction left a hole'') | Some wire \<Rightarrow> decode_wire wire)) = Inr d"
      "same_chunk w d"
    using "2.prems"(1) [rule_format, of 0] "2.prems"(2) [rule_format, of 0] c ws by (cases slot) (auto simp: same_chunk_def)
  have "\<exists>cs. materialise (Suc k) slots shards = Inr cs \<and> list_all2 same_chunk ws' cs"
  proof (rule "2.IH" [OF d(1)])
    show "\<forall>i < length slots. slots ! i = None \<longrightarrow> shards ! (Suc k + i) = Some (pad (ws' ! i))"
      using "2.prems"(1) ws by (auto dest: spec [of _ "Suc i" for i])
    show "\<forall>i < length slots. \<forall>d. slots ! i = Some d \<longrightarrow> d = chunk_of (ws' ! i)"
      using "2.prems"(2) ws by (auto dest: spec [of _ "Suc i" for i])
  qed (use "2.prems"(3,4) ws in auto)
  then show ?case using d ws by auto
qed

lemma same_chunk_fetched: "list_all2 same_chunk ws (map (\<lambda>i. chunk_of (ws ! i)) [0..<length ws])"
  by (simp add: list_all2_conv_all_nth same_chunk_def)

definition served :: "wire_get \<Rightarrow> bytes list \<Rightarrow> nat set" where
  "served get addrs = {i. i < length addrs \<and> \<not> isl (get (addrs ! i))}"

text \<open>An error that says chunks are missing.\<close>

definition lost :: "erasure_error \<Rightarrow> bool" where
  "lost e = (case e of Fetch _ \<Rightarrow> True | Unrecoverable _ _ \<Rightarrow> True | _ \<Rightarrow> False)"

lemma lost_simps [simp]: "lost (Fetch s)" "lost (Unrecoverable a b)"
  by (simp_all add: lost_def)

lemma fetch_plain_ok:
  assumes ws: "\<forall>w \<in> set ws. SPAN_SIZE \<le> length w" "ws \<noteq> []" and len: "length addrs = length ws"
    and get: "\<forall>i < length ws. get (addrs ! i) = Inr (ws ! i) \<or> isl (get (addrs ! i))"
  shows "(\<exists>cs. fetch_node_children get pick addrs (length ws) in_flight = Inr cs \<and> list_all2 same_chunk ws cs) \<or>
    card (served get addrs) < length ws \<and> (\<exists>e. fetch_node_children get pick addrs (length ws) in_flight = Inl e \<and> lost e)"
proof -
  let ?w = "clamp in_flight 1 (max (length ws) 1)"
  have w: "0 < ?w" "?w \<le> length ws" using ws(2) by (cases ws; simp add: clamp_def)+
  let ?run = "plain_loop get pick addrs (length ws) ?w [0..<?w] (replicate (length ws) None)"
  have "?run = Inr (map (\<lambda>i. Some (chunk_of (ws ! i))) [0..<length ws]) \<or>
      (\<exists>i < length ws. isl (get (addrs ! i))) \<and> (\<exists>e. ?run = Inl (Fetch e))"
    using ws get window_start [OF w] slots_hold_empty by (intro plain_loop_ok) auto
  moreover have "card (served get addrs) < length ws" if "\<exists>i < length ws. isl (get (addrs ! i))"
  proof -
    have "served get addrs \<subset> {..<length ws}" using that len by (auto simp: served_def)
    then show ?thesis using psubset_card_mono [of "{..<length ws}"] by simp
  qed
  ultimately show ?thesis using len same_chunk_fetched [of ws] by (auto simp: fetch_node_children_def Let_def o_def)
qed

lemma race_shards_survive:
  assumes sib: "\<forall>w \<in> set sib. SPAN_SIZE \<le> length w \<and> length w \<le> SHARD" and ok: "race_ok n sib S st"
  shows "survives (map pad sib) (rc_shards st) \<and> present_count (rc_shards st) = rc_present st"
proof -
  let ?D = "landed (rc_next st) (rc_futs st)"
  have h: "slots_hold (length sib) (?D \<inter> S) (\<lambda>i. to_wire_padded (chunk_of (sib ! i)) SHARD) (rc_shards st)"
      "rc_present st = card (?D \<inter> S)" "?D \<subseteq> {..<length sib}"
    using ok landed_bounded by (auto simp: race_ok_def Let_def)
  have "survives (map pad sib) (rc_shards st)"
    using h(1) sib to_wire_padded_pad by (auto simp: survives_def slots_hold_def)
  moreover have "{..<length sib} \<inter> (?D \<inter> S) = ?D \<inter> S" using h(3) by auto
  ultimately show ?thesis using slots_hold_count [OF h(1)] h(2) by (simp add: present_count_def)
qed

lemma race_outcome:
  assumes "\<forall>w \<in> set sib. SPAN_SIZE \<le> length w" "0 < length sib" "length addrs = length sib" "n \<le> length sib"
    and get: "\<forall>i < length sib. get (addrs ! i) = Inr (sib ! i) \<or> isl (get (addrs ! i))"
  shows "\<exists>st. race_loop get pick addrs n (race_start (length addrs) n in_flight) = Inr st \<and> race_ok n sib (served get addrs) st \<and>
    (n \<le> card (served get addrs) \<longrightarrow> n \<le> rc_present st)"
proof (rule race_loop_ok [OF assms(3,4)])
  show "served get addrs \<subseteq> {..<length sib}" using assms(3) by (auto simp: served_def)
  show "\<forall>i < length sib. SPAN_SIZE \<le> length (sib ! i) \<and>
      (if i \<in> served get addrs then get (addrs ! i) = Inr (sib ! i) else \<exists>e. get (addrs ! i) = Inl e)"
    using assms(1,3) get by (auto simp: served_def isl_def)
  show "race_ok n sib (served get addrs) (race_start (length addrs) n in_flight)"
    unfolding assms(3) using assms(2) by (rule race_start_ok)
qed

lemma race_decoded:
  assumes "race_ok (length ws) (ws @ ps) S st"
  shows "length (rc_decoded st) = length ws" "\<And>i d. i < length ws \<Longrightarrow> rc_decoded st ! i = Some d \<Longrightarrow> d = chunk_of (ws ! i)"
    "length (filter (\<lambda>d. d \<noteq> None) (rc_decoded st)) = length ws \<Longrightarrow> list_all2 same_chunk ws (map the (rc_decoded st))"
proof -
  have h: "slots_hold (length ws) (landed (rc_next st) (rc_futs st) \<inter> S) (\<lambda>i. chunk_of ((ws @ ps) ! i)) (rc_decoded st)"
    using assms by (simp add: race_ok_def Let_def)
  show len: "length (rc_decoded st) = length ws" using h by (simp add: slots_hold_def)
  show val: "d = chunk_of (ws ! i)" if "i < length ws" "rc_decoded st ! i = Some d" for i d
    using that h by (auto simp: slots_hold_def nth_append split: if_splits)
  assume "length (filter (\<lambda>d. d \<noteq> None) (rc_decoded st)) = length ws"
  then have "\<forall>i < length ws. rc_decoded st ! i \<noteq> None"
    using len by (metis (mono_tags, lifting) length_filter_less nth_mem less_irrefl)
  then have "map the (rc_decoded st) = map (\<lambda>i. chunk_of (ws ! i)) [0..<length ws]"
    using len val by (auto intro!: nth_equalityI)
  then show "list_all2 same_chunk ws (map the (rc_decoded st))" using same_chunk_fetched [of ws] by simp
qed

lemma race_reconstructs:
  assumes ws: "\<forall>w \<in> set ws. SPAN_SIZE \<le> length w \<and> length w \<le> SHARD" "1 \<le> length ws" "length ws \<le> max_shards l"
    and st: "race_ok (length ws) (ws @ parity_wires l ws) S st" "length ws \<le> rc_present st"
  shows "\<exists>rs shards cs. rs_new (length ws) (parities l (length ws)) = Inr rs \<and> reconstruct_data rs (rc_shards st) = Inr shards \<and>
    materialise 0 (rc_decoded st) shards = Inr cs \<and> list_all2 same_chunk ws cs"
proof -
  let ?e = "length ws" and ?p = "parities l (length ws)" and ?sib = "ws @ parity_wires l ws"
  have pw: "length (parity_wires l ws) = ?p" "\<forall>w \<in> set (parity_wires l ws). length w = SHARD"
    using parity_wires_sizes [OF ws(2,3)] ws(1) by auto
  then have sib: "\<forall>w \<in> set ?sib. SPAN_SIZE \<le> length w \<and> length w \<le> SHARD" using ws(1) by auto
  obtain rs where rs: "rs_new ?e ?p = Inr rs" "data_shards rs = ?e" "total_shards rs = ?e + ?p"
      "coding_matrix ?e (?e + ?p) (rs_matrix rs)" "map pad ws @ parity_wires l ws = map (encoded rs (map pad ws) SHARD) [0..<?e + ?p]"
    using parity_wires_rs [OF ws(2,3)] ws(1) by auto
  have "map pad (parity_wires l ws) = parity_wires l ws" using pw(2) by (auto simp: pad_def intro!: map_idI)
  then have full: "map pad ?sib = map (encoded rs (map pad ws) SHARD) [0..<?e + ?p]" using rs(5) by simp
  have surv: "survives (map (encoded rs (map pad ws) SHARD) [0..<?e + ?p]) (rc_shards st)" "?e \<le> present_count (rc_shards st)"
    using race_shards_survive [OF sib st(1)] full st(2) by auto
  have rec: "reconstruct_data rs (rc_shards st) = Inr (map Some (map pad ws) @ drop ?e (rc_shards st))"
    using ws(1,2) length_pad by (intro reconstruct_ok [OF rs(4,2,3) _ _ _ surv]) auto
  have "\<exists>cs. materialise 0 (rc_decoded st) (map Some (map pad ws) @ drop ?e (rc_shards st)) = Inr cs \<and> list_all2 same_chunk ws cs"
    using race_decoded(1,2) [OF st(1)] ws(1) by (intro materialise_ok) (auto simp: nth_append)
  then show ?thesis using rs(1) rec by blast
qed

lemma fetch_race_ok:
  assumes ws: "\<forall>w \<in> set ws. SPAN_SIZE \<le> length w \<and> length w \<le> SHARD" "1 \<le> length ws" "length ws \<le> max_shards l"
    and par: "0 < parities l (length ws)"
    and sib: "sib = ws @ parity_wires l ws" and len: "length addrs = length sib"
    and get: "\<forall>i < length sib. get (addrs ! i) = Inr (sib ! i) \<or> isl (get (addrs ! i))"
  shows "(\<exists>cs. fetch_node_children get pick addrs (length ws) in_flight = Inr cs \<and> list_all2 same_chunk ws cs) \<or>
    card (served get addrs) < length ws \<and> (\<exists>e. fetch_node_children get pick addrs (length ws) in_flight = Inl e \<and> lost e)"
proof -
  let ?e = "length ws" and ?p = "parities l (length ws)"
  have pw: "length (parity_wires l ws) = ?p" "\<forall>w \<in> set (parity_wires l ws). length w = SHARD"
    using parity_wires_sizes [OF ws(2,3)] ws(1) by auto
  then have sibw: "\<forall>w \<in> set sib. SPAN_SIZE \<le> length w" and ls: "length sib = ?e + ?p" using ws(1) sib by auto
  have "0 < length sib" "?e \<le> length sib" using ls ws(2) by linarith+
  from race_outcome [OF sibw this(1) len this(2) get]
  obtain st where st: "race_loop get pick addrs ?e (race_start (length addrs) ?e in_flight) = Inr st"
      "race_ok ?e sib (served get addrs) st" "?e \<le> card (served get addrs) \<longrightarrow> ?e \<le> rc_present st"
    by blast
  have pc: "length addrs - ?e = ?p" using len ls by simp
  show ?thesis
  proof (cases "?e \<le> rc_present st")
    case False
    then have "fetch_node_children get pick addrs ?e in_flight = Inl (Unrecoverable (rc_present st) ?e)"
      using par pc st(1) by (simp add: fetch_node_children_def)
    then show ?thesis using False st(3) by auto
  next
    case True
    show ?thesis
    proof (cases "length (filter (\<lambda>d. d \<noteq> None) (rc_decoded st)) = ?e")
      case all: True
      then have "fetch_node_children get pick addrs ?e in_flight = Inr (map the (rc_decoded st))"
        using True par pc st(1) by (simp add: fetch_node_children_def)
      then show ?thesis using race_decoded(3) [OF st(2) [unfolded sib] all] by simp
    next
      case some: False
      obtain rs shards cs where "rs_new ?e ?p = Inr rs" "reconstruct_data rs (rc_shards st) = Inr shards"
          "materialise 0 (rc_decoded st) shards = Inr cs" "list_all2 same_chunk ws cs"
        using race_reconstructs [OF ws st(2) [unfolded sib] True] by blast
      moreover from this have "fetch_node_children get pick addrs ?e in_flight = Inr cs"
        using True some par pc st(1) by (simp add: fetch_node_children_def)
      ultimately show ?thesis by blast
    qed
  qed
qed

section \<open>Reading a tree back\<close>

definition tree_level :: "level \<Rightarrow> ctree \<Rightarrow> level" where
  "tree_level l t = (case t of CLeaf _ \<Rightarrow> LNone | CNode _ \<Rightarrow> l)"

definition tree_parity :: "level \<Rightarrow> ctree \<Rightarrow> nat" where
  "tree_parity l t = (case t of CLeaf _ \<Rightarrow> 0 | CNode ts \<Rightarrow> parities l (length ts))"

definition body_of :: "bmt \<Rightarrow> level \<Rightarrow> ctree \<Rightarrow> bytes \<Rightarrow> bool" where
  "body_of bmt l t body =
     (case t of
        CLeaf d \<Rightarrow> body = d
      | CNode ts \<Rightarrow> length body \<le> CHUNK_SIZE \<and> (\<exists>z. body = concat (map (ref_of bmt) (siblings bmt l ts)) @ replicate (32 * z) 0))"

lemma tree_len_bound: "tree_ok l t \<Longrightarrow> tree_len t < 2 ^ 56"
  by (cases t) (auto simp: CHUNK_SIZE_def)

lemma wire_span:
  assumes "tree_ok l t"
  shows "decode_span (take SPAN_SIZE (tree_wire bmt l t)) = (tree_level l t, of_nat (tree_len t))"
proof (cases t)
  case (CLeaf d)
  then show ?thesis using tree_len_bound [OF assms] decode_span_plain [of "length d" "[]"]
    by (simp add: SPAN_SIZE_def tree_level_def)
next
  case (CNode ts)
  then show ?thesis
    using tree_len_bound [OF assms] decode_span_plain [of "tree_len t" "[]"] decode_span_level [of "tree_len t" l "[]"]
    by (simp add: SPAN_SIZE_def tree_level_def node_span_def Let_def)
qed

lemma node_body_length:
  assumes "hash_ok bmt" "tree_ok l (CNode ts)"
  shows "length (concat (map (ref_of bmt) (siblings bmt l ts))) = 32 * length (siblings bmt l ts)"
    "length (siblings bmt l ts) \<le> 128"
proof -
  show 1: "length (concat (map (ref_of bmt) (siblings bmt l ts))) = 32 * length (siblings bmt l ts)"
    using siblings_facts [OF assms] by (subst length_concat_refs) auto
  have "length (tree_wire bmt l (CNode ts)) \<le> SHARD" using wire_sizes [OF assms] by simp
  then show "length (siblings bmt l ts) \<le> 128"
    unfolding tree_wire_node length_append 1 by (simp add: SPAN_SIZE_def CHUNK_SIZE_def)
qed

lemma chunk_reads:
  assumes h: "hash_ok bmt" and t: "tree_ok l t" and c: "same_chunk (tree_wire bmt l t) c"
  shows "level_and_len c = (tree_level l t, of_nat (tree_len t)) \<and> body_of bmt l t (dc_data c)"
proof -
  let ?w = "tree_wire bmt l t"
  have w: "SPAN_SIZE \<le> length ?w" "length ?w \<le> SHARD" using wire_sizes [OF h t] by (auto simp: SPAN_SIZE_def)
  have t8: "take SPAN_SIZE (pad ?w) = take SPAN_SIZE ?w" using w by (simp add: pad_def)
  have unat: "unat (of_nat (tree_len t) :: u64) = tree_len t" using tree_len_bound [OF t] by (simp add: unat_of_nat)
  let ?B = "drop SPAN_SIZE (pad ?w)"
  have dec: "decode_wire (pad ?w) = Inr \<lparr>dc_span = from_le_bytes (take SPAN_SIZE ?w),
      dc_data = take (if tree_len t \<le> CHUNK_SIZE then min (tree_len t) (length ?B) else length ?B) ?B\<rparr>"
    using w by (simp add: decode_wire_def t8 wire_span [OF t] unat Let_def length_pad)
  have "dc_span c = from_le_bytes (take SPAN_SIZE ?w)"
    using c dec unfolding same_chunk_def by (auto simp: chunk_of_def)
  then have "level_and_len c = (tree_level l t, of_nat (tree_len t))"
    using wire_span [OF t] le_bytes_roundtrip [of "take SPAN_SIZE ?w"] w by (simp add: level_and_len_def SPAN_SIZE_def)
  moreover have "body_of bmt l t (dc_data c)"
  proof (cases t)
    case (CLeaf d)
    then have "take (length d) ?B = d" "length d \<le> length ?B" "drop SPAN_SIZE ?w = d" by (simp_all add: pad_def SPAN_SIZE_def)
    then show ?thesis using c dec CLeaf t unfolding same_chunk_def body_of_def by (auto simp: chunk_of_def min_def)
  next
    case (CNode ts)
    let ?b = "concat (map (ref_of bmt) (siblings bmt l ts))"
    have n: "length ?b = 32 * length (siblings bmt l ts)" "length (siblings bmt l ts) \<le> 128"
      using node_body_length h t CNode by auto
    have wb: "drop SPAN_SIZE ?w = ?b" unfolding CNode tree_wire_node by (simp add: SPAN_SIZE_def)
    have pb: "?B = ?b @ replicate (32 * (128 - length (siblings bmt l ts))) 0"
      unfolding CNode tree_wire_node pad_def using n by (simp add: SPAN_SIZE_def CHUNK_SIZE_def diff_mult_distrib2)
    have big: "\<not> tree_len t \<le> CHUNK_SIZE" using t CNode by simp
    have "dc_data c = ?b \<or> dc_data c = ?b @ replicate (32 * (128 - length (siblings bmt l ts))) 0"
      using c dec big unfolding same_chunk_def by (auto simp: chunk_of_def wb pb)
    then show ?thesis using n CNode unfolding body_of_def by (auto simp: CHUNK_SIZE_def intro: exI [of _ 0])
  qed
  ultimately show ?thesis by simp
qed

lemma node_parity_tree: "tree_ok l t \<Longrightarrow> node_parity (tree_level l t) (of_nat (tree_len t)) = Some (tree_parity l t)"
  by (cases t) (auto simp: node_parity_def tree_level_def tree_parity_def parities_def)

text \<open>
  What is asked of a chunk source: every sibling of the tree is answered with its bytes or not at all. The object can be
  read back when, for every inner chunk, at least as many siblings are answered as the chunk has data children.\<close>

fun honest :: "wire_get \<Rightarrow> bmt \<Rightarrow> level \<Rightarrow> ctree \<Rightarrow> bool" where
  "honest get bmt l (CLeaf d) = True"
| "honest get bmt l (CNode ts) =
     ((\<forall>w \<in> set (siblings bmt l ts). get (ref_of bmt w) = Inr w \<or> isl (get (ref_of bmt w))) \<and>
      (\<forall>t \<in> set ts. honest get bmt l t))"

fun enough :: "wire_get \<Rightarrow> bmt \<Rightarrow> level \<Rightarrow> ctree \<Rightarrow> bool" where
  "enough get bmt l (CLeaf d) = True"
| "enough get bmt l (CNode ts) =
     (length ts \<le> card (served get (map (ref_of bmt) (siblings bmt l ts))) \<and> (\<forall>t \<in> set ts. enough get bmt l t))"

lemma children_fetched:
  fixes pick :: pick and in_flight :: usize
  assumes h: "hash_ok bmt" and t: "tree_ok l (CNode ts)" and r: "honest get bmt l (CNode ts)"
  defines "f \<equiv> fetch_node_children get pick (map (ref_of bmt) (siblings bmt l ts)) (length ts) in_flight"
  shows "(\<exists>cs. f = Inr cs \<and> list_all2 same_chunk (map (tree_wire bmt l) ts) cs) \<or>
    \<not> enough get bmt l (CNode ts) \<and> (\<exists>e. f = Inl e \<and> lost e)"
proof -
  let ?ws = "map (tree_wire bmt l) ts" and ?sib = "siblings bmt l ts"
  let ?addrs = "map (ref_of bmt) ?sib"
  have ws: "\<forall>w \<in> set ?ws. SPAN_SIZE \<le> length w \<and> length w \<le> SHARD" using wire_sizes [OF h] t by (auto simp: SPAN_SIZE_def)
  have e: "1 \<le> length ?ws" "length ?ws \<le> max_shards l" using t by auto
  have sib: "?sib = ?ws @ parity_wires l ?ws" by (simp add: siblings_def Let_def)
  have get: "\<forall>i < length ?sib. get (?addrs ! i) = Inr (?sib ! i) \<or> isl (get (?addrs ! i))" using r by simp
  show ?thesis
  proof (cases "parities l (length ?ws) = 0")
    case True
    then have s: "?sib = ?ws" using sib parity_wires_sizes [OF e] ws by simp
    moreover have "?ws \<noteq> []" "length ?addrs = length ?ws" using t s by auto
    ultimately show ?thesis using fetch_plain_ok [of ?ws ?addrs get pick in_flight] ws get unfolding f_def by auto
  next
    case False
    then show ?thesis using fetch_race_ok [OF ws e _ sib _ get, of pick in_flight] unfolding f_def by auto
  qed
qed

lemma height_child: "t \<in> set ts \<Longrightarrow> height t \<le> foldr max (map height ts) 0"
  by (induction ts) auto

text \<open>Reading appends the data of the tree, or reports missing chunks when there are too few.\<close>

definition reads :: "wire_get \<Rightarrow> bmt \<Rightarrow> level \<Rightarrow> ctree \<Rightarrow> bytes \<Rightarrow> (erasure_error + bytes) option \<Rightarrow> bool" where
  "reads get bmt l t out r = (r = Some (Inr (out @ tree_data t)) \<or> \<not> enough get bmt l t \<and> (\<exists>e. r = Some (Inl e) \<and> lost e))"

lemma read_all_ok:
  assumes "list_all2 (\<lambda>t c. \<forall>out. reads get bmt l t out (rd c out)) ts cs"
  shows "read_all rd cs out = Some (Inr (out @ concat (map tree_data ts))) \<or>
    (\<exists>t \<in> set ts. \<not> enough get bmt l t) \<and> (\<exists>e. read_all rd cs out = Some (Inl e) \<and> lost e)"
  using assms
proof (induction arbitrary: out rule: list_all2_induct)
  case (Cons t ts c cs)
  have "reads get bmt l t out (rd c out)" using Cons.hyps(1) by blast
  then show ?case using Cons.IH [of "out @ tree_data t"] unfolding reads_def by auto
qed simp

lemma node_addresses:
  assumes h: "hash_ok bmt" and t: "tree_ok l (CNode ts)" and b: "body = concat (map (ref_of bmt) (siblings bmt l ts)) @ replicate (32 * z) 0"
  shows "chunk_payload_size body = Some (32 * length (siblings bmt l ts))"
    "chunk_addresses (take (32 * length (siblings bmt l ts)) body) (parities l (length ts)) = (map (ref_of bmt) (siblings bmt l ts), length ts)"
proof -
  let ?refs = "map (ref_of bmt) (siblings bmt l ts)"
  note f = siblings_facts [OF h t]
  have ne: "siblings bmt l ts \<noteq> []" using f(1) t by auto
  then have last: "last ?refs \<noteq> replicate 32 0" using f(2) by (simp add: last_map)
  show "chunk_payload_size body = Some (32 * length (siblings bmt l ts))"
    using payload_size_refs [of ?refs z] f(2) ne last b by auto
  have "take (32 * length (siblings bmt l ts)) body = concat ?refs" using node_body_length [OF h t] b by simp
  then show "chunk_addresses (take (32 * length (siblings bmt l ts)) body) (parities l (length ts)) = (?refs, length ts)"
    using chunk_addresses_refs [of ?refs] f by auto
qed

lemma read_node_tree:
  assumes h: "hash_ok bmt"
  shows "tree_ok l t \<Longrightarrow> honest get bmt l t \<Longrightarrow> body_of bmt l t body \<Longrightarrow> height t \<le> fuel \<Longrightarrow>
    reads get bmt l t out (read_node fuel get pick in_flight body (of_nat (tree_len t)) (tree_parity l t) out)"
proof (induction t arbitrary: body fuel out)
  case (CLeaf d)
  then show ?case using tree_len_bound [of l "CLeaf d"] by (cases fuel) (auto simp: body_of_def unat_of_nat reads_def)
next
  case (CNode ts)
  obtain f where f: "fuel = Suc f" using CNode.prems(4) by (cases fuel) auto
  obtain z where body: "body = concat (map (ref_of bmt) (siblings bmt l ts)) @ replicate (32 * z) 0" "length body \<le> CHUNK_SIZE"
    using CNode.prems(3) by (auto simp: body_of_def)
  have "unat (of_nat (tree_len (CNode ts)) :: u64) = tree_len (CNode ts)"
    using tree_len_bound [OF CNode.prems(1)] by (simp add: unat_of_nat)
  then have big: "\<not> unat (of_nat (tree_len (CNode ts)) :: u64) \<le> length body" using CNode.prems(1) body(2) by simp
  note na = node_addresses [OF h CNode.prems(1) body(1)]
  let ?rd = "\<lambda>child out. case level_and_len child of
      (child_level, child_span) \<Rightarrow>
        (case node_parity child_level child_span of
           None \<Rightarrow> None
         | Some child_parity \<Rightarrow> read_node f get pick in_flight (dc_data child) child_span child_parity out)"
  let ?fetch = "fetch_node_children get pick (map (ref_of bmt) (siblings bmt l ts)) (length ts) in_flight"
  have ne: "ts \<noteq> []" using CNode.prems(1) by auto
  then have step: "read_node fuel get pick in_flight body (of_nat (tree_len (CNode ts))) (tree_parity l (CNode ts)) out =
      (case ?fetch of Inl e \<Rightarrow> Some (Inl e) | Inr cs \<Rightarrow> read_all ?rd (take (length ts) cs) out)"
    using big na siblings_facts(1) [OF h CNode.prems(1)] unfolding f read_node.simps
    by (simp add: tree_parity_def)
  from children_fetched [OF h CNode.prems(1,2), of pick in_flight] show ?case
  proof (elim disjE exE conjE)
    fix e assume "\<not> enough get bmt l (CNode ts)" "?fetch = Inl e" "lost e"
    then show ?thesis unfolding reads_def step by simp
  next
    fix cs assume cs: "?fetch = Inr cs" "list_all2 same_chunk (map (tree_wire bmt l) ts) cs"
    have len: "length cs = length ts" using list_all2_lengthD [OF cs(2)] by simp
    have "list_all2 (\<lambda>t c. \<forall>out. reads get bmt l t out (?rd c out)) ts cs"
    proof (rule list_all2_all_nthI)
      fix i assume i: "i < length ts"
      have t: "ts ! i \<in> set ts" "tree_ok l (ts ! i)" "honest get bmt l (ts ! i)" using CNode.prems(1,2) i by auto
      have "same_chunk (tree_wire bmt l (ts ! i)) (cs ! i)" using list_all2_nthD [OF cs(2), of i] i by simp
      then have c: "level_and_len (cs ! i) = (tree_level l (ts ! i), of_nat (tree_len (ts ! i)))" "body_of bmt l (ts ! i) (dc_data (cs ! i))"
        using chunk_reads [OF h t(2)] by auto
      have "height (ts ! i) \<le> f" using height_child [OF t(1)] CNode.prems(4) f by simp
      then show "\<forall>out. reads get bmt l (ts ! i) out (?rd (cs ! i) out)"
        using CNode.IH [OF t(1,2,3) c(2)] c(1) node_parity_tree [OF t(2)] by simp
    qed (use len in simp)
    from read_all_ok [OF this, of out] show ?thesis unfolding reads_def step cs(1) using len by auto
  qed
qed

lemma root_chunk:
  assumes h: "hash_ok bmt" and t: "tree_ok l t" and g: "get reference = Inr (tree_wire bmt l t)"
  shows "fetch_erasure_bytes_progress fuel get pick in_flight reference =
    (case read_node fuel get pick (max in_flight 1) (drop SPAN_SIZE (tree_wire bmt l t)) (of_nat (tree_len t)) (tree_parity l t) [] of
       Some (Inr out) \<Rightarrow> Some (Inr (take (tree_len t) out))
     | r \<Rightarrow> r)"
    and "body_of bmt l t (drop SPAN_SIZE (tree_wire bmt l t))"
proof -
  let ?w = "tree_wire bmt l t"
  have "from_wire ?w = Inr (chunk_of ?w)" using wire_sizes [OF h t] from_wire_ok by (simp add: SPAN_SIZE_def)
  moreover have c: "level_and_len (chunk_of ?w) = (tree_level l t, of_nat (tree_len t))" "body_of bmt l t (dc_data (chunk_of ?w))"
    using chunk_reads [OF h t, of "chunk_of ?w"] by (auto simp: same_chunk_def)
  moreover have "unat (of_nat (tree_len t) :: u64) = tree_len t" using tree_len_bound [OF t] by (simp add: unat_of_nat)
  moreover have "dc_data (chunk_of ?w) = drop SPAN_SIZE ?w" by (simp add: chunk_of_def)
  ultimately show "fetch_erasure_bytes_progress fuel get pick in_flight reference =
      (case read_node fuel get pick (max in_flight 1) (drop SPAN_SIZE ?w) (of_nat (tree_len t)) (tree_parity l t) [] of
         Some (Inr out) \<Rightarrow> Some (Inr (take (tree_len t) out)) | r \<Rightarrow> r)"
      "body_of bmt l t (drop SPAN_SIZE ?w)"
    using g node_parity_tree [OF t] by (simp_all add: fetch_erasure_bytes_progress_def split: option.split sum.split)
qed

lemma join_tree:
  assumes "hash_ok bmt" "tree_ok l t" "honest get bmt l t" "get reference = Inr (tree_wire bmt l t)" "height t \<le> fuel"
  shows "reads get bmt l t [] (fetch_erasure_bytes_progress fuel get pick in_flight reference)"
proof -
  have "reads get bmt l t [] (read_node fuel get pick (max in_flight 1) (drop SPAN_SIZE (tree_wire bmt l t)) (of_nat (tree_len t)) (tree_parity l t) [])"
    using read_node_tree [OF assms(1-3) root_chunk(2) [OF assms(1,2), of get reference] assms(5)] assms(4) by simp
  then show ?thesis using root_chunk(1) [OF assms(1,2), of get reference fuel pick in_flight] assms(4) by (auto simp: reads_def)
qed

section \<open>The joiner\<close>

text \<open>C12. Reading an object back. Take any tree of chunks as the splitter builds them, a source that answers each chunk
  of it with its bytes or not at all, any bound on the requests in flight and any order in which the answers arrive. The
  joiner, given fuel for the height of the tree, returns: either exactly the data of the tree, or an error that says
  chunks are missing. It returns the data whenever every inner chunk has at least as many of its data and parity
  children answered as it has data children.\<close>

theorem join_exact:
  assumes "hash_ok bmt" "tree_ok l t" "honest get bmt l t" "get reference = Inr (tree_wire bmt l t)" "height t \<le> fuel"
  shows "fetch_erasure_bytes_progress fuel get pick in_flight reference = Some (Inr (tree_data t)) \<or>
    \<not> enough get bmt l t \<and> (\<exists>e. fetch_erasure_bytes_progress fuel get pick in_flight reference = Some (Inl e) \<and> lost e)"
  using join_tree [OF assms] by (simp add: reads_def)

definition demo_bmt :: bmt where
  "demo_bmt sp body = to_le_bytes 8 sp @ replicate 24 1"

definition demo_tree :: ctree where
  "demo_tree = CNode [CLeaf (replicate 4096 7), CLeaf [1]]"

definition demo_get :: wire_get where
  "demo_get a =
     (if a = nat_le 8 4097 @ replicate 24 1 then Inr (tree_wire demo_bmt LNone demo_tree)
      else if a = nat_le 8 4096 @ replicate 24 1 then Inr (nat_le 8 4096 @ replicate 4096 7)
      else if a = nat_le 8 1 @ replicate 24 1 then Inr (nat_le 8 1 @ [1])
      else Inl ''not found'')"

lemma demo_hash: "hash_ok demo_bmt"
proof -
  have "length (demo_bmt sp body) = 32 \<and> demo_bmt sp body \<noteq> replicate 32 0" for sp body
  proof -
    have "demo_bmt sp body ! 31 = 1" by (simp add: demo_bmt_def nth_append)
    then show ?thesis by (auto simp: demo_bmt_def)
  qed
  then show ?thesis by (simp add: hash_ok_def)
qed

lemma demo_siblings: "siblings demo_bmt LNone [CLeaf (replicate 4096 7), CLeaf [1]] = [nat_le 8 4096 @ replicate 4096 7, nat_le 8 1 @ [1]]"
proof -
  let ?ws = "[nat_le 8 4096 @ replicate 4096 (7 :: byte), nat_le 8 1 @ [1]]"
  have "length (parity_wires LNone ?ws) = parities LNone (length ?ws)"
    using parity_wires_sizes [of ?ws LNone] by (simp add: SPAN_SIZE_def CHUNK_SIZE_def max_shards_def BRANCHES_def)
  then show ?thesis by (simp add: siblings_def parities_def)
qed

lemma demo_refs:
  "ref_of demo_bmt (nat_le 8 4096 @ replicate 4096 7) = nat_le 8 4096 @ replicate 24 1"
  "ref_of demo_bmt (nat_le 8 1 @ [1]) = nat_le 8 1 @ replicate 24 1"
  by (simp_all add: wire_address_def SPAN_SIZE_def CHUNK_SIZE_def demo_bmt_def to_le_bytes_def from_le_bytes_def le_nat_nat_le unat_of_nat)

lemma nat_le_neq: "a mod 256 ^ k \<noteq> b mod 256 ^ k \<Longrightarrow> nat_le k a \<noteq> nat_le k b"
  by (metis le_nat_nat_le)

lemma demo_distinct: "nat_le 8 4096 \<noteq> nat_le 8 4097" "nat_le 8 1 \<noteq> nat_le 8 4097" "nat_le 8 1 \<noteq> nat_le 8 4096"
  by (rule nat_le_neq; simp)+

lemma demo_root: "tree_wire demo_bmt LNone demo_tree =
    nat_le 8 4097 @ (nat_le 8 4096 @ replicate 24 1) @ (nat_le 8 1 @ replicate 24 1)"
  unfolding demo_tree_def tree_wire_node demo_siblings
  by (simp add: node_span_def demo_refs [simplified] del: nat_le.simps)

theorem join_exact_witness:
  "fetch_erasure_bytes_progress 2 demo_get (\<lambda>_. 0) 24 (nat_le 8 4097 @ replicate 24 1) = Some (Inr (replicate 4096 7 @ [1]))"
proof -
  have ok: "tree_ok LNone demo_tree" by (simp add: demo_tree_def CHUNK_SIZE_def max_shards_def BRANCHES_def)
  have gets: "demo_get (nat_le 8 4096 @ replicate 24 1) = Inr (nat_le 8 4096 @ replicate 4096 7)"
      "demo_get (nat_le 8 1 @ replicate 24 1) = Inr (nat_le 8 1 @ [1])"
      "demo_get (nat_le 8 4097 @ replicate 24 1) = Inr (tree_wire demo_bmt LNone demo_tree)"
    using demo_distinct by (simp_all add: demo_get_def)
  have hon: "honest demo_get demo_bmt LNone demo_tree"
    unfolding demo_tree_def honest.simps demo_siblings by (simp only: list.set ball_simps demo_refs gets honest.simps simp_thms)
  have "served demo_get (map (ref_of demo_bmt) (siblings demo_bmt LNone [CLeaf (replicate 4096 7), CLeaf [1]])) = {0, 1}"
    unfolding demo_siblings list.map demo_refs served_def using gets by (auto simp: less_Suc_eq nth_Cons' isl_def)
  then have en: "enough demo_get demo_bmt LNone demo_tree" by (simp add: demo_tree_def)
  have "height demo_tree \<le> 2" by (simp add: demo_tree_def)
  from join_exact [OF demo_hash ok hon gets(3) this, of "\<lambda>_. 0" 24] en show ?thesis by (simp add: demo_tree_def)
qed

end
