(* ===== verification/Replicas.thy ===== *)
theory Replicas
  imports Joiner
begin

text \<open>
  Dispersed replicas of the root chunk, \<^verbatim>\<open>src/erasure/replicas.rs\<close>: the search for addresses in distinct
  neighbourhoods, building the replicas on upload, and recovering the root from them on download. The hashes and the
  chunk library that signs a replica are parameters.
\<close>

unbundle bit_operations_syntax

section \<open>Errors of the upload side\<close>

datatype encode_error =
    EncRs rs_error
  | OversizedChunk usize
  | TrieFull
  | InconsistentRefs
  | Replica string
  | OutOfBounds

section \<open>The replicator\<close>

definition REPLICAS_OWNER :: bytes where
  "REPLICAS_OWNER =
     [0xdc, 0x5b, 0x20, 0x84, 0x7f, 0x43, 0xd6, 0x79, 0x28, 0xf4, 0x9c, 0xd4, 0xf8, 0x5d, 0x69, 0x6b, 0x5a, 0x76, 0x17, 0xb5]"

definition REPLICA_COUNTS :: "usize list" where
  "REPLICA_COUNTS = [0, 2, 4, 8, 16]"

definition REPLICA_INDEX_BASES :: "usize list" where
  "REPLICA_INDEX_BASES = [0, 2, 6, 14, 0]"

definition level_usize :: "level \<Rightarrow> usize" where
  "level_usize l = unat (level_u8 l)"

record candidate =
  cd_mined :: byte
  cd_addr :: bytes

record replicator =
  rp_root :: bytes
  rp_queue :: "candidate option list"
  rp_exist :: "bool list"
  rp_sizes :: "usize list"
  rp_level :: level

type_synonym keccak = "bytes \<Rightarrow> bytes"

definition replicator_new :: "bytes \<Rightarrow> level \<Rightarrow> replicator" where
  "replicator_new reference l =
     \<lparr>rp_root = reference, rp_queue = replicate 16 None, rp_exist = replicate 30 False, rp_sizes = REPLICA_COUNTS, rp_level = l\<rparr>"

definition replicate_at :: "keccak \<Rightarrow> replicator \<Rightarrow> byte \<Rightarrow> candidate" where
  "replicate_at keccak rp i =
     (let rid = (rp_root rp)[0 := i] in \<lparr>cd_mined = i, cd_addr = keccak (rid @ REPLICAS_OWNER)\<rparr>)"

definition nh :: "level \<Rightarrow> bytes \<Rightarrow> usize" where
  "nh l a = (let d = level_usize l in REPLICA_INDEX_BASES ! (d - 1) + unat (drop_bit (8 - d) (a ! 0)))"

function add_candidate :: "candidate \<Rightarrow> level \<Rightarrow> replicator \<Rightarrow> replicator \<times> usize \<times> usize" where
  "add_candidate c l rp =
     (if l = LNone then (rp, 0, 0)
      else if rp_exist rp ! nh l (cd_addr c) then (rp, 0, 0)
      else
        let rp1 = rp\<lparr>rp_exist := (rp_exist rp)[nh l (cd_addr c) := True]\<rparr>;
            weaker = (case from_u8 (level_u8 l - 1) of Some w \<Rightarrow> w | None \<Rightarrow> LNone)
        in case add_candidate c weaker rp1 of
             (rp2, placed, slot) \<Rightarrow>
               if placed = 0 then
                 let d = level_usize l - 1;
                     slot = rp_sizes rp2 ! d;
                     rp3 = rp2\<lparr>rp_sizes := (rp_sizes rp2)[d := slot + 1]\<rparr>;
                     rp4 = (if slot < length (rp_queue rp3) then rp3\<lparr>rp_queue := (rp_queue rp3)[slot := Some c]\<rparr> else rp3)
                 in (rp4, REPLICA_COUNTS ! level_usize l, slot)
               else (rp2, placed, slot))"
  by pat_completeness auto
termination
proof (relation "measure (\<lambda>(c, l, rp). level_usize l)", goal_cases)
  case (2 c l rp rp1 weaker)
  then show ?case by (cases l) (simp_all add: level_usize_def from_u8_def)
qed simp

declare add_candidate.simps [simp del]

text \<open>The filled slots up to the first hole, and how far the scan went.\<close>

fun flush_from :: "candidate option list \<Rightarrow> usize \<Rightarrow> usize \<Rightarrow> candidate list \<times> usize" where
  "flush_from [] idx advanced = ([], advanced)"
| "flush_from (slot # slots) idx advanced =
     (case slot of
        Some c \<Rightarrow> (case flush_from slots (Suc idx) idx of (cs, a) \<Rightarrow> (c # cs, a))
      | None \<Rightarrow> ([], idx))"

function run_loop :: "keccak \<Rightarrow> usize \<Rightarrow> nat \<Rightarrow> usize \<Rightarrow> candidate list \<Rightarrow> replicator \<Rightarrow> candidate list" where
  "run_loop keccak want i n out rp =
     (if length out < want \<and> i < 255 then
        case add_candidate (replicate_at keccak rp (of_nat i)) (rp_level rp) rp of
          (rp', placed, _) \<Rightarrow>
            if placed = 0 then run_loop keccak want (i + 1) n out rp'
            else
              case flush_from (drop n (rp_queue rp')) 0 0 of
                (cs, advanced) \<Rightarrow> run_loop keccak want (i + 1) (n + advanced) (out @ cs) rp'
      else out)"
  by pat_completeness auto
termination by (relation "measure (\<lambda>(keccak, want, i, n, out, rp). 255 - i)") auto

declare run_loop.simps [simp del]

definition replicator_run :: "keccak \<Rightarrow> replicator \<Rightarrow> candidate list" where
  "replicator_run keccak rp =
     (let want = REPLICA_COUNTS ! level_usize (rp_level rp) in take want (run_loop keccak want 0 0 [] rp))"

definition DEFAULT_DOWNLOAD_LEVEL :: level where
  "DEFAULT_DOWNLOAD_LEVEL = Paranoid"

definition replica_addresses :: "keccak \<Rightarrow> bytes \<Rightarrow> level \<Rightarrow> bytes list" where
  "replica_addresses keccak reference l =
     (if l = LNone then [] else map cd_addr (replicator_run keccak (replicator_new reference l)))"

section \<open>Recovering a root chunk\<close>

definition SOC_PREFIX :: usize where
  "SOC_PREFIX = HASH_SIZE + 65"

definition unwrap_replica :: "bmt \<Rightarrow> bytes \<Rightarrow> bytes \<Rightarrow> bytes option" where
  "unwrap_replica bmt wire reference =
     (if length wire \<le> SOC_PREFIX then None
      else
        let inner = drop SOC_PREFIX wire in
        case wire_address bmt inner of
          None \<Rightarrow> None
        | Some a \<Rightarrow> if a \<noteq> reference then None else Some inner)"

definition WINDOW :: usize where
  "WINDOW = 4"

function recover_loop :: "bmt \<Rightarrow> wire_get \<Rightarrow> pick \<Rightarrow> bytes list \<Rightarrow> bytes \<Rightarrow> usize \<Rightarrow> usize list \<Rightarrow> bytes option" where
  "recover_loop bmt get pick addrs reference nxt futs =
     (if futs = [] then None
      else
        let i = fst (take_fut pick futs);
            r = refill (length addrs) nxt (snd (take_fut pick futs))
        in case get (addrs ! i) of
             Inl _ \<Rightarrow> recover_loop bmt get pick addrs reference (fst r) (snd r)
           | Inr wire \<Rightarrow>
               (case unwrap_replica bmt wire reference of
                  Some inner \<Rightarrow> Some inner
                | None \<Rightarrow> recover_loop bmt get pick addrs reference (fst r) (snd r)))"
  by pat_completeness auto
termination
proof (relation "measure (\<lambda>(bmt, get, pick, addrs, reference, nxt, futs). 2 * (length addrs - nxt) + length futs)", goal_cases)
  case (2 bmt get pick addrs reference nxt futs)
  then show ?case
    using refill_less [of "length addrs" nxt "snd (take_fut pick futs)"] length_take_fut [of futs pick] by (cases futs) (auto simp: case_prod_beta)
next
  case (3 bmt get pick addrs reference nxt futs)
  then show ?case
    using refill_less [of "length addrs" nxt "snd (take_fut pick futs)"] length_take_fut [of futs pick] by (cases futs) (auto simp: case_prod_beta)
qed simp

declare recover_loop.simps [simp del]

definition recover_root :: "keccak \<Rightarrow> bmt \<Rightarrow> wire_get \<Rightarrow> pick \<Rightarrow> bytes \<Rightarrow> level \<Rightarrow> bytes option" where
  "recover_root keccak bmt get pick reference l =
     (let addrs = replica_addresses keccak reference l in
      if addrs = [] then None
      else
        let window = min WINDOW (length addrs)
        in recover_loop bmt get pick addrs reference window [0..<window])"

section \<open>Building the replicas\<close>

text \<open>
  The chunk library: parsing a content chunk gives its address, and wrapping it as a dispersed replica under a mined
  byte gives the address and the bytes of a single-owner chunk.\<close>

record chunk_lib =
  content_chunk :: "bytes \<Rightarrow> string + bytes"
  new_dispersed_replica :: "byte \<Rightarrow> bytes \<Rightarrow> string + bytes \<times> bytes"

fun wrap_candidates :: "chunk_lib \<Rightarrow> bytes \<Rightarrow> candidate list \<Rightarrow> encode_error + (bytes \<times> bytes) list" where
  "wrap_candidates lib root_wire [] = Inr []"
| "wrap_candidates lib root_wire (c # cs) =
     (case new_dispersed_replica lib (cd_mined c) root_wire of
        Inl e \<Rightarrow> Inl (Replica e)
      | Inr (a, wire) \<Rightarrow>
          if a \<noteq> cd_addr c then Inl (Replica ''replica address does not match the mined address'')
          else (case wrap_candidates lib root_wire cs of Inl e \<Rightarrow> Inl e | Inr out \<Rightarrow> Inr ((a, wire) # out)))"

definition dispersed_replicas :: "keccak \<Rightarrow> chunk_lib \<Rightarrow> bytes \<Rightarrow> level \<Rightarrow> encode_error + (bytes \<times> bytes) list" where
  "dispersed_replicas keccak lib root_wire l =
     (if l = LNone then Inr []
      else
        case content_chunk lib root_wire of
          Inl e \<Rightarrow> Inl (Replica e)
        | Inr root_addr \<Rightarrow> wrap_candidates lib root_wire (replicator_run keccak (replicator_new root_addr l)))"

section \<open>Neighbourhoods\<close>

text \<open>The top bits of an address, and when a candidate is the first in its neighbourhood.\<close>

definition top_bits :: "nat \<Rightarrow> bytes \<Rightarrow> nat" where
  "top_bits d a = unat (a ! 0) div 2 ^ (8 - d)"

definition fresh :: "(nat \<Rightarrow> bytes) \<Rightarrow> nat \<Rightarrow> nat \<Rightarrow> bool" where
  "fresh c d i = (\<forall>j < i. top_bits d (c j) \<noteq> top_bits d (c i))"

definition placed_at :: "(nat \<Rightarrow> bytes) \<Rightarrow> nat \<Rightarrow> nat \<Rightarrow> bool" where
  "placed_at c d i = (fresh c d i \<and> (d = 1 \<or> \<not> fresh c (d - 1) i))"

definition placed :: "(nat \<Rightarrow> bytes) \<Rightarrow> nat \<Rightarrow> nat \<Rightarrow> nat list" where
  "placed c d i = filter (placed_at c d) [0..<i]"

lemma top_bits_less: "d \<le> 8 \<Longrightarrow> top_bits d a < 2 ^ d"
proof -
  assume "d \<le> 8"
  then have "unat (a ! 0) < 2 ^ d * 2 ^ (8 - d)" using unsigned_less [of "a ! 0"] by (simp flip: power_add)
  then show ?thesis by (simp add: top_bits_def less_mult_imp_div_less)
qed

lemma top_bits_coarser: "1 \<le> d \<Longrightarrow> d \<le> 8 \<Longrightarrow> top_bits (d - 1) a = top_bits d a div 2"
proof -
  assume d: "1 \<le> d" "d \<le> 8"
  then have "8 - (d - 1) = Suc (8 - d)" by simp
  then show ?thesis by (simp add: top_bits_def flip: div_mult2_eq) (simp add: mult.commute)
qed

lemma fresh_finer: "1 \<le> d \<Longrightarrow> d \<le> 8 \<Longrightarrow> fresh c (d - 1) i \<Longrightarrow> fresh c d i"
  by (metis fresh_def top_bits_coarser)

lemma fresh_finest: "d \<le> e \<Longrightarrow> e \<le> 8 \<Longrightarrow> fresh c d i \<Longrightarrow> fresh c e i"
proof (induction e rule: dec_induct)
  case (step n)
  then show ?case using fresh_finer [of "Suc n" c i] by simp
qed

lemma placed_Suc: "placed c d (Suc i) = placed c d i @ (if placed_at c d i then [i] else [])"
  by (simp add: placed_def)

lemma placed_distinct: "distinct (placed c d i)"
  by (simp add: placed_def)

text \<open>A half of a neighbourhood takes one more candidate when the neighbourhood itself is taken.\<close>

lemma placed_few:
  assumes "1 \<le> d" "d \<le> 8"
  shows "length (placed c d i) \<le> (if d = 1 then 2 else 2 ^ (d - 1))"
proof -
  let ?S = "set (placed c d i)"
  have len: "length (placed c d i) = card ?S" by (simp add: distinct_card placed_distinct)
  have at: "\<And>j. j \<in> ?S \<Longrightarrow> placed_at c d j" by (simp add: placed_def)
  show ?thesis
  proof (cases "d = 1")
    case True
    have "inj_on (\<lambda>j. top_bits d (c j)) ?S"
      by (rule inj_onI) (metis at fresh_def linorder_neqE_nat placed_at_def)
    moreover have "(\<lambda>j. top_bits d (c j)) ` ?S \<subseteq> {..<2 ^ d}" using top_bits_less assms by auto
    ultimately have "card ?S \<le> card {..<2 ^ d :: nat}" by (intro card_inj_on_le) auto
    then show ?thesis using len True by simp
  next
    case False
    have key: False if jk: "j < k" "j \<in> ?S" "k \<in> ?S" "top_bits (d - 1) (c j) = top_bits (d - 1) (c k)" for j k
    proof -
      obtain h where h: "h < j" "top_bits (d - 1) (c h) = top_bits (d - 1) (c j)"
        using at [OF jk(2)] False by (auto simp: placed_at_def fresh_def)
      have "top_bits d (c h) \<noteq> top_bits d (c j)" "top_bits d (c h) \<noteq> top_bits d (c k)" "top_bits d (c j) \<noteq> top_bits d (c k)"
        using at [OF jk(2)] at [OF jk(3)] h(1) jk(1) by (auto simp: placed_at_def fresh_def)
      moreover have "top_bits d (c h) div 2 = top_bits d (c j) div 2" "top_bits d (c j) div 2 = top_bits d (c k) div 2"
        using h(2) jk(4) top_bits_coarser [OF assms] by metis+
      ultimately show False by arith
    qed
    have "inj_on (\<lambda>j. top_bits (d - 1) (c j)) ?S" by (rule inj_onI) (metis key linorder_neqE_nat)
    moreover have "(\<lambda>j. top_bits (d - 1) (c j)) ` ?S \<subseteq> {..<2 ^ (d - 1)}" using top_bits_less [of "d - 1"] assms by auto
    ultimately have "card ?S \<le> card {..<2 ^ (d - 1) :: nat}" by (intro card_inj_on_le) auto
    then show ?thesis using len False by simp
  qed
qed

lemma nh_top_bits: "1 \<le> level_usize l \<Longrightarrow> nh l a = REPLICA_INDEX_BASES ! (level_usize l - 1) + top_bits (level_usize l) a"
  by (simp add: nh_def Let_def top_bits_def unsigned_drop_bit_eq) (simp add: drop_bit_eq_div take_bit_nat_eq_self unsigned_less [of "a ! 0", simplified])

section \<open>What the replicator holds\<close>

definition slot_base :: "nat \<Rightarrow> nat" where
  "slot_base d = REPLICA_COUNTS ! (d - 1)"

definition exist_ok :: "(nat \<Rightarrow> candidate) \<Rightarrow> nat \<Rightarrow> nat \<Rightarrow> replicator \<Rightarrow> bool" where
  "exist_ok c i d rp =
     (\<forall>b < 2 ^ d. rp_exist rp ! (REPLICA_INDEX_BASES ! (d - 1) + b) = (\<exists>j < i. top_bits d (cd_addr (c j)) = b))"

definition slots_ok :: "(nat \<Rightarrow> candidate) \<Rightarrow> nat \<Rightarrow> nat \<Rightarrow> replicator \<Rightarrow> bool" where
  "slots_ok c i d rp =
     (let S = placed (\<lambda>j. cd_addr (c j)) d i in
      rp_sizes rp ! (d - 1) = slot_base d + length S \<and>
      (\<forall>k < slot_base (Suc d) - slot_base d. rp_queue rp ! (slot_base d + k) = (if k < length S then Some (c (S ! k)) else None)))"

definition depth_ok :: "(nat \<Rightarrow> candidate) \<Rightarrow> nat \<Rightarrow> nat \<Rightarrow> replicator \<Rightarrow> bool" where
  "depth_ok c i d rp = (exist_ok c i d rp \<and> slots_ok c i d rp)"

definition lengths_ok :: "replicator \<Rightarrow> bool" where
  "lengths_ok rp = (length (rp_queue rp) = 16 \<and> length (rp_exist rp) = 30 \<and> length (rp_sizes rp) = 5)"

text \<open>What a placement at one depth leaves of the others.\<close>

definition same_depth :: "nat \<Rightarrow> replicator \<Rightarrow> replicator \<Rightarrow> bool" where
  "same_depth d rp rp' =
     ((\<forall>b < 2 ^ d. rp_exist rp' ! (REPLICA_INDEX_BASES ! (d - 1) + b) = rp_exist rp ! (REPLICA_INDEX_BASES ! (d - 1) + b)) \<and>
      rp_sizes rp' ! (d - 1) = rp_sizes rp ! (d - 1) \<and>
      (\<forall>k < slot_base (Suc d) - slot_base d. rp_queue rp' ! (slot_base d + k) = rp_queue rp ! (slot_base d + k)))"

lemma depth_ok_same:
  "same_depth d rp rp' \<Longrightarrow> exist_ok c i d rp \<Longrightarrow> exist_ok c i d rp'"
  "same_depth d rp rp' \<Longrightarrow> slots_ok c i d rp \<Longrightarrow> slots_ok c i d rp'"
  "same_depth d rp rp' \<Longrightarrow> depth_ok c i d rp \<Longrightarrow> depth_ok c i d rp'"
  by (simp_all add: same_depth_def exist_ok_def slots_ok_def depth_ok_def Let_def)

lemma same_depth_refl [simp]: "same_depth d rp rp"
  by (simp add: same_depth_def)

lemma same_depth_trans: "same_depth d a b \<Longrightarrow> same_depth d b c \<Longrightarrow> same_depth d a c"
  by (simp add: same_depth_def)

lemma depth_cases: "1 \<le> d \<Longrightarrow> d \<le> 4 \<Longrightarrow> d = 1 \<or> d = 2 \<or> d = 3 \<or> d = (4 :: nat)"
  by arith

lemmas replica_tables = REPLICA_INDEX_BASES_def REPLICA_COUNTS_def slot_base_def

lemma mark_same:
  assumes "1 \<le> d" "d \<le> 4" "1 \<le> e" "e \<le> 4" "d \<noteq> e" "b < 2 ^ e"
  shows "same_depth d rp (rp\<lparr>rp_exist := (rp_exist rp)[REPLICA_INDEX_BASES ! (e - 1) + b := True]\<rparr>)"
  using depth_cases [OF assms(1,2)] depth_cases [OF assms(3,4)] assms(5,6)
  by (elim disjE) (simp_all add: same_depth_def replica_tables nth_list_update)

definition put_slot :: "nat \<Rightarrow> candidate \<Rightarrow> replicator \<Rightarrow> replicator" where
  "put_slot e c rp =
     (let slot = rp_sizes rp ! (e - 1); rp3 = rp\<lparr>rp_sizes := (rp_sizes rp)[e - 1 := slot + 1]\<rparr>
      in if slot < length (rp_queue rp3) then rp3\<lparr>rp_queue := (rp_queue rp3)[slot := Some c]\<rparr> else rp3)"

lemma put_same:
  assumes "1 \<le> d" "d \<le> 4" "1 \<le> e" "e \<le> 4" "d \<noteq> e" "slot_base e \<le> rp_sizes rp ! (e - 1)" "rp_sizes rp ! (e - 1) < slot_base (Suc e)"
  shows "same_depth d rp (put_slot e c rp)"
  using depth_cases [OF assms(1,2)] depth_cases [OF assms(3,4)] assms(5-7)
  by (elim disjE) (simp_all add: same_depth_def replica_tables nth_list_update put_slot_def Let_def)


lemma mark_exist:
  assumes "1 \<le> d" "d \<le> 4" "lengths_ok rp" "exist_ok c i d rp"
  shows "exist_ok c (Suc i) d (rp\<lparr>rp_exist := (rp_exist rp)[REPLICA_INDEX_BASES ! (d - 1) + top_bits d (cd_addr (c i)) := True]\<rparr>)"
proof -
  have b: "top_bits d (cd_addr (c i)) < 2 ^ d" using top_bits_less assms(2) by simp
  have "REPLICA_INDEX_BASES ! (d - 1) + 2 ^ d \<le> 30"
    using depth_cases [OF assms(1,2)] by (elim disjE) (simp_all add: REPLICA_INDEX_BASES_def)
  then have "REPLICA_INDEX_BASES ! (d - 1) + top_bits d (cd_addr (c i)) < length (rp_exist rp)" using b assms(3) by (simp add: lengths_ok_def)
  then show ?thesis using assms(4) by (auto simp: exist_ok_def nth_list_update less_Suc_eq)
qed

lemma exist_skip:
  assumes "exist_ok c i d rp" "\<not> fresh (\<lambda>j. cd_addr (c j)) d i"
  shows "exist_ok c (Suc i) d rp"
  using assms by (auto simp: exist_ok_def fresh_def less_Suc_eq)

lemma slots_skip: "slots_ok c i d rp \<Longrightarrow> \<not> placed_at (\<lambda>j. cd_addr (c j)) d i \<Longrightarrow> slots_ok c (Suc i) d rp"
  by (simp add: slots_ok_def placed_Suc)

lemma slot_room:
  assumes "1 \<le> d" "d \<le> 4" "placed_at (\<lambda>j. cd_addr (c j)) d i"
  shows "length (placed (\<lambda>j. cd_addr (c j)) d i) < slot_base (Suc d) - slot_base d"
proof -
  have "length (placed (\<lambda>j. cd_addr (c j)) d (Suc i)) \<le> (if d = 1 then 2 else 2 ^ (d - 1))" using assms by (intro placed_few) auto
  moreover have "(if d = 1 then 2 else 2 ^ (d - 1)) = slot_base (Suc d) - slot_base d"
    using depth_cases [OF assms(1,2)] by (elim disjE) (simp_all add: replica_tables)
  ultimately show ?thesis using assms(3) by (simp add: placed_Suc)
qed

lemma put_slots:
  assumes d: "1 \<le> d" "d \<le> 4" and rp: "lengths_ok rp" "slots_ok c i d rp" and p: "placed_at (\<lambda>j. cd_addr (c j)) d i"
  shows "slots_ok c (Suc i) d (put_slot d (c i) rp)" "slot_base d \<le> rp_sizes rp ! (d - 1)" "rp_sizes rp ! (d - 1) < slot_base (Suc d)"
proof -
  let ?S = "placed (\<lambda>j. cd_addr (c j)) d i"
  have sz: "rp_sizes rp ! (d - 1) = slot_base d + length ?S" using rp(2) by (simp add: slots_ok_def Let_def)
  note room = slot_room [OF d p]
  show "slot_base d \<le> rp_sizes rp ! (d - 1)" "rp_sizes rp ! (d - 1) < slot_base (Suc d)" using sz room by auto
  have top: "slot_base (Suc d) \<le> 16" "d - 1 < 5" using depth_cases [OF d] by (elim disjE; simp add: replica_tables)+
  then have "slot_base d + length ?S < length (rp_queue rp)" using room rp(1) by (simp add: lengths_ok_def)
  then show "slots_ok c (Suc i) d (put_slot d (c i) rp)"
    using rp top(2) p sz by (auto simp: slots_ok_def put_slot_def Let_def placed_Suc lengths_ok_def nth_list_update nth_append)
qed

lemma put_exist: "exist_ok c i d (put_slot e x rp) = exist_ok c i d rp" "lengths_ok (put_slot e x rp) = lengths_ok rp"
    "rp_root (put_slot e x rp) = rp_root rp" "rp_level (put_slot e x rp) = rp_level rp"
  by (simp_all add: exist_ok_def put_slot_def Let_def lengths_ok_def)

lemma weaker_level: "l \<noteq> LNone \<Longrightarrow> (case from_u8 (level_u8 l - 1) of Some w \<Rightarrow> w | None \<Rightarrow> LNone) = w \<Longrightarrow> level_usize w = level_usize l - 1"
  by (cases l) (auto simp: from_u8_def level_usize_def)

lemma level_depth: "level_usize l \<le> 4" "l \<noteq> LNone \<Longrightarrow> 1 \<le> level_usize l" "l \<noteq> LNone \<Longrightarrow> 0 < REPLICA_COUNTS ! level_usize l" "level_usize LNone = 0"
  by (cases l; simp add: level_usize_def REPLICA_COUNTS_def)+

lemma add_candidate_ok:
  assumes "lengths_ok rp" "\<forall>d \<in> {1..level_usize l}. depth_ok c i d rp"
  shows "case add_candidate (c i) l rp of (rp', n, slot) \<Rightarrow>
    lengths_ok rp' \<and> rp_root rp' = rp_root rp \<and> rp_level rp' = rp_level rp \<and>
    (\<forall>d \<in> {1..level_usize l}. depth_ok c (Suc i) d rp') \<and> (\<forall>d \<in> {Suc (level_usize l)..4}. same_depth d rp rp') \<and>
    (n = 0) = (l = LNone \<or> \<not> fresh (\<lambda>j. cd_addr (c j)) (level_usize l) i)"
  using assms
proof (induction "c i" l rp rule: add_candidate.induct)
  case (1 l rp)
  let ?c = "\<lambda>j. cd_addr (c j)" and ?D = "level_usize l"
  show ?case
  proof (cases "l = LNone")
    case True
    then show ?thesis using "1.prems" level_depth(4) by (simp add: add_candidate.simps [of _ LNone])
  next
    case l: False
    note D = level_depth(2) [OF l] level_depth(1) [of l]
    have ix: "nh l (?c i) = REPLICA_INDEX_BASES ! (?D - 1) + top_bits ?D (?c i)" using nh_top_bits D by simp
    have b: "top_bits ?D (?c i) < 2 ^ ?D" using top_bits_less D by simp
    have dD: "exist_ok c i ?D rp" "slots_ok c i ?D rp" using "1.prems"(2) D by (auto simp: depth_ok_def)
    then have ex: "rp_exist rp ! nh l (?c i) = (\<not> fresh ?c ?D i)" using b unfolding ix by (auto simp: exist_ok_def fresh_def)
    show ?thesis
    proof (cases "fresh ?c ?D i")
      case False
      have "\<not> fresh ?c d i" if "d \<in> {1..?D}" for d using that False fresh_finest [of d ?D ?c i] D by auto
      then have "\<forall>d \<in> {1..?D}. depth_ok c (Suc i) d rp"
        using "1.prems"(2) exist_skip slots_skip by (auto simp: depth_ok_def placed_at_def)
      moreover have "add_candidate (c i) l rp = (rp, 0, 0)" using ex False by (simp add: add_candidate.simps [of _ l])
      ultimately show ?thesis using "1.prems"(1) l False by simp
    next
      case fr: True
      define rp1 where "rp1 = rp\<lparr>rp_exist := (rp_exist rp)[nh l (?c i) := True]\<rparr>"
      define w where "w = (case from_u8 (level_u8 l - 1) of Some w \<Rightarrow> w | None \<Rightarrow> LNone)"
      have wD: "level_usize w = ?D - 1" using weaker_level [OF l] w_def by simp
      have wN: "w = LNone \<longleftrightarrow> ?D = 1" using wD level_depth(2) [of w] level_depth(4) D by (cases "w = LNone") auto
      have "lengths_ok rp1" using "1.prems"(1) by (simp add: rp1_def lengths_ok_def)
      have e1: "exist_ok c (Suc i) ?D rp1" using mark_exist [OF D "1.prems"(1) dD(1)] ix by (simp add: rp1_def)
      have s1: "slots_ok c i ?D rp1" using dD(2) by (simp add: rp1_def slots_ok_def)
      have same1: "same_depth d rp rp1" if "d \<in> {1..4}" "d \<noteq> ?D" for d
        using mark_same [of d ?D "top_bits ?D (?c i)" rp] that D b unfolding rp1_def ix by simp
      have lo1: "\<forall>d \<in> {1..level_usize w}. depth_ok c i d rp1"
      proof
        fix d assume "d \<in> {1..level_usize w}"
        then have "d \<in> {1..?D}" "d \<in> {1..4}" "d \<noteq> ?D" using wD D by auto
        then show "depth_ok c i d rp1" using "1.prems"(2) depth_ok_same(3) [OF same1] by blast
      qed
      obtain rp2 n s where a2: "add_candidate (c i) w rp1 = (rp2, n, s)" by (metis prod_cases3)
      have "\<not> rp_exist rp ! nh l (?c i)" using ex fr by simp
      note IH = "1.hyps" [OF l this rp1_def w_def \<open>lengths_ok rp1\<close> lo1, unfolded a2 prod.case]
      have rp2: "lengths_ok rp2" "rp_root rp2 = rp_root rp" "rp_level rp2 = rp_level rp"
          "\<And>d. d \<in> {1..?D - 1} \<Longrightarrow> depth_ok c (Suc i) d rp2" "\<And>d. d \<in> {?D..4} \<Longrightarrow> same_depth d rp1 rp2"
          "(n = 0) = (?D = 1 \<or> \<not> fresh ?c (?D - 1) i)"
        using IH wD D wN by (auto simp: rp1_def)
      have e2: "exist_ok c (Suc i) ?D rp2" "slots_ok c i ?D rp2" using depth_ok_same rp2(5) [of ?D] D e1 s1 by auto
      have hi: "same_depth d rp rp2" if "d \<in> {Suc ?D..4}" for d
        using same_depth_trans [OF same1 rp2(5)] that D by auto
      show ?thesis
      proof (cases "n = 0")
        case True
        then have p: "placed_at ?c ?D i" using fr rp2(6) by (auto simp: placed_at_def)
        have res: "add_candidate (c i) l rp = (put_slot ?D (c i) rp2, REPLICA_COUNTS ! ?D, rp_sizes rp2 ! (?D - 1))"
          using ex fr l a2 True
          by (simp add: add_candidate.simps [of _ l] Let_def put_slot_def flip: rp1_def w_def)
        note ps = put_slots [OF D rp2(1) e2(2) p]
        have "depth_ok c (Suc i) d (put_slot ?D (c i) rp2)" if d: "d \<in> {1..?D}" for d
        proof (cases "d = ?D")
          case True
          then show ?thesis using ps(1) e2(1) by (simp add: depth_ok_def put_exist)
        next
          case False
          then have "same_depth d rp2 (put_slot ?D (c i) rp2)" using put_same [OF _ _ D _ ps(2,3)] d D by auto
          moreover have "depth_ok c (Suc i) d rp2" using rp2(4) [of d] d False by fastforce
          ultimately show ?thesis by (rule depth_ok_same(3))
        qed
        moreover have "same_depth d rp (put_slot ?D (c i) rp2)" if "d \<in> {Suc ?D..4}" for d
          using same_depth_trans [OF hi [OF that] put_same [OF _ _ D _ ps(2,3)]] that by auto
        ultimately show ?thesis unfolding res using rp2 fr l level_depth(3) [OF l] by (simp add: put_exist)
      next
        case False
        then have "\<not> placed_at ?c ?D i" using rp2(6) by (auto simp: placed_at_def)
        then have "depth_ok c (Suc i) d rp2" if "d \<in> {1..?D}" for d
          using that rp2(4) [of d] e2 slots_skip by (cases "d = ?D") (fastforce simp: depth_ok_def)+
        moreover have "add_candidate (c i) l rp = (rp2, n, s)"
          using ex fr l a2 False by (simp add: add_candidate.simps [of _ l] Let_def flip: rp1_def w_def)
        ultimately show ?thesis using rp2 hi fr l False by simp
      qed
    qed
  qed
qed

section \<open>The queue\<close>

definition cand :: "keccak \<Rightarrow> bytes \<Rightarrow> nat \<Rightarrow> candidate" where
  "cand keccak reference j = \<lparr>cd_mined = of_nat j, cd_addr = keccak (reference[0 := of_nat j] @ REPLICAS_OWNER)\<rparr>"

definition slot_depth :: "nat \<Rightarrow> nat" where
  "slot_depth k = (if k < 2 then 1 else if k < 4 then 2 else if k < 8 then 3 else 4)"

definition slot_value :: "(nat \<Rightarrow> candidate) \<Rightarrow> nat \<Rightarrow> nat \<Rightarrow> candidate option" where
  "slot_value c i k =
     (let d = slot_depth k; S = placed (\<lambda>j. cd_addr (c j)) d i
      in if k - slot_base d < length S then Some (c (S ! (k - slot_base d))) else None)"

definition queue_spec :: "(nat \<Rightarrow> candidate) \<Rightarrow> nat \<Rightarrow> nat \<Rightarrow> candidate option list" where
  "queue_spec c D i = map (\<lambda>k. if k < REPLICA_COUNTS ! D then slot_value c i k else None) [0..<16]"

definition filled :: "'a option list \<Rightarrow> 'a list" where
  "filled q = map the (takeWhile (\<lambda>s. s \<noteq> None) q)"

lemma slot_depth_bounds: "k < 16 \<Longrightarrow> slot_base (slot_depth k) \<le> k \<and> k < slot_base (Suc (slot_depth k)) \<and> slot_depth k \<in> {1..4}"
  by (simp add: slot_depth_def replica_tables)

lemma slot_depth_le: "D \<in> {1..4} \<Longrightarrow> k < 16 \<Longrightarrow> (slot_depth k \<le> D) = (k < REPLICA_COUNTS ! D)"
  using depth_cases [of D] by (auto simp: slot_depth_def replica_tables)

lemma queue_is_spec:
  assumes D: "D \<in> {1..4}" and len: "lengths_ok rp" and lo: "\<forall>d \<in> {1..D}. depth_ok c i d rp"
    and hi: "\<forall>d \<in> {Suc D..4}. same_depth d (replicator_new reference l) rp"
  shows "rp_queue rp = queue_spec c D i"
proof (rule nth_equalityI)
  show "length (rp_queue rp) = length (queue_spec c D i)" using len by (simp add: lengths_ok_def queue_spec_def)
next
  fix k assume "k < length (rp_queue rp)"
  then have k: "k < 16" using len by (simp add: lengths_ok_def)
  note b = slot_depth_bounds [OF k]
  let ?d = "slot_depth k"
  have ke: "k = slot_base ?d + (k - slot_base ?d)" "k - slot_base ?d < slot_base (Suc ?d) - slot_base ?d" using b by auto
  show "rp_queue rp ! k = queue_spec c D i ! k"
  proof (cases "?d \<le> D")
    case True
    then have "slots_ok c i ?d rp" using lo b by (auto simp: depth_ok_def)
    then have "rp_queue rp ! (slot_base ?d + (k - slot_base ?d)) = slot_value c i k"
      using ke(2) unfolding slots_ok_def slot_value_def Let_def by blast
    then show ?thesis using True slot_depth_le [OF D k] k ke(1) by (simp add: queue_spec_def)
  next
    case False
    then have "same_depth ?d (replicator_new reference l) rp" using hi b by auto
    then have "rp_queue rp ! (slot_base ?d + (k - slot_base ?d)) = rp_queue (replicator_new reference l) ! (slot_base ?d + (k - slot_base ?d))"
      using ke(2) unfolding same_depth_def by blast
    then have "rp_queue rp ! k = rp_queue (replicator_new reference l) ! k" using ke(1) by simp
    then show ?thesis using False slot_depth_le [OF D k] k by (simp add: queue_spec_def replicator_new_def)
  qed
qed

lemma placed_prefix: "i \<le> i' \<Longrightarrow> \<exists>zs. placed c d i' = placed c d i @ zs"
  by (induction i' rule: dec_induct) (auto simp: placed_Suc)

lemma slot_value_stays: "i \<le> i' \<Longrightarrow> slot_value c i k = Some x \<Longrightarrow> slot_value c i' k = Some x"
  using placed_prefix [of i i' "\<lambda>j. cd_addr (c j)" "slot_depth k"]
  by (auto simp: slot_value_def Let_def nth_append split: if_splits)

lemma filled_simps [simp]: "filled [] = []" "filled (None # q) = []" "filled (Some x # q) = x # filled q"
  by (simp_all add: filled_def)

lemma filled_extends:
  assumes "list_all2 (\<lambda>s s'. s = None \<or> s = s') q q'"
  shows "\<exists>zs. filled q' = filled q @ zs \<and> filled q' = filled q @ filled (drop (length (filled q)) q')"
  using assms
proof (induction rule: list_all2_induct)
  case (Cons s q s' q')
  then show ?case by (cases s) auto
qed simp

lemma queue_extends: "i \<le> i' \<Longrightarrow> list_all2 (\<lambda>s s'. s = None \<or> s = s') (queue_spec c D i) (queue_spec c D i')"
  by (simp add: queue_spec_def list_all2_conv_all_nth) (metis slot_value_stays option.exhaust)

lemma flush_from_filled:
  "flush_from q idx advanced =
     (filled q, if length (filled q) < length q then idx + length (filled q) else if q = [] then advanced else idx + length q - 1)"
proof (induction q idx advanced rule: flush_from.induct)
  case (2 slot slots idx advanced)
  show ?case
  proof (cases slot)
    case (Some c)
    then show ?thesis using 2 [OF Some] by (auto simp: neq_Nil_conv)
  qed simp
qed simp

lemma length_filled: "length (filled q) \<le> length q"
  by (simp add: filled_def length_takeWhile_le)

definition run_ok :: "keccak \<Rightarrow> bytes \<Rightarrow> level \<Rightarrow> nat \<Rightarrow> replicator \<Rightarrow> bool" where
  "run_ok keccak reference l i rp =
     (lengths_ok rp \<and> rp_root rp = reference \<and> rp_level rp = l \<and>
      (\<forall>d \<in> {1..level_usize l}. depth_ok (cand keccak reference) i d rp) \<and>
      (\<forall>d \<in> {Suc (level_usize l)..4}. same_depth d (replicator_new reference l) rp))"

lemma run_ok_queue: "run_ok keccak reference l i rp \<Longrightarrow> l \<noteq> LNone \<Longrightarrow> rp_queue rp = queue_spec (cand keccak reference) (level_usize l) i"
  using level_depth(1,2) [of l] by (intro queue_is_spec) (auto simp: run_ok_def)

lemma run_ok_new: "run_ok keccak reference l 0 (replicator_new reference l)"
proof -
  have "depth_ok c 0 d (replicator_new reference l)" if "d \<in> {1..level_usize l}" for c d
  proof -
    have "d = 1 \<or> d = 2 \<or> d = 3 \<or> d = 4" using that level_depth(1) [of l] by auto
    then show ?thesis
      by (elim disjE) (simp_all add: depth_ok_def exist_ok_def slots_ok_def placed_def replicator_new_def replica_tables)
  qed
  then show ?thesis by (auto simp: run_ok_def lengths_ok_def replicator_new_def REPLICA_COUNTS_def)
qed

lemma run_ok_step:
  assumes "run_ok keccak reference l i rp" "add_candidate (replicate_at keccak rp (of_nat i)) (rp_level rp) rp = (rp', n, s)"
  shows "run_ok keccak reference l (Suc i) rp'"
proof -
  have c: "replicate_at keccak rp (of_nat i) = cand keccak reference i" "rp_level rp = l"
    using assms(1) by (simp_all add: replicate_at_def cand_def run_ok_def)
  have "lengths_ok rp" "\<forall>d \<in> {1..level_usize l}. depth_ok (cand keccak reference) i d rp" using assms(1) by (simp_all add: run_ok_def)
  from add_candidate_ok [OF this] show ?thesis
    using assms same_depth_trans unfolding c run_ok_def by (auto simp del: One_nat_def)
qed

lemma add_nothing: "l \<noteq> LNone \<Longrightarrow> add_candidate c l rp = (rp', 0, s) \<Longrightarrow> rp' = rp"
  using level_depth(3) [of l] by (subst (asm) add_candidate.simps) (auto simp: Let_def split: if_splits prod.splits)

lemma run_loop_spec:
  assumes "run_ok keccak reference l i rp" "l \<noteq> LNone" "out = filled (rp_queue rp)" "n = length out \<or> length out = 16"
    "want \<le> 16" "i \<le> 255"
  shows "take want (run_loop keccak want i n out rp) = take want (filled (queue_spec (cand keccak reference) (level_usize l) 255))"
  using assms
proof (induction keccak want i n out rp rule: run_loop.induct)
  case (1 keccak want i n out rp)
  let ?Q = "queue_spec (cand keccak reference) (level_usize l)"
  have out: "out = filled (?Q i)" using run_ok_queue "1.prems"(1,2,3) by simp
  show ?case
  proof (cases "length out < want \<and> i < 255")
    case False
    then have "take want out = take want (filled (?Q 255))"
    proof (cases "i = 255")
      case False': False
      then have "want \<le> length out" using False "1.prems"(6) by simp
      moreover obtain zs where "filled (?Q 255) = out @ zs"
        using filled_extends [OF queue_extends [OF "1.prems"(6)]] unfolding out by blast
      ultimately show ?thesis by simp
    qed (simp add: out)
    moreover have "run_loop keccak want i n out rp = out" using False by (subst run_loop.simps) (simp only: if_False)
    ultimately show ?thesis by simp
  next
    case go: True
    obtain rp' p s where a: "add_candidate (replicate_at keccak rp (of_nat i)) (rp_level rp) rp = (rp', p, s)" by (metis prod_cases3)
    note ok = run_ok_step [OF "1.prems"(1) a]
    have l: "rp_level rp \<noteq> LNone" using "1.prems"(1,2) by (simp add: run_ok_def)
    have n: "n = length out" using "1.prems"(4,5) go by auto
    show ?thesis
    proof (cases "p = 0")
      case True
      then have "rp' = rp" using add_nothing [OF l] a by simp
      then have "take want (run_loop keccak want (i + 1) n out rp') = take want (filled (?Q 255))"
        using "1.IH"(1) [OF go a [symmetric] refl True] ok "1.prems" go by simp
      then show ?thesis using go a True by (subst run_loop.simps) simp
    next
      case False
      let ?q = "drop n (rp_queue rp')"
      have q': "rp_queue rp' = ?Q (Suc i)" using run_ok_queue [OF ok "1.prems"(2)] .
      have len: "length (rp_queue rp') = 16" using ok by (simp add: run_ok_def lengths_ok_def)
      have f: "filled (rp_queue rp') = out @ filled ?q"
        using filled_extends [OF queue_extends [of i "Suc i" "cand keccak reference" "level_usize l"]] unfolding q' out n by simp
      define adv where "adv = snd (flush_from ?q 0 0)"
      have fl: "flush_from ?q 0 0 = (filled ?q, adv)" by (simp add: adv_def flush_from_filled)
      have "n \<le> 16" using n length_filled [of "?Q i"] by (simp add: out queue_spec_def)
      then have "n + adv = length (out @ filled ?q) \<or> length (out @ filled ?q) = 16"
        using n len length_filled [of ?q] by (auto simp: adv_def flush_from_filled)
      then have "take want (run_loop keccak want (i + 1) (n + adv) (out @ filled ?q) rp') = take want (filled (?Q 255))"
        using "1.IH"(2) [OF go a [symmetric] refl False fl [symmetric]] ok "1.prems" go f by simp
      then show ?thesis using go a False fl by (subst run_loop.simps) simp
    qed
  qed
qed

lemma filled_take: "filled (take k q) = take k (filled q)"
proof (induction q arbitrary: k)
  case (Cons s q)
  then show ?case by (cases k; cases s) auto
qed simp

lemma filled_pad: "filled (q @ replicate k None) = filled q"
proof (induction q)
  case (Cons s q)
  then show ?case by (cases s) auto
qed (cases k; simp)

lemma queue_levels:
  assumes "D \<in> {1..4}"
  shows "filled (queue_spec c D i) = take (REPLICA_COUNTS ! D) (filled (queue_spec c 4 i))"
proof -
  have D: "REPLICA_COUNTS ! D \<le> 16" "REPLICA_COUNTS ! 4 = 16" using depth_cases [of D] assms by (auto simp: REPLICA_COUNTS_def)
  have "queue_spec c D i = take (REPLICA_COUNTS ! D) (queue_spec c 4 i) @ replicate (16 - REPLICA_COUNTS ! D) None"
    using D by (auto simp: queue_spec_def nth_append intro!: nth_equalityI)
  then show ?thesis using filled_pad filled_take by metis
qed

lemma replica_addresses_spec:
  assumes "l \<noteq> LNone"
  shows "replica_addresses keccak reference l =
    take (REPLICA_COUNTS ! level_usize l) (map cd_addr (filled (queue_spec (cand keccak reference) 4 255)))"
proof -
  let ?w = "REPLICA_COUNTS ! level_usize l"
  have D: "level_usize l \<in> {1..4}" using level_depth(1,2) [of l] assms by auto
  then have "?w \<le> 16" using depth_cases [of "level_usize l"] by (auto simp: REPLICA_COUNTS_def)
  moreover have "filled (rp_queue (replicator_new reference l)) = []" by (simp add: replicator_new_def numeral_eq_Suc)
  moreover have "rp_level (replicator_new reference l) = l" by (simp add: replicator_new_def)
  ultimately show ?thesis
    using run_loop_spec [OF run_ok_new [of keccak reference l] assms, where out = "[]" and n = 0 and want = ?w] assms queue_levels [OF D]
    by (simp add: replica_addresses_def replicator_run_def take_map)
qed


lemma placed_once:
  assumes "placed_at a d j" "placed_at a e j" "d < e" "1 \<le> d" "e \<le> 8"
  shows False
proof -
  have "fresh a (e - 1) j" using assms by (intro fresh_finest [of d "e - 1"]) (auto simp: placed_at_def)
  then show False using assms by (auto simp: placed_at_def)
qed

lemma fresh_apart: "fresh a d j \<Longrightarrow> fresh a d k \<Longrightarrow> j \<noteq> k \<Longrightarrow> top_bits d (a j) \<noteq> top_bits d (a k)"
  by (metis fresh_def linorder_neqE_nat)

lemma slot_value_fresh:
  assumes "D \<in> {1..4}" "k < 16" "k < REPLICA_COUNTS ! D" "slot_value c i k = Some x"
  shows "\<exists>j. x = c j \<and> fresh (\<lambda>j. cd_addr (c j)) D j \<and> placed_at (\<lambda>j. cd_addr (c j)) (slot_depth k) j \<and>
    k - slot_base (slot_depth k) < length (placed (\<lambda>j. cd_addr (c j)) (slot_depth k) i) \<and>
    j = placed (\<lambda>j. cd_addr (c j)) (slot_depth k) i ! (k - slot_base (slot_depth k))"
proof -
  let ?a = "\<lambda>j. cd_addr (c j)" and ?d = "slot_depth k"
  let ?m = "k - slot_base ?d"
  have m: "?m < length (placed ?a ?d i)" "x = c (placed ?a ?d i ! ?m)"
    using assms(4) by (auto simp: slot_value_def Let_def split: if_splits)
  then have p: "placed_at ?a ?d (placed ?a ?d i ! ?m)" using nth_mem [OF m(1)] by (simp add: placed_def)
  moreover have "?d \<le> D" using slot_depth_le [OF assms(1,2)] assms(3) by simp
  ultimately have "fresh ?a D (placed ?a ?d i ! ?m)" using assms(1) by (auto simp: placed_at_def intro: fresh_finest)
  then show ?thesis using m p by blast
qed

lemma slots_apart:
  assumes D: "D \<in> {1..4}" and k: "k < k'" "k' < 16" "k' < REPLICA_COUNTS ! D"
    and x: "slot_value c i k = Some x" "slot_value c i k' = Some y"
  shows "top_bits D (cd_addr x) \<noteq> top_bits D (cd_addr y)"
proof -
  let ?a = "\<lambda>j. cd_addr (c j)"
  obtain j where j: "x = c j" "fresh ?a D j" "placed_at ?a (slot_depth k) j"
      "k - slot_base (slot_depth k) < length (placed ?a (slot_depth k) i)"
      "j = placed ?a (slot_depth k) i ! (k - slot_base (slot_depth k))"
    using slot_value_fresh [OF D _ _ x(1)] k by auto
  obtain j' where j': "y = c j'" "fresh ?a D j'" "placed_at ?a (slot_depth k') j'"
      "k' - slot_base (slot_depth k') < length (placed ?a (slot_depth k') i)"
      "j' = placed ?a (slot_depth k') i ! (k' - slot_base (slot_depth k'))"
    using slot_value_fresh [OF D _ _ x(2)] k by auto
  have b: "slot_base (slot_depth k) \<le> k" "slot_depth k \<in> {1..4}" "slot_depth k' \<in> {1..4}" "slot_base (slot_depth k') \<le> k'"
    using slot_depth_bounds [of k] slot_depth_bounds [of k'] k by auto
  have "j \<noteq> j'"
  proof (cases "slot_depth k = slot_depth k'")
    case True
    then have "k - slot_base (slot_depth k) \<noteq> k' - slot_base (slot_depth k')" using b k by auto
    then show ?thesis using j j' True placed_distinct nth_eq_iff_index_eq by metis
  next
    case False
    then have "slot_depth k < slot_depth k'" using k(1) by (auto simp: slot_depth_def split: if_splits)
    then show ?thesis using placed_once [OF j(3), of "slot_depth k'"] j'(3) b by auto
  qed
  then show ?thesis using fresh_apart [OF j(2) j'(2)] j(1) j'(1) by simp
qed

lemma filled_nth: "k < length (filled q) \<Longrightarrow> k < length q \<and> q ! k = Some (filled q ! k)"
proof (induction q arbitrary: k)
  case (Cons s q)
  then show ?case by (cases s; cases k) auto
qed simp

lemma queue_apart:
  assumes "D \<in> {1..4}"
  shows "distinct (map (\<lambda>x. top_bits D (cd_addr x)) (filled (queue_spec c D i)))"
proof -
  have "top_bits D (cd_addr (filled (queue_spec c D i) ! k)) \<noteq> top_bits D (cd_addr (filled (queue_spec c D i) ! k'))"
    if k: "k < k'" "k' < length (filled (queue_spec c D i))" for k k'
  proof -
    have "queue_spec c D i ! k = Some (filled (queue_spec c D i) ! k)" "k < 16" "queue_spec c D i ! k' = Some (filled (queue_spec c D i) ! k')" "k' < 16"
      using filled_nth [of k "queue_spec c D i"] filled_nth [of k' "queue_spec c D i"] k by (auto simp: queue_spec_def)
    then show ?thesis using slots_apart [OF assms k(1)] by (auto simp: queue_spec_def split: if_splits)
  qed
  then show ?thesis unfolding distinct_conv_nth length_map by (metis linorder_neqE_nat nth_map)
qed

section \<open>Dispersal\<close>

text \<open>C24. Dispersal of the root. For every hash, root and level: the replica addresses of the root fall into pairwise
  different neighbourhoods (2, 4, 8 or 16 of them, by the level), there are at most as many as the level asks for, and
  they are the first ones of the addresses of every stronger level, so that a reader who assumes the strongest level
  tries the addresses a weaker upload stored first.\<close>

theorem replicas_dispersed:
  shows "distinct (map (top_bits (level_usize l)) (replica_addresses keccak reference l)) \<and>
    length (replica_addresses keccak reference l) \<le> REPLICA_COUNTS ! level_usize l \<and>
    (level_usize l \<le> level_usize l' \<longrightarrow>
      replica_addresses keccak reference l = take (REPLICA_COUNTS ! level_usize l) (replica_addresses keccak reference l'))"
proof (cases "l = LNone")
  case True
  then show ?thesis by (simp add: replica_addresses_def level_usize_def REPLICA_COUNTS_def)
next
  case False
  let ?D = "level_usize l" and ?c = "cand keccak reference"
  have D: "?D \<in> {1..4}" using level_depth(1,2) [of l] False by auto
  have "replica_addresses keccak reference l = map cd_addr (filled (queue_spec ?c ?D 255))"
    unfolding replica_addresses_spec [OF False] queue_levels [OF D] take_map ..
  then have "distinct (map (top_bits ?D) (replica_addresses keccak reference l))" using queue_apart [OF D] by (simp add: o_def)
  moreover have "replica_addresses keccak reference l = take (REPLICA_COUNTS ! ?D) (replica_addresses keccak reference l')"
    if "?D \<le> level_usize l'"
  proof -
    have l': "l' \<noteq> LNone" using that D level_depth(4) by auto
    have "REPLICA_COUNTS ! ?D \<le> REPLICA_COUNTS ! level_usize l'"
      using that D depth_cases [of ?D] depth_cases [of "level_usize l'"] level_depth(1) [of l'] by (auto simp: REPLICA_COUNTS_def)
    then show ?thesis unfolding replica_addresses_spec [OF False] replica_addresses_spec [OF l'] by (simp add: min_def)
  qed
  ultimately show ?thesis by (simp add: replica_addresses_spec [OF False])
qed

theorem replicas_dispersed_witness:
  "replica_addresses (\<lambda>b. b) (replicate 32 0) Medium = take 2 (replica_addresses (\<lambda>b. b) (replicate 32 0) Paranoid) \<and>
   distinct (map (top_bits 1) (replica_addresses (\<lambda>b. b) (replicate 32 0) Medium))"
proof -
  have "level_usize Medium = 1" "level_usize Medium \<le> level_usize Paranoid" "REPLICA_COUNTS ! 1 = 2"
    by (simp_all add: level_usize_def REPLICA_COUNTS_def)
  then show ?thesis using replicas_dispersed [of Medium "\<lambda>b. b" "replicate 32 0" Paranoid] by metis
qed

section \<open>Recovery\<close>

definition good_replica :: "bmt \<Rightarrow> bytes \<Rightarrow> string + bytes \<Rightarrow> bool" where
  "good_replica bmt reference answer = (case answer of Inl _ \<Rightarrow> False | Inr wire \<Rightarrow> unwrap_replica bmt wire reference \<noteq> None)"

lemma unwrap_replica_sound: "unwrap_replica bmt wire reference = Some w \<Longrightarrow> wire_address bmt w = Some reference"
  by (auto simp: unwrap_replica_def Let_def split: if_splits option.splits)

lemma recover_loop_exact:
  "window_ok (length addrs) nxt futs \<Longrightarrow>
   (case recover_loop bmt get pick addrs reference nxt futs of
      None \<Rightarrow> \<forall>i < length addrs. i \<notin> landed nxt futs \<longrightarrow> \<not> good_replica bmt reference (get (addrs ! i))
    | Some w \<Rightarrow> wire_address bmt w = Some reference \<and> (\<exists>i < length addrs. good_replica bmt reference (get (addrs ! i))))"
proof (induction bmt get pick addrs reference nxt futs rule: recover_loop.induct)
  case (1 bmt get pick addrs reference nxt futs)
  show ?case
  proof (cases "futs = []")
    case True
    then have "recover_loop bmt get pick addrs reference nxt futs = None" by (subst recover_loop.simps) simp
    then show ?thesis using landed_end "1.prems" True by auto
  next
    case False
    let ?i = "fst (take_fut pick futs)" and ?r = "refill (length addrs) nxt (snd (take_fut pick futs))"
    note w = window_step [OF "1.prems" False, of pick]
    have step: "recover_loop bmt get pick addrs reference nxt futs =
        (if good_replica bmt reference (get (addrs ! ?i)) then unwrap_replica bmt (projr (get (addrs ! ?i))) reference
         else recover_loop bmt get pick addrs reference (fst ?r) (snd ?r))"
      using False by (subst recover_loop.simps) (auto simp: Let_def good_replica_def split: sum.split option.split)
    show ?thesis
    proof (cases "good_replica bmt reference (get (addrs ! ?i))")
      case True
      then obtain x where "unwrap_replica bmt (projr (get (addrs ! ?i))) reference = Some x"
        by (auto simp: good_replica_def split: sum.splits)
      then show ?thesis unfolding step using True w(4) unwrap_replica_sound by auto
    next
      case bad: False
      have "case recover_loop bmt get pick addrs reference (fst ?r) (snd ?r) of
          None \<Rightarrow> \<forall>i < length addrs. i \<notin> landed (fst ?r) (snd ?r) \<longrightarrow> \<not> good_replica bmt reference (get (addrs ! i))
        | Some w \<Rightarrow> wire_address bmt w = Some reference \<and> (\<exists>i < length addrs. good_replica bmt reference (get (addrs ! i)))"
        using bad "1.IH"(1) [OF False refl refl _ w(1)] "1.IH"(2) [OF False refl refl _ _ w(1)]
        by (cases "get (addrs ! ?i)") (auto simp: good_replica_def split: option.splits)
      then show ?thesis unfolding step using bad w(2) by (auto split: option.split)
    qed
  qed
qed

text \<open>C26. Recovering a lost root. Whatever the chunk source answers, also with forged replicas, and in whatever order: the
  recovery returns a chunk exactly when one of the replica addresses of the root is answered with a replica that wraps
  a chunk with the address of the root, and whatever it returns has that address.\<close>

theorem recover_root_exact:
  "(recover_root keccak bmt get pick reference l = None \<longleftrightarrow>
      (\<forall>a \<in> set (replica_addresses keccak reference l). \<not> good_replica bmt reference (get a))) \<and>
   (\<forall>w. recover_root keccak bmt get pick reference l = Some w \<longrightarrow> wire_address bmt w = Some reference)"
proof -
  let ?as = "replica_addresses keccak reference l"
  let ?w = "min WINDOW (length ?as)"
  show ?thesis
  proof (cases "?as = []")
    case False
    then have "window_ok (length ?as) ?w [0..<?w]" by (intro window_start) (auto simp: WINDOW_def)
    from recover_loop_exact [OF this, where bmt = bmt and get = get and pick = pick and reference = reference] False show ?thesis
      by (auto simp: recover_root_def Let_def in_set_conv_nth split: option.splits) (use nth_mem in blast)
  qed (simp add: recover_root_def)
qed

definition demo_keccak :: keccak where
  "demo_keccak b = [push_bit 7 (b ! 0)]"

lemma demo_replicas: "replica_addresses demo_keccak (replicate 32 0) Medium = [[0], [128]]"
  by code_simp

text \<open>A forged replica at the first address and a true one at the second.\<close>

definition demo_sources :: wire_get where
  "demo_sources a = (if a = [0] then Inr (replicate 106 1) else Inr (replicate 105 0))"

definition demo_span_hash :: bmt where
  "demo_span_hash sp body = (if sp = 0 then replicate 32 0 else replicate 32 1)"

lemma demo_good: "good_replica demo_span_hash (replicate 32 0) (demo_sources [128])"
proof -
  have "from_le_bytes (replicate 8 0) = (0 :: u64)" by (simp add: from_le_bytes_def numeral_eq_Suc)
  then have "wire_address demo_span_hash (replicate 8 0) = Some (replicate 32 0)"
    by (simp add: wire_address_def demo_span_hash_def SPAN_SIZE_def)
  then show ?thesis by (simp add: good_replica_def demo_sources_def unwrap_replica_def SOC_PREFIX_def HASH_SIZE_def)
qed

theorem recover_root_exact_witness:
  "\<exists>w. recover_root demo_keccak demo_span_hash demo_sources (\<lambda>_. 0) (replicate 32 0) Medium = Some w \<and>
     wire_address demo_span_hash w = Some (replicate 32 0)"
  using recover_root_exact [of demo_keccak demo_span_hash demo_sources "\<lambda>_. 0" "replicate 32 0" Medium] demo_good
  unfolding demo_replicas by auto

end
