(* ===== verification/Encoder.thy ===== *)
theory Encoder
  imports ChunkTree Replicas
begin

text \<open>
  The erasure-coding splitter, \<^verbatim>\<open>src/erasure/encoder.rs\<close>: chunks are written to the lowest level of a trie, full levels are
  wrapped into a node of the level above, full redundancy buffers are encoded, and finishing flushes the levels
  bottom-up. What the chunk library does for the replicas of the root is a parameter.
\<close>

unbundle bit_operations_syntax

section \<open>State\<close>

definition CHUNK_WITH_SPAN :: usize where
  "CHUNK_WITH_SPAN = SPAN_SIZE + CHUNK_SIZE"

definition MAX_LEVEL :: usize where
  "MAX_LEVEL = 8"

record entry =
  en_span :: u64
  en_reference :: bytes

record level_buf =
  lb_entries :: "entry list"
  lb_effective :: usize

record split_output =
  so_root :: bytes
  so_chunks :: "(bytes \<times> bytes) list"
  so_parity_chunks :: usize
  so_replica_chunks :: usize

record encoder =
  ec_level :: level
  ec_max_shards :: usize
  ec_max_children :: usize
  ec_levels :: "level_buf list"
  ec_rs_buf :: "bytes list list"
  ec_full :: bool
  ec_out :: "(bytes \<times> bytes) list"
  ec_seen :: "bytes set"
  ec_parity_chunks :: usize

definition encoder_new :: "level \<Rightarrow> encoder" where
  "encoder_new l =
     (let max_sh = max_shards l
      in \<lparr>ec_level = l, ec_max_shards = max_sh, ec_max_children = max_sh + parities l max_sh,
          ec_levels = replicate (MAX_LEVEL + 2) \<lparr>lb_entries = [], lb_effective = 0\<rparr>,
          ec_rs_buf = replicate MAX_LEVEL [], ec_full = False, ec_out = [], ec_seen = {}, ec_parity_chunks = 0\<rparr>)"

definition emit :: "bmt \<Rightarrow> bytes \<Rightarrow> bool \<Rightarrow> encoder \<Rightarrow> encode_error + encoder \<times> bytes" where
  "emit bmt wire parity st =
     (case wire_address bmt wire of
        None \<Rightarrow> Inl (OversizedChunk (length wire - SPAN_SIZE))
      | Some reference \<Rightarrow>
          if reference \<in> ec_seen st then Inr (st, reference)
          else Inr (st\<lparr>ec_seen := insert reference (ec_seen st), ec_out := ec_out st @ [(reference, wire)],
                       ec_parity_chunks := ec_parity_chunks st + (if parity then 1 else 0)\<rparr>, reference))"

definition push_entry :: "usize \<Rightarrow> bool \<Rightarrow> entry \<Rightarrow> encoder \<Rightarrow> encoder" where
  "push_entry lv parity e st =
     (let buf = ec_levels st ! lv
      in st\<lparr>ec_levels := (ec_levels st)[lv := \<lparr>lb_entries = lb_entries buf @ [e],
                                               lb_effective = lb_effective buf + (if parity then 0 else 1)\<rparr>]\<rparr>)"

definition resize_shard :: "bytes \<Rightarrow> bytes" where
  "resize_shard wire = take CHUNK_WITH_SPAN wire @ replicate (CHUNK_WITH_SPAN - length wire) 0"

definition node_wire :: "level \<Rightarrow> entry list \<Rightarrow> usize \<Rightarrow> bytes" where
  "node_wire l entries effective =
     (let sp = foldl (\<lambda>acc e. acc + en_span e) (0 :: u64) (take effective entries);
          par = length entries - effective;
          span_bytes = (if par > 0 then (to_le_bytes 8 sp)[SPAN_SIZE - 1 := level_u8 l OR 0x80] else to_le_bytes 8 sp)
      in span_bytes @ concat (map en_reference entries))"

section \<open>The mutually recursive writers\<close>

text \<open>
  The buffers of the levels are indexed up to \<^verbatim>\<open>MAX_LEVEL + 1\<close> and the redundancy buffers up to \<^verbatim>\<open>MAX_LEVEL - 1\<close>; an
  access beyond is the error \<^verbatim>\<open>OutOfBounds\<close>.\<close>

function (sequential)
  write_to_level :: "bmt \<Rightarrow> usize \<Rightarrow> bool \<Rightarrow> u64 \<Rightarrow> bytes \<Rightarrow> encoder \<Rightarrow> encode_error + encoder" and
  wrap_level :: "bmt \<Rightarrow> usize \<Rightarrow> encoder \<Rightarrow> encode_error + encoder" and
  chunk_write :: "bmt \<Rightarrow> usize \<Rightarrow> bytes \<Rightarrow> encoder \<Rightarrow> encode_error + encoder" and
  rs_encode :: "bmt \<Rightarrow> usize \<Rightarrow> encoder \<Rightarrow> encode_error + encoder" and
  write_parities :: "bmt \<Rightarrow> usize \<Rightarrow> bytes list \<Rightarrow> encoder \<Rightarrow> encode_error + encoder" where
  "write_to_level bmt lv parity sp reference st =
     (if lv \<ge> MAX_LEVEL + 2 then Inl OutOfBounds
      else
        let st1 = push_entry lv parity \<lparr>en_span = sp, en_reference = reference\<rparr> st
        in if length (lb_entries (ec_levels st1 ! lv)) = ec_max_children st1 then wrap_level bmt lv st1 else Inr st1)"
| "wrap_level bmt lv st =
     (if lv \<ge> MAX_LEVEL + 2 then Inl OutOfBounds
      else
        let buf = ec_levels st ! lv;
            st1 = st\<lparr>ec_levels := (ec_levels st)[lv := \<lparr>lb_entries = [], lb_effective = 0\<rparr>]\<rparr>;
            wire = node_wire (ec_level st) (lb_entries buf) (lb_effective buf)
        in case emit bmt wire False st1 of
             Inl e \<Rightarrow> Inl e
           | Inr (st2, reference) \<Rightarrow>
               (case write_to_level bmt (lv + 1) False (from_le_bytes (take SPAN_SIZE wire)) reference st2 of
                  Inl e \<Rightarrow> Inl e
                | Inr st3 \<Rightarrow>
                    (case chunk_write bmt lv wire st3 of
                       Inl e \<Rightarrow> Inl e
                     | Inr st4 \<Rightarrow> Inr (if lv + 1 = MAX_LEVEL then st4\<lparr>ec_full := True\<rparr> else st4))))"
| "chunk_write bmt rs_level wire st =
     (if ec_level st = LNone \<or> rs_level \<ge> MAX_LEVEL then Inr st
      else
        let st1 = st\<lparr>ec_rs_buf := (ec_rs_buf st)[rs_level := ec_rs_buf st ! rs_level @ [resize_shard wire]]\<rparr>
        in if length (ec_rs_buf st1 ! rs_level) = ec_max_shards st1 then rs_encode bmt rs_level st1 else Inr st1)"
| "rs_encode bmt rs_level st =
     (if ec_level st = LNone then Inr st
      else if rs_level \<ge> MAX_LEVEL then Inl OutOfBounds
      else if ec_rs_buf st ! rs_level = [] then Inr st
      else
        let buf = ec_rs_buf st ! rs_level;
            par = parities (ec_level st) (length buf);
            st1 = st\<lparr>ec_rs_buf := (ec_rs_buf st)[rs_level := []]\<rparr>
        in if par = 0 then Inr st1
           else
             case rs_new (length buf) par of
               Inl e \<Rightarrow> Inl (EncRs e)
             | Inr rs \<Rightarrow>
                 (case encode rs (buf @ replicate par (replicate CHUNK_WITH_SPAN 0)) of
                    Inl e \<Rightarrow> Inl (EncRs e)
                  | Inr full \<Rightarrow> write_parities bmt rs_level (drop (length buf) full) st1))"
| "write_parities bmt rs_level [] st = Inr st"
| "write_parities bmt rs_level (parity # ps) st =
     (case emit bmt parity True st of
        Inl e \<Rightarrow> Inl e
      | Inr (st1, reference) \<Rightarrow>
          (case write_to_level bmt (rs_level + 1) True (from_le_bytes (take SPAN_SIZE parity)) reference st1 of
             Inl e \<Rightarrow> Inl e
           | Inr st2 \<Rightarrow> write_parities bmt rs_level ps st2))"
  by pat_completeness auto

text \<open>Every call goes to a level above or to a later step of the same level.\<close>

termination
proof (relation "measures
    [\<lambda>x. case x of
        Inl (Inl (bmt, lv, parity, sp, reference, st)) \<Rightarrow> if lv \<ge> 10 then 0 else 53 - 5 * lv
      | Inl (Inr (bmt, lv, st)) \<Rightarrow> 52 - 5 * lv
      | Inr (Inl (bmt, r, wire, st)) \<Rightarrow> 51 - 5 * r
      | Inr (Inr (Inl (bmt, r, st))) \<Rightarrow> 50 - 5 * r
      | Inr (Inr (Inr (bmt, r, ps, st))) \<Rightarrow> Suc (48 - 5 * r),
     \<lambda>x. case x of
        Inl _ \<Rightarrow> 0
      | Inr (Inl _) \<Rightarrow> 0
      | Inr (Inr (Inl _)) \<Rightarrow> 0
      | Inr (Inr (Inr (bmt, r, ps, st))) \<Rightarrow> length ps]")
qed (auto simp: MAX_LEVEL_def)

declare write_to_level.simps [simp del] wrap_level.simps [simp del] chunk_write.simps [simp del] rs_encode.simps [simp del]

section \<open>Feeding data and finishing\<close>

definition write_chunk :: "bmt \<Rightarrow> bytes \<Rightarrow> encoder \<Rightarrow> encode_error + encoder" where
  "write_chunk bmt payload st =
     (if ec_full st then Inl TrieFull
      else
        let sp = of_nat (length payload) :: u64;
            wire = to_le_bytes 8 sp @ payload
        in case emit bmt wire False st of
             Inl e \<Rightarrow> Inl e
           | Inr (st1, reference) \<Rightarrow>
               (case write_to_level bmt 1 False sp reference st1 of
                  Inl e \<Rightarrow> Inl e
                | Inr st2 \<Rightarrow> chunk_write bmt 0 wire st2))"

fun write_all :: "bmt \<Rightarrow> bytes list \<Rightarrow> encoder \<Rightarrow> encode_error + encoder" where
  "write_all bmt [] st = Inr st"
| "write_all bmt (c # cs) st = (case write_chunk bmt c st of Inl e \<Rightarrow> Inl e | Inr st' \<Rightarrow> write_all bmt cs st')"

definition elevate_carrier_chunk :: "bmt \<Rightarrow> usize \<Rightarrow> encoder \<Rightarrow> encode_error + encoder" where
  "elevate_carrier_chunk bmt rs_level st =
     (if ec_level st = LNone \<or> rs_level \<ge> MAX_LEVEL then Inr st
      else if length (ec_rs_buf st ! rs_level) \<noteq> 1 then Inr st
      else
        let carrier = ec_rs_buf st ! rs_level ! 0 in
        if rs_level + 1 < MAX_LEVEL then
          let st1 = st\<lparr>ec_rs_buf := (ec_rs_buf st)[rs_level + 1 := ec_rs_buf st ! (rs_level + 1) @ [carrier]]\<rparr>
          in if length (ec_rs_buf st1 ! (rs_level + 1)) = ec_max_shards st1 then rs_encode bmt (rs_level + 1) st1 else Inr st1
        else Inr st)"

definition carry_over :: "usize \<Rightarrow> encoder \<Rightarrow> encoder" where
  "carry_over lv st =
     (let e = hd (lb_entries (ec_levels st ! lv));
          st1 = st\<lparr>ec_levels := (ec_levels st)[lv := \<lparr>lb_entries = tl (lb_entries (ec_levels st ! lv)), lb_effective = 0\<rparr>]\<rparr>
      in push_entry (lv + 1) False e st1)"

definition finish_level :: "bmt \<Rightarrow> usize \<Rightarrow> encoder \<Rightarrow> encode_error + encoder" where
  "finish_level bmt lv st =
     (let n = length (lb_entries (ec_levels st ! lv)) in
      if n = 0 then Inr st
      else if n = ec_max_children st then wrap_level bmt lv st
      else if n = 1 then elevate_carrier_chunk bmt (lv - 1) (carry_over lv st)
      else case rs_encode bmt (lv - 1) st of Inl e \<Rightarrow> Inl e | Inr st' \<Rightarrow> wrap_level bmt lv st')"

fun finish_levels :: "bmt \<Rightarrow> usize list \<Rightarrow> encoder \<Rightarrow> encode_error + encoder" where
  "finish_levels bmt [] st = Inr st"
| "finish_levels bmt (lv # lvs) st = (case finish_level bmt lv st of Inl e \<Rightarrow> Inl e | Inr st' \<Rightarrow> finish_levels bmt lvs st')"

fun add_replicas :: "(bytes \<times> bytes) list \<Rightarrow> encoder \<Rightarrow> usize \<Rightarrow> encoder \<times> usize" where
  "add_replicas [] st n = (st, n)"
| "add_replicas ((a, wire) # rs) st n =
     (if a \<in> ec_seen st then add_replicas rs st n
      else add_replicas rs (st\<lparr>ec_seen := insert a (ec_seen st), ec_out := ec_out st @ [(a, wire)]\<rparr>) (n + 1))"

definition finish :: "keccak \<Rightarrow> chunk_lib \<Rightarrow> bmt \<Rightarrow> encoder \<Rightarrow> encode_error + split_output" where
  "finish keccak lib bmt st =
     (case finish_levels bmt [1..<MAX_LEVEL] st of
        Inl e \<Rightarrow> Inl e
      | Inr st1 \<Rightarrow>
          let entries = lb_entries (ec_levels st1 ! MAX_LEVEL) in
          if length entries \<noteq> 1 then Inl InconsistentRefs
          else
            let reference = en_reference (hd entries) in
            case find (\<lambda>(a, w). a = reference) (ec_out st1) of
              None \<Rightarrow> Inl InconsistentRefs
            | Some (_, root_wire) \<Rightarrow>
                (case dispersed_replicas keccak lib root_wire (ec_level st1) of
                   Inl e \<Rightarrow> Inl e
                 | Inr rs \<Rightarrow>
                     (case add_replicas rs st1 0 of
                        (st2, n) \<Rightarrow>
                          Inr \<lparr>so_root = reference, so_chunks = ec_out st2, so_parity_chunks = ec_parity_chunks st2,
                               so_replica_chunks = n\<rparr>)))"

text \<open>\<^verbatim>\<open>data.chunks(n)\<close>: pieces of \<open>n\<close> elements, the last one possibly shorter.\<close>

function chunks :: "nat \<Rightarrow> 'a list \<Rightarrow> 'a list list" where
  "chunks n xs = (if xs = [] \<or> n = 0 then [] else take n xs # chunks n (drop n xs))"
  by pat_completeness auto
termination by (relation "measure (\<lambda>(n, xs). length xs)") auto

declare chunks.simps [simp del]

definition split_with_redundancy :: "keccak \<Rightarrow> chunk_lib \<Rightarrow> bmt \<Rightarrow> bytes \<Rightarrow> level \<Rightarrow> encode_error + split_output" where
  "split_with_redundancy keccak lib bmt data l =
     (case write_all bmt (chunks CHUNK_SIZE data @ (if data = [] then [[]] else [])) (encoder_new l) of
        Inl e \<Rightarrow> Inl e
      | Inr st \<Rightarrow> finish keccak lib bmt st)"

unbundle bit_operations_syntax

section \<open>The state of the encoder as a forest\<close>

type_synonym forest = "nat \<Rightarrow> ctree list"

definition entry_of :: "bmt \<Rightarrow> level \<Rightarrow> ctree \<Rightarrow> entry" where
  "entry_of bmt l t =
     \<lparr>en_span = from_le_bytes (take SPAN_SIZE (tree_wire bmt l t)), en_reference = ref_of bmt (tree_wire bmt l t)\<rparr>"

definition buf_of :: "bmt \<Rightarrow> level \<Rightarrow> ctree list \<Rightarrow> level_buf" where
  "buf_of bmt l ts = \<lparr>lb_entries = map (entry_of bmt l) ts, lb_effective = length ts\<rparr>"

definition shards_of :: "bmt \<Rightarrow> level \<Rightarrow> ctree list \<Rightarrow> bytes list" where
  "shards_of bmt l ts = map (\<lambda>t. pad (tree_wire bmt l t)) ts"

text \<open>
  The buffers of levels 1 to 8, and from level \<open>lo\<close> on the redundancy buffers, of an encoder.\<close>

definition st_is :: "level \<Rightarrow> nat \<Rightarrow> bool \<Rightarrow> (nat \<Rightarrow> level_buf) \<Rightarrow> (nat \<Rightarrow> bytes list) \<Rightarrow> encoder \<Rightarrow> bool" where
  "st_is l lo full L R st =
     (ec_level st = l \<and> ec_max_shards st = max_shards l \<and> ec_max_children st = max_shards l + parities l (max_shards l) \<and>
      ec_full st = full \<and> length (ec_levels st) = 10 \<and> length (ec_rs_buf st) = 8 \<and> 1 \<le> lo \<and>
      (\<forall>j. 1 \<le> j \<longrightarrow> j \<le> 8 \<longrightarrow> ec_levels st ! j = L j) \<and>
      (\<forall>j. l \<noteq> LNone \<longrightarrow> lo \<le> j \<longrightarrow> j \<le> 8 \<longrightarrow> ec_rs_buf st ! (j - 1) = R j))"

lemma st_isD:
  assumes "st_is l lo full L R st"
  shows "ec_level st = l" "ec_max_shards st = max_shards l" "ec_max_children st = max_shards l + parities l (max_shards l)"
    "ec_full st = full" "length (ec_levels st) = 10" "length (ec_rs_buf st) = 8" "1 \<le> lo"
    "1 \<le> j \<Longrightarrow> j \<le> 8 \<Longrightarrow> ec_levels st ! j = L j"
    "l \<noteq> LNone \<Longrightarrow> lo \<le> j \<Longrightarrow> j \<le> 8 \<Longrightarrow> ec_rs_buf st ! (j - 1) = R j"
  using assms by (auto simp: st_is_def)

lemma st_push:
  assumes "st_is l lo full L R st" "1 \<le> k" "k \<le> 8"
  shows "st_is l lo full (L(k := \<lparr>lb_entries = lb_entries (L k) @ [e], lb_effective = lb_effective (L k) + (if par then 0 else 1)\<rparr>)) R
    (push_entry k par e st)"
  using assms by (auto simp: st_is_def push_entry_def Let_def nth_list_update)

lemma st_level:
  assumes "st_is l lo full L R st" "1 \<le> k" "k \<le> 8"
  shows "st_is l lo full (L(k := b)) R (st\<lparr>ec_levels := (ec_levels st)[k := b]\<rparr>)"
  using assms by (auto simp: st_is_def nth_list_update)

lemma st_shards:
  assumes "st_is l lo full L R st" "1 \<le> k" "k \<le> 8"
  shows "st_is l lo full L (R(k := b)) (st\<lparr>ec_rs_buf := (ec_rs_buf st)[k - 1 := b]\<rparr>)"
proof -
  have "(ec_rs_buf st)[k - 1 := b] ! (j - 1) = (if j = k then b else ec_rs_buf st ! (j - 1))" if "1 \<le> j" "j \<le> 8" for j
    using assms that by (auto simp: st_is_def nth_list_update)
  then show ?thesis using assms by (auto simp: st_is_def)
qed

lemma st_full: "st_is l lo full L R st \<Longrightarrow> st_is l lo True L R (st\<lparr>ec_full := True\<rparr>)"
  by (simp add: st_is_def)

lemma st_later: "st_is l lo full L R st \<Longrightarrow> lo \<le> lo' \<Longrightarrow> st_is l lo' full L R st"
  by (auto simp: st_is_def)

section \<open>Emitted chunks\<close>

definition emitted :: "bmt \<Rightarrow> bytes \<Rightarrow> bool \<Rightarrow> encoder \<Rightarrow> encoder" where
  "emitted bmt w par st =
     (if ref_of bmt w \<in> ec_seen st then st
      else st\<lparr>ec_seen := insert (ref_of bmt w) (ec_seen st), ec_out := ec_out st @ [(ref_of bmt w, w)],
              ec_parity_chunks := ec_parity_chunks st + (if par then 1 else 0)\<rparr>)"

definition addressed :: "bytes \<Rightarrow> bool" where
  "addressed w = (8 \<le> length w \<and> length w \<le> SHARD)"

lemma addressed_address: "addressed w \<Longrightarrow> wire_address bmt w = Some (ref_of bmt w)"
  by (auto simp: addressed_def wire_address_def SPAN_SIZE_def CHUNK_SIZE_def)

lemma emit_eq: "addressed w \<Longrightarrow> emit bmt w par st = Inr (emitted bmt w par st, ref_of bmt w)"
proof -
  assume "addressed w"
  then obtain a where "wire_address bmt w = Some a" using addressed_address by blast
  then show ?thesis by (simp add: emit_def emitted_def)
qed

lemma st_emit: "st_is l lo full L R st \<Longrightarrow> st_is l lo full L R (emitted bmt w par st)"
  by (simp add: st_is_def emitted_def)

definition out_is :: "bmt \<Rightarrow> bytes set \<Rightarrow> encoder \<Rightarrow> bool" where
  "out_is bmt E st =
     (ec_seen st = fst ` set (ec_out st) \<and> distinct (map fst (ec_out st)) \<and>
      (\<forall>(a, w) \<in> set (ec_out st). a = ref_of bmt w \<and> w \<in> E) \<and> ref_of bmt ` E \<subseteq> ec_seen st)"

lemma out_emit: "out_is bmt E st \<Longrightarrow> out_is bmt (insert w E) (emitted bmt w par st)"
  by (auto simp: out_is_def emitted_def)

lemma out_same: "ec_out st' = ec_out st \<Longrightarrow> ec_seen st' = ec_seen st \<Longrightarrow> out_is bmt E st' = out_is bmt E st"
  by (simp add: out_is_def)

lemma push_entry_out [simp]: "ec_out (push_entry k par e st) = ec_out st" "ec_seen (push_entry k par e st) = ec_seen st"
  by (simp_all add: push_entry_def Let_def)

section \<open>Parities\<close>

fun put_parities :: "bmt \<Rightarrow> nat \<Rightarrow> bytes list \<Rightarrow> encoder \<Rightarrow> encoder" where
  "put_parities bmt k [] st = st"
| "put_parities bmt k (p # ps) st =
     put_parities bmt k ps
       (push_entry k True \<lparr>en_span = from_le_bytes (take SPAN_SIZE p), en_reference = ref_of bmt p\<rparr> (emitted bmt p True st))"

definition parity_entries :: "bmt \<Rightarrow> bytes list \<Rightarrow> entry list" where
  "parity_entries bmt ps = map (\<lambda>p. \<lparr>en_span = from_le_bytes (take SPAN_SIZE p), en_reference = ref_of bmt p\<rparr>) ps"

lemma put_parities_st:
  assumes "1 \<le> k" "k \<le> 8"
  shows "st_is l lo full L R st \<Longrightarrow>
    st_is l lo full (L(k := \<lparr>lb_entries = lb_entries (L k) @ parity_entries bmt ps, lb_effective = lb_effective (L k)\<rparr>)) R
      (put_parities bmt k ps st)"
proof (induction ps arbitrary: L st)
  case Nil
  have "L(k := \<lparr>lb_entries = lb_entries (L k) @ parity_entries bmt [], lb_effective = lb_effective (L k)\<rparr>) = L"
    by (simp add: parity_entries_def fun_upd_idem)
  then show ?case using Nil by simp
next
  case (Cons p ps)
  show ?case
    using Cons.IH [OF st_push [OF st_emit [OF Cons.prems, of bmt p True] assms, of
      "\<lparr>en_span = from_le_bytes (take SPAN_SIZE p), en_reference = ref_of bmt p\<rparr>" True]]
    by (simp add: parity_entries_def fun_upd_same del: fun_upd_apply)
qed

lemma put_parities_out: "out_is bmt E st \<Longrightarrow> out_is bmt (E \<union> set ps) (put_parities bmt k ps st)"
proof (induction ps arbitrary: E st)
  case (Cons p ps)
  let ?st = "push_entry k True \<lparr>en_span = from_le_bytes (take SPAN_SIZE p), en_reference = ref_of bmt p\<rparr> (emitted bmt p True st)"
  have "out_is bmt (insert p E) ?st" using out_emit [OF Cons.prems] by (simp add: out_same [of ?st "emitted bmt p True st"])
  then show ?case using Cons.IH by fastforce
qed simp

lemma write_parities_eq:
  assumes k: "1 \<le> k" "k \<le> 8"
  shows "st_is l lo full L R st \<Longrightarrow> \<forall>p \<in> set ps. addressed p \<Longrightarrow>
    length (lb_entries (L k)) + length ps \<le> max_shards l + parities l (max_shards l) \<Longrightarrow>
    write_parities bmt (k - 1) ps st =
      (if ps \<noteq> [] \<and> length (lb_entries (L k)) + length ps = max_shards l + parities l (max_shards l)
       then wrap_level bmt k (put_parities bmt k ps st) else Inr (put_parities bmt k ps st))"
proof (induction ps arbitrary: L st)
  case (Cons p ps)
  let ?e = "\<lparr>en_span = from_le_bytes (take SPAN_SIZE p), en_reference = ref_of bmt p\<rparr>"
  let ?st = "push_entry k True ?e (emitted bmt p True st)"
  let ?L = "L(k := \<lparr>lb_entries = lb_entries (L k) @ [?e], lb_effective = lb_effective (L k)\<rparr>)"
  have st: "st_is l lo full ?L R ?st" using st_push [OF st_emit [OF Cons.prems(1), of bmt p True] k, of ?e True] by simp
  have e: "emit bmt p True st = Inr (emitted bmt p True st, ref_of bmt p)" using emit_eq Cons.prems(2) by simp
  have len: "length (lb_entries (ec_levels ?st ! k)) = Suc (length (lb_entries (L k)))" "ec_max_children ?st = max_shards l + parities l (max_shards l)"
    using st_isD(8) [OF st k] st_isD(3) [OF st] by simp_all
  have w: "write_to_level bmt k True (en_span ?e) (ref_of bmt p) (emitted bmt p True st) =
      (if Suc (length (lb_entries (L k))) = max_shards l + parities l (max_shards l) then wrap_level bmt k ?st else Inr ?st)"
    using k len by (simp add: write_to_level.simps Let_def MAX_LEVEL_def)
  have k1: "k - 1 + 1 = k" using k by simp
  show ?case
  proof (cases ps)
    case Nil
    then show ?thesis using e w k1 by (simp split: sum.split)
  next
    case (Cons q qs)
    then have "Suc (length (lb_entries (L k))) \<noteq> max_shards l + parities l (max_shards l)" using Cons.prems(3) by simp
    then show ?thesis
      using Cons.IH [OF st] Cons.prems(2,3) e w k1 Cons by simp
  qed
qed simp

lemma pad_resize: "length w \<le> SHARD \<Longrightarrow> resize_shard w = pad w"
  by (simp add: resize_shard_def pad_def CHUNK_WITH_SPAN_def)

lemma rs_encode_eq:
  assumes st: "st_is l lo full L R st" and k: "lo \<le> k" "k \<le> 8" and l: "l \<noteq> LNone" and R: "R k = map pad ws"
    and ws: "1 \<le> length ws" "length ws \<le> max_shards l" "\<forall>w \<in> set ws. addressed w" and p: "parities l (length ws) \<noteq> 0"
  shows "rs_encode bmt (k - 1) st = write_parities bmt (k - 1) (parity_wires l ws) (st\<lparr>ec_rs_buf := (ec_rs_buf st)[k - 1 := []]\<rparr>)"
proof -
  let ?e = "length ws" and ?p = "parities l (length ws)"
  have b: "ec_rs_buf st ! (k - 1) = map pad ws" using st_isD(9) [OF st l k] R by simp
  obtain rs where rs: "rs_new ?e ?p = Inr rs" "data_shards rs = ?e" "parity_shards rs = ?p" "total_shards rs = ?e + ?p"
    using node_rs [OF ws(1,2)] rs_new_ok by metis
  have "encode rs (map pad ws @ replicate ?p (replicate SHARD 0)) = Inr (map (encoded rs (map pad ws) SHARD) [0..<?e + ?p])"
    using ws length_pad by (intro encode_shards [OF rs(2,3,4)]) (auto simp: addressed_def)
  moreover from this have "parity_wires l ws = drop ?e (map (encoded rs (map pad ws) SHARD) [0..<?e + ?p])"
    using rs(1) by (simp add: parity_wires_def Let_def)
  moreover have "ws \<noteq> []" "k - 1 < 8" using ws(1) k st_isD(7) [OF st] by auto
  ultimately show ?thesis
    using b rs(1) p l st_isD(1) [OF st] by (simp add: rs_encode.simps Let_def MAX_LEVEL_def CHUNK_WITH_SPAN_def)
qed

unbundle bit_operations_syntax

section \<open>The chunk of a wrapped level\<close>

lemma nat_le_mod: "nat_le k (n mod 256 ^ k) = nat_le k n"
  by (metis le_nat_nat_le length_nat_le nat_le_le_nat)

lemma nat_le_high: "nat_le k (n + 256 ^ k * c) = nat_le k n"
  by (metis nat_le_mod mod_mult_self2)

lemma nat_le_8_update: "(nat_le 8 n)[7 := b] = nat_le 7 n @ [b]"
proof -
  have "nat_le (Suc 7) n = nat_le 7 n @ [of_nat (n div 256 ^ 7)]" by (rule nat_le_snoc)
  then have "nat_le 8 n = nat_le 7 n @ [of_nat (n div 256 ^ 7)]" by (simp only: Suc_numeral semiring_norm)
  then show ?thesis by (simp add: list_update_append)
qed

lemma span_raw:
  assumes "tree_ok l t"
  shows "\<exists>c. en_span (entry_of bmt l t) = of_nat (tree_len t + 2 ^ 56 * c) \<and> (l = LNone \<longrightarrow> c = 0)"
proof (cases t)
  case (CLeaf d)
  then have "le_nat (nat_le 8 (length d)) = length d" using tree_len_bound [OF assms] by (simp add: le_nat_nat_le)
  then show ?thesis using CLeaf by (intro exI [of _ 0]) (simp add: entry_of_def SPAN_SIZE_def from_le_bytes_def)
next
  case (CNode ts)
  let ?n = "tree_len (CNode ts)"
  have n: "?n < 2 ^ 56" using tree_len_bound [OF assms] CNode by simp
  have w: "take SPAN_SIZE (tree_wire bmt l t) = node_span l ?n" unfolding CNode tree_wire_node by (simp add: SPAN_SIZE_def)
  show ?thesis
  proof (cases "l = LNone")
    case True
    then show ?thesis using w n CNode by (intro exI [of _ 0]) (simp add: entry_of_def node_span_def from_le_bytes_def le_nat_nat_le)
  next
    case False
    then have "le_nat (node_span l ?n) = ?n + 2 ^ 56 * unat (level_u8 l OR 0x80)"
      using n by (simp add: node_span_def le_nat_append le_nat_nat_le)
    then show ?thesis using w False CNode by (intro exI [of _ "unat (level_u8 l OR 0x80)"]) (simp add: entry_of_def from_le_bytes_def)
  qed
qed

lemma span_sum:
  assumes "\<forall>t \<in> set ts. tree_ok l t"
  shows "\<exists>c. foldl (\<lambda>acc e. acc + en_span e) (of_nat n) (map (entry_of bmt l) ts) =
    (of_nat (n + tree_len (CNode ts) + 2 ^ 56 * c) :: u64) \<and> (l = LNone \<longrightarrow> c = 0)"
  using assms
proof (induction ts arbitrary: n)
  case (Cons t ts)
  obtain c where c: "en_span (entry_of bmt l t) = of_nat (tree_len t + 2 ^ 56 * c)" "l = LNone \<longrightarrow> c = 0" using span_raw Cons.prems by fastforce
  obtain c' where c': "foldl (\<lambda>acc e. acc + en_span e) (of_nat (n + (tree_len t + 2 ^ 56 * c))) (map (entry_of bmt l) ts) =
      (of_nat (n + (tree_len t + 2 ^ 56 * c) + tree_len (CNode ts) + 2 ^ 56 * c') :: u64)" "l = LNone \<longrightarrow> c' = 0"
    using Cons.IH [of "n + (tree_len t + 2 ^ 56 * c)"] Cons.prems by auto
  have "foldl (\<lambda>acc e. acc + en_span e) (of_nat n) (map (entry_of bmt l) (t # ts)) =
      foldl (\<lambda>acc e. acc + en_span e) (of_nat (n + (tree_len t + 2 ^ 56 * c))) (map (entry_of bmt l) ts)"
    using c(1) by simp
  also have "\<dots> = of_nat (n + tree_len (CNode (t # ts)) + 2 ^ 56 * (c + c'))"
    unfolding c'(1) by (rule arg_cong [of _ _ of_nat]) (simp add: algebra_simps)
  finally show ?case using c(2) c'(2) by (intro exI [of _ "c + c'"]) simp
qed (simp add: exI [of _ 0])

lemma parities_pos: "l \<noteq> LNone \<Longrightarrow> 1 \<le> e \<Longrightarrow> 0 < parities l e"
  by (cases l) (auto simp: parities_def tables)

lemma node_wire_tree:
  assumes t: "tree_ok l (CNode ts)" and pes: "map en_reference pes = map (ref_of bmt) (parity_wires l (map (tree_wire bmt l) ts))"
    "length pes = parities l (length ts)"
  shows "node_wire l (map (entry_of bmt l) ts @ pes) (length ts) = tree_wire bmt l (CNode ts)"
proof -
  let ?n = "tree_len (CNode ts)"
  have n: "?n < 2 ^ 56" using tree_len_bound [OF t] .
  obtain c where c: "foldl (\<lambda>acc e. acc + en_span e) (of_nat 0) (map (entry_of bmt l) ts) = (of_nat (0 + ?n + 2 ^ 56 * c) :: u64)"
      "l = LNone \<longrightarrow> c = 0"
    using span_sum [of ts l 0 bmt] t by auto
  have gen: "to_le_bytes 8 (of_nat N :: u64) = nat_le 8 N" for N
    using nat_le_mod [of 8 N] by (simp add: to_le_bytes_def unat_of_nat)
  have sp: "to_le_bytes 8 (foldl (\<lambda>acc e. acc + en_span e) (0 :: u64) (map (entry_of bmt l) ts)) = nat_le 8 (?n + 2 ^ 56 * c)"
  proof -
    have "(of_nat 0 :: u64) = 0" "0 + ?n + 2 ^ 56 * c = ?n + 2 ^ 56 * c" by simp_all
    then show ?thesis using c(1) gen [of "?n + 2 ^ 56 * c"] by metis
  qed
  have p: "0 < parities l (length ts) \<longleftrightarrow> l \<noteq> LNone" using parities_pos [of l "length ts"] t by (auto simp: parities_def)
  have "(if 0 < parities l (length ts) then (nat_le 8 (?n + 2 ^ 56 * c))[SPAN_SIZE - 1 := level_u8 l OR 0x80] else nat_le 8 (?n + 2 ^ 56 * c)) =
      node_span l ?n"
    using c(2) nat_le_high [of 7 ?n c] unfolding p by (simp add: node_span_def SPAN_SIZE_def nat_le_8_update)
  moreover have "concat (map en_reference (map (entry_of bmt l) ts @ pes)) = concat (map (ref_of bmt) (siblings bmt l ts))"
    using pes(1) by (simp add: entry_of_def siblings_def Let_def o_def)
  moreover have "node_wire l (map (entry_of bmt l) ts @ pes) (length ts) =
      (let sp = to_le_bytes 8 (foldl (\<lambda>acc e. acc + en_span e) (0 :: u64) (map (entry_of bmt l) ts))
       in if 0 < parities l (length ts) then sp[SPAN_SIZE - 1 := level_u8 l OR 0x80] else sp) @
      concat (map en_reference (map (entry_of bmt l) ts @ pes))"
    using pes(2) by (simp add: node_wire_def Let_def)
  ultimately show ?thesis unfolding tree_wire_node sp Let_def by simp
qed


lemma node_partial: "1 \<le> e \<Longrightarrow> e < max_shards l \<Longrightarrow> l \<noteq> LNone \<Longrightarrow> e + parities l e < 128"
  by (cases l) (auto simp: max_shards_eq parities_def tables split: if_splits)

section \<open>The shape of the trees\<close>

text \<open>A tree of height at most \<open>k\<close> that spans all the bytes such a tree can, or some of them.\<close>

definition capacity :: "level \<Rightarrow> nat \<Rightarrow> nat" where
  "capacity l k = 4096 * max_shards l ^ (k - 1)"

definition part :: "level \<Rightarrow> nat \<Rightarrow> ctree \<Rightarrow> bool" where
  "part l k t = (tree_ok l t \<and> tree_len t \<le> capacity l k \<and> height t \<le> k)"

definition complete :: "level \<Rightarrow> nat \<Rightarrow> ctree \<Rightarrow> bool" where
  "complete l k t = (part l k t \<and> tree_len t = capacity l k)"

lemma capacity_Suc: "1 \<le> k \<Longrightarrow> capacity l (Suc k) = max_shards l * capacity l k"
  by (cases k) (simp_all add: capacity_def)

lemma capacity_pos: "4096 \<le> capacity l k"
proof -
  have "max_shards l \<ge> 2" using max_shards_bounds by blast
  then have "1 \<le> max_shards l ^ (k - 1)" by (metis one_le_numeral one_le_power order_trans)
  then show ?thesis by (simp add: capacity_def)
qed

lemma complete_len: "\<forall>x \<in> set xs. complete l k x \<Longrightarrow> length (concat (map tree_data xs)) = length xs * capacity l k"
  by (induction xs) (auto simp: complete_def)

lemma complete_some:
  assumes "\<forall>x \<in> set xs. complete l k x" "xs \<noteq> []"
  shows "capacity l k \<le> length (concat (map tree_data xs))"
proof -
  have "1 * capacity l k \<le> length xs * capacity l k" using assms(2) by (intro mult_le_mono1) (simp add: Suc_le_eq)
  then show ?thesis using complete_len [OF assms(1)] by simp
qed

lemma height_node: "\<forall>x \<in> set xs. height x \<le> k \<Longrightarrow> height (CNode xs) \<le> Suc k"
  by (induction xs) auto

lemma power_shards: "k \<le> 7 \<Longrightarrow> 4096 * max_shards l ^ k < 2 ^ 64"
proof -
  assume k: "k \<le> 7"
  have "max_shards l ^ k \<le> 128 ^ k" using max_shards_bounds power_mono by blast
  also have "\<dots> \<le> (128 :: nat) ^ 7" using k by (rule power_increasing) simp
  finally show ?thesis by simp
qed

lemma node_part:
  assumes k: "1 \<le> k" "k \<le> 7" and xs: "\<forall>x \<in> set xs. complete l k x" "xs \<noteq> []" and t: "part l k t" "0 < tree_len t"
    and e: "Suc (length xs) \<le> max_shards l" and small: "tree_len (CNode (xs @ [t])) < 2 ^ 56"
  shows "part l (Suc k) (CNode (xs @ [t])) \<and> (complete l k t \<and> Suc (length xs) = max_shards l \<longrightarrow> complete l (Suc k) (CNode (xs @ [t])))"
proof -
  let ?n = "tree_len (CNode (xs @ [t]))" and ?e = "Suc (length xs)" and ?c = "capacity l k"
  have n: "?n = length xs * ?c + tree_len t" using complete_len [OF xs(1)] by simp
  have t': "tree_len t \<le> ?c" using t(1) by (simp add: part_def)
  have x1: "1 \<le> length xs" using xs(2) by (cases xs) auto
  then have "?c \<le> length xs * ?c" by (cases "length xs") auto
  then have big: "?c < ?n" using n t(2) by linarith
  have "unat (of_nat N :: u64) = N" if "N < 2 ^ 56" for N using that by (simp add: unat_of_nat)
  from this [OF small] have u: "unat (of_nat ?n :: u64) = ?n" .
  have hi: "?n \<le> ?e * ?c" using n t' by simp
  have rc: "reference_count (of_nat ?n) l = Some (?e, parities l ?e)"
  proof (rule reference_count_eq [of "max_shards l" l ?e k])
    show "?e \<noteq> 1 \<longrightarrow> (?e - 1) * (4096 * max_shards l ^ (k - 1)) < unat (of_nat ?n :: u64)"
      unfolding u using n t(2) by (simp add: capacity_def)
    show "unat (of_nat ?n :: u64) \<le> ?e * (4096 * max_shards l ^ (k - 1))" unfolding u using hi by (simp add: capacity_def)
    show "k \<noteq> 0 \<longrightarrow> 4096 * max_shards l ^ (k - 1) < unat (of_nat ?n :: u64)" unfolding u using big by (simp add: capacity_def)
    show "4096 * max_shards l ^ k < 2 ^ 64" using power_shards [OF k(2)] .
  qed (use e k in auto)
  have cs: "tree_ok l (CNode (xs @ [t]))"
    using rc e x1 xs(1) t(1) small big capacity_pos [of l k] by (auto simp: complete_def part_def CHUNK_SIZE_def)
  have "\<forall>x \<in> set (xs @ [t]). height x \<le> k" using xs(1) t(1) by (auto simp: complete_def part_def)
  then have h: "height (CNode (xs @ [t])) \<le> Suc k" by (rule height_node)
  have "?e * ?c \<le> capacity l (Suc k)" unfolding capacity_Suc [OF k(1)] using e by (rule mult_le_mono1)
  then have "?n \<le> capacity l (Suc k)" using hi by linarith
  then have p: "part l (Suc k) (CNode (xs @ [t]))" using cs h by (simp only: part_def)
  have "?n = capacity l (Suc k)" if "complete l k t" "?e = max_shards l"
  proof -
    have "?n = ?e * ?c" using n that(1) by (simp add: complete_def)
    then show ?thesis using that(2) capacity_Suc [OF k(1)] by simp
  qed
  then show ?thesis using p by (simp only: complete_def) blast
qed

section \<open>Adding a tree to the forest\<close>

function up :: "level \<Rightarrow> nat \<Rightarrow> ctree \<Rightarrow> forest \<Rightarrow> forest" where
  "up l k t F =
     (if Suc (length (F k)) = max_shards l \<and> k \<le> 8 then up l (Suc k) (CNode (F k @ [t])) (F(k := []))
      else F(k := F k @ [t]))"
  by pat_completeness auto
termination by (relation "measure (\<lambda>(l, k, t, F). 9 - k)") auto

declare up.simps [simp del]

fun tree_wires :: "bmt \<Rightarrow> level \<Rightarrow> ctree \<Rightarrow> bytes set" where
  "tree_wires bmt l (CLeaf d) = {tree_wire bmt l (CLeaf d)}"
| "tree_wires bmt l (CNode ts) =
     {tree_wire bmt l (CNode ts)} \<union> set (siblings bmt l ts) \<union> (\<Union>t \<in> set ts. tree_wires bmt l t)"

definition forest_wires :: "bmt \<Rightarrow> level \<Rightarrow> forest \<Rightarrow> bytes set" where
  "forest_wires bmt l F = (\<Union>k \<in> {1..8}. \<Union>t \<in> set (F k). tree_wires bmt l t)"

definition forest_data :: "forest \<Rightarrow> bytes" where
  "forest_data F = concat (map (\<lambda>k. concat (map tree_data (F k))) (rev [1..<9]))"

definition data_from :: "nat \<Rightarrow> forest \<Rightarrow> nat" where
  "data_from k F = (\<Sum>j \<in> {k..8}. length (concat (map tree_data (F j))))"

lemma wire_in_wires: "tree_wire bmt l t \<in> tree_wires bmt l t"
  by (cases t) auto

text \<open>What makes it right to add a tree at level \<open>k\<close>: the levels from there on hold complete trees and have room.\<close>

definition addable :: "level \<Rightarrow> nat \<Rightarrow> ctree \<Rightarrow> forest \<Rightarrow> bool" where
  "addable l k t F =
     (1 \<le> k \<and> k \<le> 8 \<and> part l k t \<and> F 8 = [] \<and> data_from k F + tree_len t < 2 ^ 56 \<and>
      (\<forall>j \<in> {k..8}. length (F j) < max_shards l \<and> (\<forall>x \<in> set (F j). complete l j x)) \<and>
      (0 < tree_len t \<or> (\<forall>j \<in> {k..8}. F j = [])))"

lemma data_from_split: "k \<le> 8 \<Longrightarrow> data_from k F = length (concat (map tree_data (F k))) + data_from (Suc k) F"
  by (simp add: data_from_def sum.atLeast_Suc_atMost)

lemma data_from_upd: "j < k \<Longrightarrow> data_from k (F(j := x)) = data_from k F"
  unfolding data_from_def by (rule sum.cong) auto

lemma addable_wrap:
  assumes a: "addable l k t F" and w: "Suc (length (F k)) = max_shards l"
  shows "k \<le> 7" "tree_ok l (CNode (F k @ [t]))" "addable l (Suc k) (CNode (F k @ [t])) (F(k := []))"
    "complete l k t \<Longrightarrow> complete l (Suc k) (CNode (F k @ [t]))"
proof -
  have m: "2 \<le> max_shards l" using max_shards_bounds by blast
  then have ne: "F k \<noteq> []" using w by auto
  then show k7: "k \<le> 7" using a by (cases "k = 8") (auto simp: addable_def)
  have k: "1 \<le> k" "part l k t" "\<forall>x \<in> set (F k). complete l k x" using a k7 by (auto simp: addable_def)
  have pos: "0 < tree_len t" using a ne k7 by (auto simp: addable_def)
  have sum: "data_from k F = length (concat (map tree_data (F k))) + data_from (Suc k) F" using data_from_split k7 by simp
  have small: "tree_len (CNode (F k @ [t])) + data_from (Suc k) F < 2 ^ 56" using a sum by (simp add: addable_def)
  have n: "part l (Suc k) (CNode (F k @ [t])) \<and> (complete l k t \<and> Suc (length (F k)) = max_shards l \<longrightarrow> complete l (Suc k) (CNode (F k @ [t])))"
    using small w by (intro node_part [OF k(1) k7 k(3) ne k(2) pos]) linarith+
  then show "tree_ok l (CNode (F k @ [t]))" "complete l k t \<Longrightarrow> complete l (Suc k) (CNode (F k @ [t]))" using w by (simp_all add: part_def)
  show "addable l (Suc k) (CNode (F k @ [t])) (F(k := []))"
    using a n small pos k7 data_from_upd [of k "Suc k" F "[]"] unfolding addable_def by (auto simp: add.commute)
qed

section \<open>The encoder adds trees\<close>

definition sim :: "bmt \<Rightarrow> level \<Rightarrow> nat \<Rightarrow> forest \<Rightarrow> encoder \<Rightarrow> bool" where
  "sim bmt l lo F st =
     (\<exists>full. (full \<longrightarrow> F 8 \<noteq> []) \<and> st_is l lo full (\<lambda>j. buf_of bmt l (F j)) (\<lambda>j. shards_of bmt l (F j)) st)"

text \<open>A reference written to a level, and its chunk to the redundancy buffer of the level.\<close>

definition add_ref :: "bmt \<Rightarrow> nat \<Rightarrow> u64 \<Rightarrow> bytes \<Rightarrow> bytes \<Rightarrow> encoder \<Rightarrow> encode_error + encoder" where
  "add_ref bmt k sp reference wire st =
     (case write_to_level bmt k False sp reference st of Inl e \<Rightarrow> Inl e | Inr st1 \<Rightarrow> chunk_write bmt (k - 1) wire st1)"

abbreviation add_tree :: "bmt \<Rightarrow> level \<Rightarrow> nat \<Rightarrow> ctree \<Rightarrow> encoder \<Rightarrow> encode_error + encoder" where
  "add_tree bmt l k t st \<equiv> add_ref bmt k (en_span (entry_of bmt l t)) (en_reference (entry_of bmt l t)) (tree_wire bmt l t) st"

definition added :: "bmt \<Rightarrow> level \<Rightarrow> nat \<Rightarrow> forest \<Rightarrow> encode_error + encoder \<Rightarrow> bool" where
  "added bmt l lo F r = (\<exists>st. r = Inr st \<and> sim bmt l lo F st \<and> out_is bmt (forest_wires bmt l F) st)"

definition add_ok :: "bmt \<Rightarrow> level \<Rightarrow> nat \<Rightarrow> nat \<Rightarrow> bool" where
  "add_ok bmt l lo k =
     (\<forall>t F st. addable l k t F \<longrightarrow> sim bmt l lo F st \<longrightarrow> out_is bmt (forest_wires bmt l F \<union> tree_wires bmt l t) st \<longrightarrow>
        added bmt l lo (up l k t F) (add_tree bmt l k t st))"

lemma tree_addressed: "hash_ok bmt \<Longrightarrow> tree_ok l t \<Longrightarrow> addressed (tree_wire bmt l t)"
  using wire_sizes by (simp add: addressed_def)

lemma out_frame [simp]:
  "out_is bmt E (st\<lparr>ec_levels := x\<rparr>) = out_is bmt E st" "out_is bmt E (st\<lparr>ec_rs_buf := y\<rparr>) = out_is bmt E st"
  "out_is bmt E (st\<lparr>ec_full := b\<rparr>) = out_is bmt E st" "out_is bmt E (push_entry k par e st) = out_is bmt E st"
  by (simp_all add: out_is_def)

lemma up_top: "F 8 = [] \<Longrightarrow> up l 8 t F = F(8 := [t])"
  using max_shards_bounds [of l] by (simp add: up.simps [of l 8])

text \<open>A level that holds the references of a node's children and of their parities wraps into the node.\<close>

lemma wrap_level_ok:
  assumes h: "hash_ok bmt" and IH: "add_ok bmt l lo (Suc k)" and k: "1 \<le> k" "k \<le> 7"
    and t: "tree_ok l (CNode ts)" and a: "addable l (Suc k) (CNode ts) (F(k := []))"
    and st: "st_is l lo full L R st" and full: "full \<longrightarrow> F 8 \<noteq> []"
    and L: "\<And>j. j \<noteq> k \<Longrightarrow> L j = buf_of bmt l (F j)"
    and Lk: "L k = \<lparr>lb_entries = map (entry_of bmt l) ts @ parity_entries bmt (parity_wires l (map (tree_wire bmt l) ts)), lb_effective = length ts\<rparr>"
    and R: "\<And>j. lo \<le> j \<Longrightarrow> l \<noteq> LNone \<Longrightarrow> R j = shards_of bmt l ((F(k := [])) j)"
    and out: "out_is bmt E st" "insert (tree_wire bmt l (CNode ts)) E = forest_wires bmt l (F(k := [])) \<union> tree_wires bmt l (CNode ts)"
  shows "added bmt l lo (up l (Suc k) (CNode ts) (F(k := []))) (wrap_level bmt k st)"
proof -
  let ?ws = "map (tree_wire bmt l) ts" and ?w = "tree_wire bmt l (CNode ts)"
  have sz: "\<forall>w \<in> set ?ws. length w \<le> SHARD" using wire_sizes [OF h] t by auto
  have pl: "length (parity_wires l ?ws) = parities l (length ts)" using parity_wires_sizes [of ?ws l] sz t by auto
  have b: "ec_levels st ! k = L k" using st_isD(8) [OF st] k by simp
  have node: "node_wire l (lb_entries (L k)) (lb_effective (L k)) = ?w"
    unfolding Lk using node_wire_tree [OF t] pl by (simp add: parity_entries_def o_def)
  define st1 where "st1 = st\<lparr>ec_levels := (ec_levels st)[k := \<lparr>lb_entries = [], lb_effective = 0\<rparr>]\<rparr>"
  define st2 where "st2 = emitted bmt ?w False st1"
  have e: "emit bmt ?w False st1 = Inr (st2, ref_of bmt ?w)" unfolding st2_def by (rule emit_eq [OF tree_addressed [OF h t]])
  have "L(k := \<lparr>lb_entries = [], lb_effective = 0\<rparr>) = (\<lambda>j. buf_of bmt l ((F(k := [])) j))" using L by (auto simp: buf_of_def)
  then have st1: "st_is l lo full (\<lambda>j. buf_of bmt l ((F(k := [])) j)) R st1"
    using st_level [OF st, of k "\<lparr>lb_entries = [], lb_effective = 0\<rparr>"] k unfolding st1_def by simp
  then have "st_is l lo full (\<lambda>j. buf_of bmt l ((F(k := [])) j)) (\<lambda>j. shards_of bmt l ((F(k := [])) j)) st1"
    using R unfolding st_is_def by auto
  then have sim2: "sim bmt l lo (F(k := [])) st2" using full k st_emit unfolding st2_def sim_def by fastforce
  have "out_is bmt E st1" using out(1) by (simp add: st1_def)
  then have out2: "out_is bmt (forest_wires bmt l (F(k := [])) \<union> tree_wires bmt l (CNode ts)) st2"
    using out_emit out(2) unfolding st2_def by metis
  obtain st3 where st3: "add_tree bmt l (Suc k) (CNode ts) st2 = Inr st3" "sim bmt l lo (up l (Suc k) (CNode ts) (F(k := []))) st3"
      "out_is bmt (forest_wires bmt l (up l (Suc k) (CNode ts) (F(k := [])))) st3"
    using IH a sim2 out2 unfolding add_ok_def added_def by blast
  define st4 where "st4 = (if k + 1 = MAX_LEVEL then st3\<lparr>ec_full := True\<rparr> else st3)"
  obtain st' where parts: "write_to_level bmt (Suc k) False (from_le_bytes (take SPAN_SIZE ?w)) (ref_of bmt ?w) st2 = Inr st'"
      "chunk_write bmt k ?w st' = Inr st3"
    using st3(1) by (auto simp: add_ref_def entry_of_def simp del: tree_wire.simps split: sum.splits)
  have run: "wrap_level bmt k st = Inr st4"
    using parts e node b st_isD(1) [OF st] k
    by (simp add: wrap_level.simps Let_def MAX_LEVEL_def st4_def del: tree_wire.simps flip: st1_def)
  have top: "k + 1 = MAX_LEVEL \<Longrightarrow> up l (Suc k) (CNode ts) (F(k := [])) 8 \<noteq> []"
    using up_top [of "F(k := [])" l "CNode ts"] a by (simp add: MAX_LEVEL_def addable_def)
  have "sim bmt l lo (up l (Suc k) (CNode ts) (F(k := []))) st4"
    using st3(2) top st_full unfolding sim_def st4_def by (cases "k + 1 = MAX_LEVEL") (simp, blast, simp)
  moreover have "out_is bmt (forest_wires bmt l (up l (Suc k) (CNode ts) (F(k := [])))) st4" using st3(3) unfolding st4_def by auto
  ultimately show ?thesis using run unfolding added_def by blast
qed

lemma forest_wires_clear:
  assumes "1 \<le> k" "k \<le> 8"
  shows "forest_wires bmt l F = forest_wires bmt l (F(k := [])) \<union> (\<Union>t \<in> set (F k). tree_wires bmt l t)"
  using assms unfolding forest_wires_def by (fastforce split: if_splits)

lemma forest_wires_put:
  assumes "1 \<le> k" "k \<le> 8"
  shows "forest_wires bmt l (F(k := F k @ [t])) = forest_wires bmt l F \<union> tree_wires bmt l t"
  using assms unfolding forest_wires_def by (fastforce split: if_splits)

lemma buf_of_snoc: "\<lparr>lb_entries = lb_entries (buf_of bmt l ts) @ [entry_of bmt l t], lb_effective = lb_effective (buf_of bmt l ts) + 1\<rparr> = buf_of bmt l (ts @ [t])"
  by (simp add: buf_of_def)

lemma shards_of_snoc: "shards_of bmt l ts @ [pad (tree_wire bmt l t)] = shards_of bmt l (ts @ [t])"
  by (simp add: shards_of_def)

lemma fun_upd_comp_buf: "(\<lambda>j. buf_of bmt l (F j))(k := buf_of bmt l ts) = (\<lambda>j. buf_of bmt l ((F(k := ts)) j))"
  "(\<lambda>j. shards_of bmt l (F j))(k := shards_of bmt l ts) = (\<lambda>j. shards_of bmt l ((F(k := ts)) j))"
  by auto

text \<open>The reference and, where there is redundancy, the shard of a tree in their buffers.\<close>

definition put_ref :: "bmt \<Rightarrow> level \<Rightarrow> nat \<Rightarrow> ctree \<Rightarrow> encoder \<Rightarrow> encoder" where
  "put_ref bmt l k t st = push_entry k False (entry_of bmt l t) st"

definition put_shard :: "bmt \<Rightarrow> level \<Rightarrow> nat \<Rightarrow> ctree \<Rightarrow> encoder \<Rightarrow> encoder" where
  "put_shard bmt l k t st = st\<lparr>ec_rs_buf := (ec_rs_buf st)[k - 1 := ec_rs_buf st ! (k - 1) @ [pad (tree_wire bmt l t)]]\<rparr>"

lemma st_put_ref:
  assumes "st_is l lo full (\<lambda>j. buf_of bmt l (F j)) R st" "1 \<le> k" "k \<le> 8"
  shows "st_is l lo full (\<lambda>j. buf_of bmt l ((F(k := F k @ [t])) j)) R (put_ref bmt l k t st)"
  using st_push [OF assms, of "entry_of bmt l t" False] unfolding put_ref_def
  by (simp only: if_False buf_of_snoc fun_upd_comp_buf)

lemma st_put_shard:
  assumes "st_is l lo full L (\<lambda>j. shards_of bmt l (F j)) st" "lo \<le> k" "k \<le> 8" "l \<noteq> LNone"
  shows "st_is l lo full L (\<lambda>j. shards_of bmt l ((F(k := F k @ [t])) j)) (put_shard bmt l k t st)"
proof -
  have "ec_rs_buf st ! (k - 1) @ [pad (tree_wire bmt l t)] = shards_of bmt l (F k @ [t])"
    using st_isD(9) [OF assms(1,4,2,3)] by (simp add: shards_of_snoc)
  moreover have "1 \<le> k" using assms(2) st_isD(7) [OF assms(1)] by simp
  ultimately show ?thesis
    using st_shards [OF assms(1) _ assms(3), of "shards_of bmt l (F k @ [t])"] unfolding put_shard_def by (simp only: fun_upd_comp_buf)
qed

lemma forest_wires_node:
  assumes "1 \<le> k" "k \<le> 8"
  shows "insert (tree_wire bmt l (CNode (Fs k))) (forest_wires bmt l Fs \<union> set (parity_wires l (map (tree_wire bmt l) (Fs k)))) =
    forest_wires bmt l (Fs(k := [])) \<union> tree_wires bmt l (CNode (Fs k))"
proof -
  have "set (map (tree_wire bmt l) (Fs k)) \<subseteq> (\<Union>t \<in> set (Fs k). tree_wires bmt l t)" using wire_in_wires by auto
  then show ?thesis unfolding forest_wires_clear [OF assms, of bmt l Fs] tree_wires.simps siblings_def Let_def set_append by blast
qed

text \<open>
  Closing a level: a level of the forest whose trees make a node is encoded, where there is redundancy, and wrapped.\<close>

definition closing :: "bmt \<Rightarrow> level \<Rightarrow> nat \<Rightarrow> nat \<Rightarrow> forest \<Rightarrow> encoder \<Rightarrow> bool" where
  "closing bmt l lo k Fs st =
     (hash_ok bmt \<and> add_ok bmt l lo (Suc k) \<and> lo \<le> k \<and> 1 \<le> k \<and> k \<le> 7 \<and>
      tree_ok l (CNode (Fs k)) \<and> addable l (Suc k) (CNode (Fs k)) (Fs(k := [])) \<and>
      sim bmt l lo Fs st \<and> out_is bmt (forest_wires bmt l Fs) st)"

abbreviation child_wires :: "bmt \<Rightarrow> level \<Rightarrow> nat \<Rightarrow> forest \<Rightarrow> bytes list" where
  "child_wires bmt l k Fs \<equiv> map (tree_wire bmt l) (Fs k)"

definition closed :: "bmt \<Rightarrow> level \<Rightarrow> nat \<Rightarrow> forest \<Rightarrow> encoder \<Rightarrow> encoder" where
  "closed bmt l k Fs st = put_parities bmt k (parity_wires l (child_wires bmt l k Fs)) (st\<lparr>ec_rs_buf := (ec_rs_buf st)[k - 1 := []]\<rparr>)"

lemma closing_children:
  assumes "closing bmt l lo k Fs st"
  defines "ws \<equiv> child_wires bmt l k Fs"
  shows "1 \<le> length ws" "length ws \<le> max_shards l" "\<forall>w \<in> set ws. addressed w"
    "length (parity_wires l ws) = parities l (length (Fs k))" "\<forall>w \<in> set (parity_wires l ws). addressed w"
proof -
  have n: "hash_ok bmt" "tree_ok l (CNode (Fs k))" using assms(1) by (simp_all add: closing_def)
  show ws: "1 \<le> length ws" "length ws \<le> max_shards l" using n by (auto simp: ws_def)
  have "\<forall>t \<in> set (Fs k). tree_ok l t" using n(2) by simp
  then show wa: "\<forall>w \<in> set ws. addressed w" using tree_addressed [OF n(1)] unfolding ws_def by simp
  then have "\<forall>w \<in> set ws. length w \<le> SHARD" unfolding addressed_def by blast
  from parity_wires_sizes [OF ws this] have p: "length (parity_wires l ws) = parities l (length ws)" "\<forall>w \<in> set (parity_wires l ws). length w = SHARD"
    by blast+
  show "length (parity_wires l ws) = parities l (length (Fs k))" using p(1) by (simp add: ws_def)
  have "8 \<le> SHARD" by (simp add: SPAN_SIZE_def)
  then show "\<forall>w \<in> set (parity_wires l ws). addressed w" using p(2) unfolding addressed_def by simp
qed

lemma wrap_plain:
  assumes c: "closing bmt LNone lo k Fs st"
  shows "added bmt LNone lo (up LNone (Suc k) (CNode (Fs k)) (Fs(k := []))) (wrap_level bmt k st)"
proof -
  note D = c [unfolded closing_def]
  obtain full where st: "full \<longrightarrow> Fs 8 \<noteq> []" "st_is LNone lo full (\<lambda>j. buf_of bmt LNone (Fs j)) (\<lambda>j. shards_of bmt LNone (Fs j)) st"
    using D by (auto simp: sim_def)
  have p: "parity_wires LNone (child_wires bmt LNone k Fs) = []" using closing_children(4) [OF c] by simp
  show ?thesis
  proof (rule wrap_level_ok [where F = Fs, OF _ _ _ _ _ _ st(2)])
    show "buf_of bmt LNone (Fs k) = \<lparr>lb_entries = map (entry_of bmt LNone) (Fs k) @ parity_entries bmt (parity_wires LNone (child_wires bmt LNone k Fs)),
        lb_effective = length (Fs k)\<rparr>"
      unfolding p by (simp add: buf_of_def parity_entries_def)
    show "insert (tree_wire bmt LNone (CNode (Fs k))) (forest_wires bmt LNone Fs) =
        forest_wires bmt LNone (Fs(k := [])) \<union> tree_wires bmt LNone (CNode (Fs k))"
      using forest_wires_node [of k bmt LNone Fs] D p by simp
  qed (use D st(1) in auto)
qed

lemma closed_wraps:
  assumes c: "closing bmt l lo k Fs st" and l: "l \<noteq> LNone"
  shows "added bmt l lo (up l (Suc k) (CNode (Fs k)) (Fs(k := []))) (wrap_level bmt k (closed bmt l k Fs st))"
proof -
  note D = c [unfolded closing_def]
  obtain full where st: "full \<longrightarrow> Fs 8 \<noteq> []" "st_is l lo full (\<lambda>j. buf_of bmt l (Fs j)) (\<lambda>j. shards_of bmt l (Fs j)) st"
    using D by (auto simp: sim_def)
  let ?ps = "parity_wires l (child_wires bmt l k Fs)"
  let ?L = "\<lambda>j. buf_of bmt l (Fs j)"
  let ?b = "\<lparr>lb_entries = lb_entries (?L k) @ parity_entries bmt ?ps, lb_effective = lb_effective (?L k)\<rparr>"
  let ?R = "(\<lambda>j. shards_of bmt l (Fs j))(k := [])"
  have k: "1 \<le> k" "k \<le> 8" using D by auto
  have st': "st_is l lo full (?L(k := ?b)) ?R (closed bmt l k Fs st)"
    unfolding closed_def by (rule put_parities_st [OF k st_shards [OF st(2) k]])
  show ?thesis
  proof (rule wrap_level_ok [where F = Fs, OF _ _ _ _ _ _ st'])
    show "(?L(k := ?b)) k = \<lparr>lb_entries = map (entry_of bmt l) (Fs k) @ parity_entries bmt ?ps, lb_effective = length (Fs k)\<rparr>"
      by (simp add: buf_of_def)
    show "?R j = shards_of bmt l ((Fs(k := [])) j)" for j by (simp add: shards_of_def)
    show "out_is bmt (forest_wires bmt l Fs \<union> set ?ps) (closed bmt l k Fs st)"
      unfolding closed_def by (rule put_parities_out) (simp add: D)
    show "insert (tree_wire bmt l (CNode (Fs k))) (forest_wires bmt l Fs \<union> set ?ps) =
        forest_wires bmt l (Fs(k := [])) \<union> tree_wires bmt l (CNode (Fs k))"
      using forest_wires_node k by simp
  qed (use D st(1) in auto)
qed

lemma encode_closes:
  assumes c: "closing bmt l lo k Fs st" and l: "l \<noteq> LNone"
  shows "rs_encode bmt (k - 1) st =
    (if length (Fs k) = max_shards l then wrap_level bmt k (closed bmt l k Fs st) else Inr (closed bmt l k Fs st))"
proof -
  note D = c [unfolded closing_def]
  obtain full where st: "st_is l lo full (\<lambda>j. buf_of bmt l (Fs j)) (\<lambda>j. shards_of bmt l (Fs j)) st"
    using D by (auto simp: sim_def)
  let ?e = "length (Fs k)" and ?ws = "child_wires bmt l k Fs"
  let ?st = "st\<lparr>ec_rs_buf := (ec_rs_buf st)[k - 1 := []]\<rparr>"
  note ws = closing_children [OF c]
  have k: "1 \<le> k" "k \<le> 8" "lo \<le> k" using D by auto
  have e: "1 \<le> ?e" "?e \<le> max_shards l" using ws(1,2) by simp_all
  have p: "0 < parities l ?e" using parities_pos [OF l e(1)] .
  have cap: "max_shards l + parities l (max_shards l) = 128" using full_node [OF l] .
  have fit: "?e + parities l ?e \<le> 128" "?e < max_shards l \<Longrightarrow> ?e + parities l ?e < 128"
    using node_fits [OF e l] node_partial [OF e(1) _ l] by auto
  have "rs_encode bmt (k - 1) st = write_parities bmt (k - 1) (parity_wires l ?ws) ?st"
    using rs_encode_eq [OF st k(3,2) l _ ws(1-3)] p by (simp add: shards_of_def)
  also have "\<dots> = (if parity_wires l ?ws \<noteq> [] \<and> length (lb_entries (buf_of bmt l (Fs k))) + length (parity_wires l ?ws) = max_shards l + parities l (max_shards l)
      then wrap_level bmt k (closed bmt l k Fs st) else Inr (closed bmt l k Fs st))"
    unfolding closed_def using fit(1) cap ws(4,5)
    by (intro write_parities_eq [OF k(1,2) st_shards [OF st k(1,2)]]) (simp_all add: buf_of_def)
  also have "\<dots> = (if ?e = max_shards l then wrap_level bmt k (closed bmt l k Fs st) else Inr (closed bmt l k Fs st))"
    using p ws(4) cap fit e by (auto simp: buf_of_def)
  finally show ?thesis .
qed

section \<open>Every level adds trees\<close>

lemma write_ref:
  assumes st: "st_is l lo full (\<lambda>j. buf_of bmt l (F j)) R st" and k: "1 \<le> k" "k \<le> 8"
  shows "write_to_level bmt k False (en_span (entry_of bmt l t)) (en_reference (entry_of bmt l t)) st =
    (if Suc (length (F k)) = max_shards l + parities l (max_shards l) then wrap_level bmt k (put_ref bmt l k t st) else Inr (put_ref bmt l k t st))"
proof -
  have e: "\<lparr>en_span = en_span (entry_of bmt l t), en_reference = en_reference (entry_of bmt l t)\<rparr> = entry_of bmt l t" by (simp add: entry_of_def)
  note st1 = st_put_ref [OF st k, of t]
  have "length (lb_entries (ec_levels (put_ref bmt l k t st) ! k)) = Suc (length (F k))" "\<not> k \<ge> MAX_LEVEL + 2"
    using st_isD(8) [OF st1 k] k by (simp_all add: buf_of_def MAX_LEVEL_def)
  then show ?thesis using st_isD(3) [OF st1] unfolding write_to_level.simps e Let_def put_ref_def [symmetric] by simp
qed

lemma chunk_shard:
  assumes h: "hash_ok bmt" "tree_ok l t" and st: "st_is l lo full L (\<lambda>j. shards_of bmt l (F j)) st" and k: "lo \<le> k" "k \<le> 8" and l: "l \<noteq> LNone"
  shows "chunk_write bmt (k - 1) (tree_wire bmt l t) st =
    (if Suc (length (F k)) = max_shards l then rs_encode bmt (k - 1) (put_shard bmt l k t st) else Inr (put_shard bmt l k t st))"
proof -
  note st2 = st_put_shard [OF st k l, of t]
  have "resize_shard (tree_wire bmt l t) = pad (tree_wire bmt l t)" using pad_resize wire_sizes [OF h] by blast
  then have sh: "st\<lparr>ec_rs_buf := (ec_rs_buf st)[k - 1 := ec_rs_buf st ! (k - 1) @ [resize_shard (tree_wire bmt l t)]]\<rparr> = put_shard bmt l k t st"
    by (simp only: put_shard_def)
  have "length (ec_rs_buf (put_shard bmt l k t st) ! (k - 1)) = Suc (length (F k))" "\<not> k - 1 \<ge> MAX_LEVEL"
    using st_isD(9) [OF st2 l k] st_isD(7) [OF st2] k by (simp_all add: shards_of_def MAX_LEVEL_def)
  then show ?thesis
    using st_isD(1) [OF st] st_isD(2) [OF st2] l unfolding chunk_write.simps [of bmt "k - 1"] Let_def sh by simp
qed

lemma add_stays:
  assumes h: "hash_ok bmt" and a: "addable l k t F" and n: "Suc (length (F k)) < max_shards l" and lo: "lo \<le> k"
    and s: "sim bmt l lo F st" and out: "out_is bmt (forest_wires bmt l F \<union> tree_wires bmt l t) st"
  shows "added bmt l lo (F(k := F k @ [t])) (add_tree bmt l k t st)"
proof -
  obtain full where st: "full \<longrightarrow> F 8 \<noteq> []" "st_is l lo full (\<lambda>j. buf_of bmt l (F j)) (\<lambda>j. shards_of bmt l (F j)) st"
    using s by (auto simp: sim_def)
  have k: "1 \<le> k" "k \<le> 8" "tree_ok l t" using a by (auto simp: addable_def part_def)
  let ?F = "F(k := F k @ [t])"
  let ?st1 = "put_ref bmt l k t st"
  have st1: "st_is l lo full (\<lambda>j. buf_of bmt l (?F j)) (\<lambda>j. shards_of bmt l (F j)) ?st1" using st_put_ref [OF st(2) k(1,2)] .
  have "Suc (length (F k)) \<noteq> max_shards l + parities l (max_shards l)" using n by simp
  then have w: "write_to_level bmt k False (en_span (entry_of bmt l t)) (en_reference (entry_of bmt l t)) st = Inr ?st1"
    using write_ref [OF st(2) k(1,2), of t] by simp
  have o: "out_is bmt (forest_wires bmt l ?F) ?st1"
    using out unfolding forest_wires_put [OF k(1,2)] by (simp add: put_ref_def)
  show ?thesis
  proof (cases "l = LNone")
    case True
    then have "add_tree bmt l k t st = Inr ?st1" using w st_isD(1) [OF st1] by (simp add: add_ref_def chunk_write.simps)
    moreover have "sim bmt l lo ?F ?st1" using st1 st(1) True unfolding sim_def st_is_def by (intro exI [of _ full]) auto
    ultimately show ?thesis using o unfolding added_def by blast
  next
    case l: False
    let ?st2 = "put_shard bmt l k t ?st1"
    have "add_tree bmt l k t st = Inr ?st2" using w chunk_shard [OF h k(3) st1 lo k(2) l] n by (simp add: add_ref_def)
    moreover have "sim bmt l lo ?F ?st2" using st_put_shard [OF st1 lo k(2) l] st(1) unfolding sim_def by (intro exI [of _ full]) auto
    moreover have "out_is bmt (forest_wires bmt l ?F) ?st2" using o by (simp add: put_shard_def)
    ultimately show ?thesis unfolding added_def by blast
  qed
qed

lemma add_wraps:
  assumes h: "hash_ok bmt" and IH: "add_ok bmt l lo (Suc k)" and a: "addable l k t F" and n: "Suc (length (F k)) = max_shards l" and lo: "lo \<le> k"
    and s: "sim bmt l lo F st" and out: "out_is bmt (forest_wires bmt l F \<union> tree_wires bmt l t) st"
  shows "added bmt l lo (up l (Suc k) (CNode (F k @ [t])) (F(k := []))) (add_tree bmt l k t st)"
proof -
  obtain full where st: "full \<longrightarrow> F 8 \<noteq> []" "st_is l lo full (\<lambda>j. buf_of bmt l (F j)) (\<lambda>j. shards_of bmt l (F j)) st"
    using s by (auto simp: sim_def)
  have k: "1 \<le> k" "k \<le> 8" "tree_ok l t" using a by (auto simp: addable_def part_def)
  note w = addable_wrap [OF a n]
  let ?F = "F(k := F k @ [t])"
  let ?st1 = "put_ref bmt l k t st"
  have st1: "st_is l lo full (\<lambda>j. buf_of bmt l (?F j)) (\<lambda>j. shards_of bmt l (F j)) ?st1" using st_put_ref [OF st(2) k(1,2)] .
  have o: "out_is bmt (forest_wires bmt l ?F) ?st1"
    using out unfolding forest_wires_put [OF k(1,2)] by (simp add: put_ref_def)
  have F8: "full \<longrightarrow> ?F 8 \<noteq> []" using st(1) by simp
  have close: "closing bmt l lo k ?F st'" if "sim bmt l lo ?F st'" "out_is bmt (forest_wires bmt l ?F) st'" for st'
    using that h IH lo k w by (simp add: closing_def)
  show ?thesis
  proof (cases "l = LNone")
    case True
    have "sim bmt l lo ?F ?st1" using st1 F8 True unfolding sim_def st_is_def by (intro exI [of _ full]) auto
    then have "added bmt l lo (up l (Suc k) (CNode (F k @ [t])) (F(k := []))) (wrap_level bmt k ?st1)"
      using wrap_plain [of bmt lo k ?F ?st1] close o True by simp
    moreover have "write_to_level bmt k False (en_span (entry_of bmt l t)) (en_reference (entry_of bmt l t)) st = wrap_level bmt k ?st1"
      using write_ref [OF st(2) k(1,2), of t] n True by simp
    ultimately show ?thesis using True st_isD(1) by (auto simp: added_def sim_def add_ref_def chunk_write.simps)
  next
    case l: False
    let ?st2 = "put_shard bmt l k t ?st1"
    have "sim bmt l lo ?F ?st2" using st_put_shard [OF st1 lo k(2) l] F8 unfolding sim_def by blast
    moreover have "out_is bmt (forest_wires bmt l ?F) ?st2" using o by (simp add: put_shard_def)
    ultimately have c: "closing bmt l lo k ?F ?st2" by (rule close)
    have "Suc (length (F k)) \<noteq> max_shards l + parities l (max_shards l)" using n parities_pos [OF l, of "max_shards l"] by simp
    then have "add_tree bmt l k t st = rs_encode bmt (k - 1) ?st2"
      using write_ref [OF st(2) k(1,2), of t] chunk_shard [OF h k(3) st1 lo k(2) l] n by (simp add: add_ref_def)
    also have "\<dots> = wrap_level bmt k (closed bmt l k ?F ?st2)" using encode_closes [OF c l] n by simp
    finally show ?thesis using closed_wraps [OF c l] by simp
  qed
qed

lemma add_every_level:
  assumes "hash_ok bmt" "lo \<le> k" "1 \<le> k" "k \<le> 8"
  shows "add_ok bmt l lo k"
  using assms(4,2,3)
proof (induction k rule: inc_induct)
  case base
  show ?case unfolding add_ok_def
  proof (intro allI impI)
    fix t F st assume h: "addable l 8 t F" "sim bmt l lo F st" "out_is bmt (forest_wires bmt l F \<union> tree_wires bmt l t) st"
    have F8: "F 8 = []" using h(1) by (simp add: addable_def)
    then have "Suc (length (F 8)) < max_shards l" using max_shards_bounds [of l] by simp
    then show "added bmt l lo (up l 8 t F) (add_tree bmt l 8 t st)"
      using add_stays [OF assms(1) h(1) _ base(1) h(2,3)] up_top [of F l t] F8 by simp
  qed
next
  case (step k)
  have IH: "add_ok bmt l lo (Suc k)" using step by simp
  show ?case unfolding add_ok_def
  proof (intro allI impI)
    fix t F st assume h: "addable l k t F" "sim bmt l lo F st" "out_is bmt (forest_wires bmt l F \<union> tree_wires bmt l t) st"
    show "added bmt l lo (up l k t F) (add_tree bmt l k t st)"
    proof (cases "Suc (length (F k)) = max_shards l")
      case True
      then show ?thesis using add_wraps [OF assms(1) IH h(1) True] h step by (simp add: up.simps [of l k])
    next
      case False
      moreover have "length (F k) < max_shards l" using h(1) unfolding addable_def by simp
      ultimately have "Suc (length (F k)) < max_shards l" by simp
      then show ?thesis using add_stays [OF assms(1) h(1)] h step False by (simp add: up.simps [of l k])
    qed
  qed
qed

section \<open>The data of the forest\<close>

definition data_above :: "nat \<Rightarrow> forest \<Rightarrow> bytes" where
  "data_above k F = concat (map (\<lambda>j. concat (map tree_data (F j))) (rev [Suc k..<9]))"

lemma levels_split: "1 \<le> k \<Longrightarrow> k \<le> 8 \<Longrightarrow> rev [1..<9] = rev [Suc k..<9] @ [k] @ rev [1..<k]"
proof -
  assume k: "1 \<le> k" "k \<le> 8"
  then have "[1..<9] = [1..<k] @ [k..<9]" using upt_add_eq_append [of 1 k "9 - k"] by simp
  also have "[k..<9] = k # [Suc k..<9]" using k by (simp add: upt_conv_Cons)
  finally show ?thesis by simp
qed

lemma forest_data_split:
  assumes "1 \<le> k" "k \<le> 8" "\<forall>j \<in> {1..<k}. F j = []"
  shows "forest_data F = data_above k F @ concat (map tree_data (F k))"
proof -
  have "concat (map (\<lambda>j. concat (map tree_data (F j))) (rev [1..<k])) = []" using assms(3) by (simp add: concat_eq_Nil_conv)
  then show ?thesis unfolding forest_data_def data_above_def levels_split [OF assms(1,2)] by (simp del: upt_rec_numeral)
qed

lemma data_above_upd: "j \<le> k \<Longrightarrow> data_above k (F(j := x)) = data_above k F"
  unfolding data_above_def by (rule arg_cong [of _ _ concat], rule map_cong) auto

lemma forest_data_put:
  assumes "1 \<le> k" "k \<le> 8" "\<forall>j \<in> {1..<k}. F j = []"
  shows "forest_data (F(k := F k @ [t])) = forest_data F @ tree_data t"
    "forest_data (F(k := [])) @ concat (map tree_data (F k)) = forest_data F"
proof -
  have e: "\<forall>j \<in> {1..<k}. (F(k := x)) j = []" for x using assms(3) by auto
  show "forest_data (F(k := F k @ [t])) = forest_data F @ tree_data t"
    "forest_data (F(k := [])) @ concat (map tree_data (F k)) = forest_data F"
    unfolding forest_data_split [OF assms] forest_data_split [OF assms(1,2) e] data_above_upd [OF order.refl] by simp_all
qed

lemma forest_data_length: "length (forest_data F) = data_from 1 F"
proof -
  have "length (forest_data F) = sum_list (map (\<lambda>j. length (concat (map tree_data (F j)))) [1..<9])"
    unfolding forest_data_def by (simp only: length_concat map_map rev_map [symmetric] sum_list_rev o_def)
  also have "\<dots> = (\<Sum>j \<in> set [1..<9]. length (concat (map tree_data (F j))))" by (rule sum_list_distinct_conv_sum_set) simp
  also have "set [1..<9] = {1..8 :: nat}" by auto
  finally show ?thesis by (simp add: data_from_def)
qed

lemma data_from_mono: "data_from k F \<le> data_from 1 F" if "1 \<le> k"
  unfolding data_from_def using that by (intro sum_mono2) auto

lemma level_le_data: "1 \<le> k \<Longrightarrow> k \<le> 8 \<Longrightarrow> length (concat (map tree_data (F k))) \<le> data_from k F"
  using data_from_split by simp

lemma up_data:
  "addable l k t F \<Longrightarrow> \<forall>j \<in> {1..<k}. F j = [] \<Longrightarrow> forest_data (up l k t F) = forest_data F @ tree_data t"
proof (induction l k t F rule: up.induct)
  case (1 l k t F)
  have k: "1 \<le> k" "k \<le> 8" using "1.prems"(1) by (auto simp: addable_def)
  note put = forest_data_put [OF k "1.prems"(2)]
  show ?case
  proof (cases "Suc (length (F k)) = max_shards l")
    case True
    then have c: "Suc (length (F k)) = max_shards l \<and> k \<le> 8" using k by simp
    have "\<forall>j \<in> {1..<Suc k}. (F(k := [])) j = []" using "1.prems"(2) by (auto simp: less_Suc_eq)
    then have "forest_data (up l (Suc k) (CNode (F k @ [t])) (F(k := []))) = forest_data (F(k := [])) @ tree_data (CNode (F k @ [t]))"
      by (rule "1.IH" [OF c addable_wrap(3) [OF "1.prems"(1) True]])
    then show ?thesis using put(2) by (subst up.simps) (simp add: c flip: append_assoc)
  next
    case False
    then show ?thesis using put(1) by (subst up.simps) simp
  qed
qed

section \<open>Forests of complete trees, and the last tree\<close>

definition full_level :: "level \<Rightarrow> nat \<Rightarrow> ctree list \<Rightarrow> bool" where
  "full_level l j ts = (length ts < max_shards l \<and> (\<forall>x \<in> set ts. complete l j x))"

definition last_tree :: "level \<Rightarrow> nat \<Rightarrow> forest \<Rightarrow> nat \<Rightarrow> ctree list \<Rightarrow> ctree \<Rightarrow> bool" where
  "last_tree l k F j xs t =
     (k \<le> j \<and> j \<le> 8 \<and> F j = xs @ [t] \<and> (\<forall>i \<in> {1..<j}. F i = []) \<and> (\<forall>x \<in> set xs. complete l j x) \<and> part l j t \<and>
      (length (F j) < max_shards l \<or> l = LNone \<and> length (F j) = max_shards l) \<and> (\<forall>i \<in> {Suc j..8}. full_level l i (F i)) \<and>
      (0 < tree_len t \<or> xs = [] \<and> (\<forall>i \<in> {Suc j..8}. F i = [])))"

definition last_forest :: "level \<Rightarrow> nat \<Rightarrow> forest \<Rightarrow> bool" where
  "last_forest l k F = (\<exists>j xs t. last_tree l k F j xs t)"

lemma addable_full: "addable l k t F \<Longrightarrow> i \<in> {k..8} \<Longrightarrow> full_level l i (F i)"
  by (simp add: addable_def full_level_def)

lemma last_forest_Suc: "last_forest l (Suc k) F \<Longrightarrow> last_forest l k F"
proof -
  have "last_tree l (Suc k) F j xs t \<Longrightarrow> last_tree l k F j xs t" for j xs t
    unfolding last_tree_def using Suc_leD by blast
  then show "last_forest l (Suc k) F \<Longrightarrow> last_forest l k F" unfolding last_forest_def by blast
qed

lemma up_last: "addable l k t F \<Longrightarrow> \<forall>j \<in> {1..<k}. F j = [] \<Longrightarrow> last_forest l k (up l k t F)"
proof (induction l k t F rule: up.induct)
  case (1 l k t F)
  have k: "1 \<le> k" "k \<le> 8" using "1.prems"(1) by (auto simp: addable_def)
  show ?case
  proof (cases "Suc (length (F k)) = max_shards l")
    case True
    then have c: "Suc (length (F k)) = max_shards l \<and> k \<le> 8" using k by simp
    have "\<forall>j \<in> {1..<Suc k}. (F(k := [])) j = []" using "1.prems"(2) by (auto simp: less_Suc_eq)
    then have "last_forest l (Suc k) (up l (Suc k) (CNode (F k @ [t])) (F(k := [])))"
      by (rule "1.IH" [OF c addable_wrap(3) [OF "1.prems"(1) True]])
    then have "last_forest l k (up l (Suc k) (CNode (F k @ [t])) (F(k := [])))"
      by (rule last_forest_Suc)
    then show ?thesis using c by (subst up.simps) simp
  next
    case False
    have f: "full_level l k (F k)" using addable_full [OF "1.prems"(1)] k by simp
    then have "Suc (length (F k)) < max_shards l" using False by (simp add: full_level_def)
    moreover have "\<forall>i \<in> {Suc k..8}. full_level l i (F i)" using addable_full [OF "1.prems"(1)] by simp
    moreover have "0 < tree_len t \<or> F k = [] \<and> (\<forall>i \<in> {Suc k..8}. F i = [])" "part l k t" using "1.prems"(1) by (auto simp: addable_def)
    ultimately have "last_tree l k (F(k := F k @ [t])) k (F k) t"
      using f k "1.prems"(2) unfolding last_tree_def by (auto simp: full_level_def)
    then show ?thesis using False unfolding last_forest_def by (subst up.simps) auto
  qed
qed

lemma up_complete:
  "addable l k t F \<Longrightarrow> complete l k t \<Longrightarrow> \<forall>j \<in> {1..<k}. full_level l j (F j) \<Longrightarrow> \<forall>j \<in> {1..8}. full_level l j (up l k t F j)"
proof (induction l k t F rule: up.induct)
  case (1 l k t F)
  have k: "1 \<le> k" "k \<le> 8" using "1.prems"(1) by (auto simp: addable_def)
  note f = addable_full [OF "1.prems"(1)]
  have fk: "full_level l k (F k)" using f k by simp
  show ?case
  proof (cases "Suc (length (F k)) = max_shards l")
    case True
    then have c: "Suc (length (F k)) = max_shards l \<and> k \<le> 8" using k by simp
    have "full_level l k []" using max_shards_bounds [of l] by (simp add: full_level_def)
    then have "\<forall>j \<in> {1..<Suc k}. full_level l j ((F(k := [])) j)" using "1.prems"(3) by (auto simp: less_Suc_eq)
    then have "\<forall>j \<in> {1..8}. full_level l j (up l (Suc k) (CNode (F k @ [t])) (F(k := [])) j)"
      by (rule "1.IH" [OF c addable_wrap(3) [OF "1.prems"(1) True] addable_wrap(4) [OF "1.prems"(1) True "1.prems"(2)]])
    then show ?thesis using c by (subst up.simps) simp
  next
    case False
    then have "full_level l k (F k @ [t])" using fk "1.prems"(2) by (auto simp: full_level_def)
    moreover have "full_level l j (F j)" if "j \<in> {1..8}" for j using that "1.prems"(3) f by (cases "j < k") auto
    ultimately show ?thesis using False by (subst up.simps) auto
  qed
qed

section \<open>Finishing\<close>

lemma last_tree_top:
  assumes t: "last_tree l k F j xs t" and k: "1 \<le> k" and small: "length (forest_data F) \<le> capacity l 8"
  shows "j < 8 \<Longrightarrow> F 8 = []" "j = 8 \<Longrightarrow> xs = []"
proof -
  have D: "F j = xs @ [t]" "k \<le> j" "j \<le> 8" "0 < tree_len t \<or> xs = [] \<and> (\<forall>i \<in> {Suc j..8}. F i = [])"
      "\<forall>x \<in> set xs. complete l j x" "\<forall>i \<in> {Suc j..8}. full_level l i (F i)"
    using t by (auto simp: last_tree_def)
  have tot: "data_from j F \<le> capacity l 8" using data_from_mono [of j F] small D(2) k by (simp add: forest_data_length)
  show "F 8 = []" if j: "j < 8"
  proof (rule ccontr)
    assume ne: "F 8 \<noteq> []"
    then have pos: "0 < tree_len t" using D(4) j by auto
    have "\<forall>x \<in> set (F 8). complete l 8 x" using D(6) j by (simp add: full_level_def)
    then have "capacity l 8 \<le> length (concat (map tree_data (F 8)))" using ne by (rule complete_some)
    moreover have "length (concat (map tree_data (F 8))) \<le> data_from (Suc j) F"
      unfolding data_from_def using j by (intro member_le_sum [of 8]) auto
    ultimately show False using tot data_from_split [OF D(3), of F] pos D(1) by simp
  qed
  show "xs = []" if j: "j = 8"
  proof (rule ccontr)
    assume ne: "xs \<noteq> []"
    then have pos: "0 < tree_len t" using D(4) by auto
    have "capacity l 8 \<le> length (concat (map tree_data xs))" using complete_some D(5) ne j by blast
    moreover have "length (concat (map tree_data xs)) + tree_len t \<le> data_from 8 F" using level_le_data [of 8 F] D(1) j by simp
    ultimately show False using tot [unfolded j] pos by linarith
  qed
qed

text \<open>What one step of finishing keeps.\<close>

definition finishing :: "bmt \<Rightarrow> level \<Rightarrow> bytes \<Rightarrow> nat \<Rightarrow> forest \<Rightarrow> encoder \<Rightarrow> bool" where
  "finishing bmt l data k F st =
     (last_forest l k F \<and> forest_data F = data \<and> sim bmt l k F st \<and> out_is bmt (forest_wires bmt l F) st)"

lemma sim_later: "sim bmt l lo F st \<Longrightarrow> lo \<le> lo' \<Longrightarrow> sim bmt l lo' F st"
  unfolding sim_def using st_later by blast

lemma added_finishing:
  assumes "added bmt l k F r" "last_forest l (Suc k) F" "forest_data F = data"
  shows "\<exists>F' st'. r = Inr st' \<and> finishing bmt l data (Suc k) F' st'"
  using assms sim_later [of bmt l k F _ "Suc k"] unfolding added_def finishing_def by auto

lemma sim_level: "sim bmt l lo F st \<Longrightarrow> 1 \<le> k \<Longrightarrow> k \<le> 8 \<Longrightarrow> lb_entries (ec_levels st ! k) = map (entry_of bmt l) (F k)"
  unfolding sim_def using st_isD(8) by (fastforce simp: buf_of_def)

lemma sim_consts: "sim bmt l lo F st \<Longrightarrow> ec_level st = l \<and> ec_max_children st = max_shards l + parities l (max_shards l)"
  unfolding sim_def using st_isD(1,3) by blast

lemma finish_wraps:
  assumes h: "hash_ok bmt" and k: "1 \<le> k" "k \<le> 7" and t: "last_tree l k F k xs t" "xs \<noteq> []"
    and f: "finishing bmt l data k F st" and small: "length data < 2 ^ 56" "length data \<le> capacity l 8"
  shows "\<exists>F' st'. finish_level bmt k st = Inr st' \<and> finishing bmt l data (Suc k) F' st'"
proof -
  have D: "F k = xs @ [t]" "\<forall>i \<in> {1..<k}. F i = []" "\<forall>x \<in> set xs. complete l k x" "part l k t" "0 < tree_len t"
      "length (F k) < max_shards l \<or> l = LNone \<and> length (F k) = max_shards l" "\<forall>i \<in> {Suc k..8}. full_level l i (F i)"
    using t by (auto simp: last_tree_def)
  have F: "forest_data F = data" "sim bmt l k F st" "out_is bmt (forest_wires bmt l F) st" using f by (auto simp: finishing_def)
  have F8: "F 8 = []" using last_tree_top(1) [OF t(1) k(1)] F(1) small(2) k by simp
  have e: "Suc (length xs) \<le> max_shards l" using D(1,6) by auto
  have dk: "data_from k F < 2 ^ 56" using data_from_mono [OF k(1), of F] F(1) small(1) forest_data_length [of F] by simp
  have sz: "tree_len (CNode (xs @ [t])) + data_from (Suc k) F = data_from k F" using data_from_split [of k F] D(1) k by simp
  then have node: "part l (Suc k) (CNode (F k))" unfolding D(1) using node_part [OF k D(3) t(2) D(4,5) e] dk by linarith
  have low: "\<forall>j \<in> {1..<Suc k}. (F(k := [])) j = []" using D(2) by (auto simp: less_Suc_eq)
  have add: "addable l (Suc k) (CNode (F k)) (F(k := []))"
    unfolding addable_def using k node F8 D sz dk data_from_upd [of k "Suc k" F "[]"] by (auto simp: full_level_def)
  have c: "closing bmt l k k F st"
    unfolding closing_def using h k node add F add_every_level [OF h, of k "Suc k" l] by (simp add: part_def)
  let ?F = "up l (Suc k) (CNode (F k)) (F(k := []))"
  have "forest_data ?F = forest_data (F(k := [])) @ tree_data (CNode (F k))" by (rule up_data [OF add low])
  then have data: "forest_data ?F = data" using forest_data_put(2) [of k F] k D(2) F(1) by simp
  have last: "last_forest l (Suc k) ?F" using up_last [OF add low] .
  have n: "length (lb_entries (ec_levels st ! k)) = length (F k)" "length (F k) \<noteq> 0" "length (F k) \<noteq> 1"
    using sim_level [OF F(2)] k D(1) t(2) by auto
  note params_st = sim_consts [OF F(2)]
  show ?thesis
  proof (cases "l = LNone")
    case True
    have "finish_level bmt k st = wrap_level bmt k st"
      using n params_st True by (simp add: finish_level_def Let_def rs_encode.simps)
    then show ?thesis using added_finishing [OF _ last data] wrap_plain [of bmt k k F st] c True by metis
  next
    case False
    then have lt: "length (F k) < max_shards l" using D(6) by simp
    have "rs_encode bmt (k - 1) st = Inr (closed bmt l k F st)" using encode_closes [OF c False] lt by simp
    then have "finish_level bmt k st = wrap_level bmt k (closed bmt l k F st)"
      using n params_st lt by (simp add: finish_level_def Let_def)
    then show ?thesis using added_finishing [OF _ last data] closed_wraps [OF c False] by metis
  qed
qed


lemma push_carried: "F k = [t] \<Longrightarrow> lb_entries (ec_levels st ! k) = map (entry_of bmt l) (F k) \<Longrightarrow>
    carry_over k st = put_ref bmt l (Suc k) t (st\<lparr>ec_levels := (ec_levels st)[k := \<lparr>lb_entries = [], lb_effective = 0\<rparr>]\<rparr>)"
  by (simp add: carry_over_def put_ref_def Let_def)

lemma elevate_shard:
  assumes st: "st_is l lo full L (\<lambda>j. shards_of bmt l (F j)) st" and k: "lo \<le> k" "k \<le> 7" and l: "l \<noteq> LNone" and t: "F k = [t]"
  shows "elevate_carrier_chunk bmt (k - 1) st =
    (if Suc (length (F (Suc k))) = max_shards l then rs_encode bmt k (put_shard bmt l (Suc k) t st) else Inr (put_shard bmt l (Suc k) t st))"
proof -
  have k1: "k - 1 + 1 = k" "\<not> k - 1 \<ge> MAX_LEVEL" "k < MAX_LEVEL" using st_isD(7) [OF st] k by (auto simp: MAX_LEVEL_def)
  have b: "ec_rs_buf st ! (k - 1) = [pad (tree_wire bmt l t)]" using st_isD(9) [OF st l k(1)] k t by (simp add: shards_of_def)
  have sk: "lo \<le> Suc k" "Suc k \<le> 8" using k by auto
  have "length (ec_rs_buf (put_shard bmt l (Suc k) t st) ! k) = Suc (length (F (Suc k)))"
    using st_isD(9) [OF st_put_shard [OF st sk l, of t] l sk] by (simp add: shards_of_def)
  moreover have "st\<lparr>ec_rs_buf := (ec_rs_buf st)[k := ec_rs_buf st ! k @ [ec_rs_buf st ! (k - 1) ! 0]]\<rparr> = put_shard bmt l (Suc k) t st"
    unfolding b by (simp add: put_shard_def)
  ultimately show ?thesis
    using st_isD(1,2) [OF st] st_isD(2) [OF st_put_shard [OF st sk l, of t]] l b k1(2,3) unfolding elevate_carrier_chunk_def k1(1) Let_def by simp
qed

text \<open>The forest after a carry-over.\<close>

lemma carry_forest:
  assumes k: "1 \<le> k" "k \<le> 7" and t: "last_tree l k F k [] t" and small: "length (forest_data F) < 2 ^ 56" "length (forest_data F) \<le> capacity l 8"
  shows "addable l (Suc k) t (F(k := []))" "\<forall>j \<in> {1..<Suc k}. (F(k := [])) j = []" "F 8 = []"
    "forest_data (F(k := [])) @ tree_data t = forest_data F"
proof -
  have D: "F k = [t]" "\<forall>i \<in> {1..<k}. F i = []" "part l k t" "0 < tree_len t \<or> (\<forall>i \<in> {Suc k..8}. F i = [])"
      "\<forall>i \<in> {Suc k..8}. full_level l i (F i)"
    using t by (auto simp: last_tree_def)
  show F8: "F 8 = []" using last_tree_top(1) [OF t k(1)] small(2) k by simp
  have dk: "data_from k F < 2 ^ 56" using data_from_mono [OF k(1), of F] small(1) forest_data_length [of F] by simp
  have "capacity l k \<le> capacity l (Suc k)" unfolding capacity_Suc [OF k(1)] using max_shards_bounds [of l] by (cases "max_shards l") auto
  then have p: "part l (Suc k) t" using D(3) unfolding part_def by linarith
  show "\<forall>j \<in> {1..<Suc k}. (F(k := [])) j = []" using D(2) by (auto simp: less_Suc_eq)
  show "addable l (Suc k) t (F(k := []))"
    unfolding addable_def using k p F8 D dk data_from_split [of k F] data_from_upd [of k "Suc k" F "[]"] by (auto simp: full_level_def)
  show "forest_data (F(k := [])) @ tree_data t = forest_data F" using forest_data_put(2) [of k F] k D by simp
qed

lemma carry_last:
  assumes k: "k \<le> 7" and a: "addable LNone (Suc k) t (F(k := []))" and low: "\<forall>j \<in> {1..<Suc k}. (F(k := [])) j = []"
  shows "last_forest LNone (Suc k) (F(k := [], Suc k := F (Suc k) @ [t]))"
proof -
  let ?F1 = "F(k := [], Suc k := F (Suc k) @ [t])"
  have f: "full_level LNone i (F i)" if "i \<in> {Suc k..8}" for i using addable_full [OF a that] that by simp
  have "full_level LNone (Suc k) (F (Suc k))" using f k by simp
  then have "Suc (length (F (Suc k))) < max_shards LNone \<or> Suc (length (F (Suc k))) = max_shards LNone" by (auto simp: full_level_def)
  then have "last_tree LNone (Suc k) ?F1 (Suc k) (F (Suc k)) t"
    using f [of "Suc k"] f low a k unfolding last_tree_def by (auto simp: full_level_def addable_def)
  then show ?thesis unfolding last_forest_def by blast
qed

lemma finish_carries:
  assumes h: "hash_ok bmt" and k: "1 \<le> k" "k \<le> 7" and t: "last_tree l k F k [] t"
    and f: "finishing bmt l data k F st" and small: "length data < 2 ^ 56" "length data \<le> capacity l 8"
  shows "\<exists>F' st'. finish_level bmt k st = Inr st' \<and> finishing bmt l data (Suc k) F' st'"
proof -
  have F: "forest_data F = data" "sim bmt l k F st" "out_is bmt (forest_wires bmt l F) st" and Fk: "F k = [t]"
    using f t by (auto simp: finishing_def last_tree_def)
  let ?F = "F(k := [])" and ?F1 = "F(k := [], Suc k := F (Suc k) @ [t])"
  note a = carry_forest [OF k t small [folded F(1)]]
  have data: "forest_data (up l (Suc k) t ?F) = data" using up_data [OF a(1,2)] a(4) F(1) by (simp add: fun_upd_def)
  have last: "last_forest l (Suc k) (up l (Suc k) t ?F)" by (rule up_last [OF a(1,2)])
  have sk: "1 \<le> Suc k" "Suc k \<le> 8" "k \<le> 8" using k by auto
  obtain full where st: "full \<longrightarrow> F 8 \<noteq> []" "st_is l k full (\<lambda>j. buf_of bmt l (F j)) (\<lambda>j. shards_of bmt l (F j)) st"
    using F(2) by (auto simp: sim_def)
  let ?st1 = "st\<lparr>ec_levels := (ec_levels st)[k := buf_of bmt l []]\<rparr>"
  let ?st2 = "put_ref bmt l (Suc k) t ?st1"
  have st1: "st_is l k full (\<lambda>j. buf_of bmt l (?F j)) (\<lambda>j. shards_of bmt l (F j)) ?st1"
    using st_level [OF st(2) k(1) sk(3), of "buf_of bmt l []"] unfolding fun_upd_comp_buf .
  have same: "?F (Suc k) = F (Suc k)" by simp
  have st2: "st_is l k full (\<lambda>j. buf_of bmt l (?F1 j)) (\<lambda>j. shards_of bmt l (F j)) ?st2"
    using st_put_ref [OF st1 sk(1,2), of t] unfolding same .
  have step: "finish_level bmt k st = elevate_carrier_chunk bmt (k - 1) ?st2"
    using sim_level [OF F(2) k(1) sk(3)] sim_consts [OF F(2)] max_shards_bounds [of l] push_carried [of F k t st bmt l] Fk
    by (simp add: finish_level_def Let_def buf_of_def)
  have o: "out_is bmt (forest_wires bmt l ?F1) ?st2"
    using F(3) forest_wires_put [OF sk(1,2), of bmt l ?F t] forest_wires_clear [OF k(1) sk(3), of bmt l F] Fk by (simp add: put_ref_def)
  have F8: "full \<longrightarrow> ?F1 8 \<noteq> []" using st(1) a(3) by simp
  show ?thesis
  proof (cases "l = LNone")
    case True
    have "elevate_carrier_chunk bmt (k - 1) ?st2 = Inr ?st2" using st_isD(1) [OF st2] True by (simp add: elevate_carrier_chunk_def)
    moreover have "sim bmt l (Suc k) ?F1 ?st2" using st_later [OF st2, of "Suc k"] F8 True unfolding sim_def st_is_def by (intro exI [of _ full]) auto
    moreover have "forest_data ?F1 = data" using forest_data_put(1) [of "Suc k" ?F t, OF sk(1,2) a(2)] a(4) F(1) unfolding same by metis
    moreover have "last_forest l (Suc k) ?F1" using carry_last [OF k(2)] a(1,2) True by blast
    ultimately show ?thesis using step o unfolding finishing_def by auto
  next
    case l: False
    let ?st3 = "put_shard bmt l (Suc k) t ?st2"
    have "st_is l (Suc k) full (\<lambda>j. buf_of bmt l (?F1 j)) (\<lambda>j. shards_of bmt l (?F1 j)) ?st3"
      using st_later [OF st_put_shard [OF st2 _ sk(2) l, of t], of "Suc k"] unfolding st_is_def by auto
    then have s3: "sim bmt l (Suc k) ?F1 ?st3" using F8 unfolding sim_def by blast
    have o3: "out_is bmt (forest_wires bmt l ?F1) ?st3" using o by (simp add: put_shard_def)
    have ec: "elevate_carrier_chunk bmt (k - 1) ?st2 = (if Suc (length (F (Suc k))) = max_shards l then rs_encode bmt k ?st3 else Inr ?st3)"
      by (rule elevate_shard [OF st2 order.refl k(2) l Fk])
    have "added bmt l (Suc k) (up l (Suc k) t ?F) (elevate_carrier_chunk bmt (k - 1) ?st2)"
    proof (cases "Suc (length (F (Suc k))) = max_shards l")
      case True
      then have w: "Suc (length (?F (Suc k))) = max_shards l" by simp
      note aw = addable_wrap [of l "Suc k" t ?F, OF a(1) w, unfolded same]
      have c: "closing bmt l (Suc k) (Suc k) ?F1 ?st3"
        unfolding closing_def using h aw s3 o3 add_every_level [OF h, of "Suc k" "Suc (Suc k)" l] by simp
      have "rs_encode bmt k ?st3 = wrap_level bmt (Suc k) (closed bmt l (Suc k) ?F1 ?st3)" using encode_closes [OF c l] True by simp
      then show ?thesis using closed_wraps [OF c l] True w ec k(2) by (simp add: up.simps [of l "Suc k" t])
    next
      case False
      then show ?thesis using ec s3 o3 by (simp add: up.simps [of l "Suc k" t] added_def)
    qed
    then show ?thesis unfolding step using last data by (auto simp: added_def finishing_def)
  qed
qed


lemma finish_skips:
  assumes "1 \<le> k" "k \<le> 7" "last_tree l k F j xs t" "j \<noteq> k" "finishing bmt l data k F st"
  shows "finish_level bmt k st = Inr st \<and> finishing bmt l data (Suc k) F st"
proof -
  have "F k = []" "last_tree l (Suc k) F j xs t" using assms(1-4) unfolding last_tree_def by auto
  moreover have "sim bmt l k F st" using assms(5) by (simp add: finishing_def)
  ultimately show ?thesis
    using assms(1,2,5) sim_level [of bmt l k F st k] sim_later [of bmt l k F st "Suc k"]
    by (auto simp: finish_level_def finishing_def last_forest_def)
qed

lemma finish_step:
  assumes "hash_ok bmt" "1 \<le> k" "k \<le> 7" "finishing bmt l data k F st" "length data < 2 ^ 56" "length data \<le> capacity l 8"
  shows "\<exists>F' st'. finish_level bmt k st = Inr st' \<and> finishing bmt l data (Suc k) F' st'"
proof -
  obtain j xs t where t: "last_tree l k F j xs t" using assms(4) by (auto simp: finishing_def last_forest_def)
  show ?thesis
  proof (cases "j = k")
    case True
    then show ?thesis using t finish_carries [OF assms(1-3) _ assms(4-6)] finish_wraps [OF assms(1-3) _ _ assms(4-6)] by (cases "xs = []") auto
  next
    case False
    then show ?thesis using finish_skips [OF assms(2,3) t False assms(4)] by blast
  qed
qed

lemma finish_levels_ok:
  assumes "hash_ok bmt" "length data < 2 ^ 56" "length data \<le> capacity l 8"
  shows "1 \<le> k \<Longrightarrow> k \<le> 8 \<Longrightarrow> finishing bmt l data k F st \<Longrightarrow>
    \<exists>F' st'. finish_levels bmt [k..<8] st = Inr st' \<and> finishing bmt l data 8 F' st'"
proof (induction "8 - k" arbitrary: k F st)
  case 0
  then show ?case by (intro exI [of _ F] exI [of _ st]) simp
next
  case (Suc n)
  then have k: "k \<le> 7" "n = 8 - Suc k" by auto
  obtain F' st' where s: "finish_level bmt k st = Inr st'" "finishing bmt l data (Suc k) F' st'"
    using finish_step [OF assms(1) Suc.prems(1) k(1) Suc.prems(3) assms(2,3)] by blast
  obtain F'' st'' where "finish_levels bmt [Suc k..<8] st' = Inr st''" "finishing bmt l data 8 F'' st''"
    using Suc.hyps(1) [OF k(2) _ _ s(2)] k by auto
  moreover have "[k..<8] = k # [Suc k..<8]" using k by (simp add: upt_conv_Cons)
  ultimately show ?case using s(1) by auto
qed

text \<open>After the levels are flushed, one tree of all the data is left.\<close>

lemma finished_tree:
  assumes "finishing bmt l data 8 F st" "length data \<le> capacity l 8"
  shows "\<exists>t. tree_ok l t \<and> tree_data t = data \<and> height t \<le> 8 \<and> lb_entries (ec_levels st ! 8) = [entry_of bmt l t] \<and>
    out_is bmt (tree_wires bmt l t) st \<and> ec_level st = l"
proof -
  have F: "forest_data F = data" "sim bmt l 8 F st" "out_is bmt (forest_wires bmt l F) st" using assms(1) by (auto simp: finishing_def)
  obtain xs t j where lt: "last_tree l 8 F j xs t" using assms(1) by (auto simp: finishing_def last_forest_def)
  then have j: "j = 8" by (simp add: last_tree_def)
  have "xs = []" using last_tree_top(2) [OF lt] F(1) assms(2) j by simp
  then have F8: "F 8 = [t]" "\<forall>i \<in> {1..<8}. F i = []" "part l 8 t" using lt j by (auto simp: last_tree_def)
  have above: "data_above 8 F = []" by (simp add: data_above_def)
  have "tree_data t = data" using forest_data_split [of 8 F] F8 F(1) above by simp
  moreover have "forest_wires bmt l F = tree_wires bmt l t"
  proof -
    have "(\<Union>x \<in> set (F k). tree_wires bmt l x) = (if k = 8 then tree_wires bmt l t else {})" if "k \<in> {1..8}" for k
      using that F8 by (cases "k = 8") auto
    then show ?thesis unfolding forest_wires_def by (auto split: if_splits)
  qed
  ultimately show ?thesis
    using F8(3) F(2,3) sim_level [OF F(2), of 8] sim_consts [OF F(2)] F8(1) unfolding part_def by auto
qed

section \<open>Writing\<close>

lemma leaf_part: "length d \<le> 4096 \<Longrightarrow> part l 1 (CLeaf d) \<and> (length d = 4096 \<longrightarrow> complete l 1 (CLeaf d))"
  by (simp add: part_def complete_def capacity_def CHUNK_SIZE_def)

definition full_forest :: "level \<Rightarrow> forest \<Rightarrow> bool" where
  "full_forest l F = (\<forall>j \<in> {1..8}. full_level l j (F j))"

definition writing :: "bmt \<Rightarrow> level \<Rightarrow> bytes \<Rightarrow> forest \<Rightarrow> encoder \<Rightarrow> bool" where
  "writing bmt l data F st =
     (full_forest l F \<and> forest_data F = data \<and> sim bmt l 1 F st \<and> out_is bmt (forest_wires bmt l F) st)"

lemma leaf_addable:
  assumes F: "full_forest l F" and d: "length d \<le> 4096" "d \<noteq> [] \<or> F = (\<lambda>_. [])"
    and small: "length (forest_data F @ d) < 2 ^ 56" "length (forest_data F @ d) \<le> capacity l 8"
  shows "addable l 1 (CLeaf d) F"
proof -
  have "F 8 = []"
  proof (rule ccontr)
    assume ne: "F 8 \<noteq> []"
    have "\<forall>x \<in> set (F 8). complete l 8 x" using F by (simp add: full_forest_def full_level_def)
    then have "capacity l 8 \<le> length (concat (map tree_data (F 8)))" using ne by (rule complete_some)
    moreover have "length (concat (map tree_data (F 8))) \<le> length (forest_data F)"
      using level_le_data [of 8 F] data_from_mono [of 8 F] by (simp add: forest_data_length)
    moreover have "0 < length d" using d(2) ne by auto
    ultimately show False using small(2) unfolding length_append by linarith
  qed
  then show ?thesis
    using F leaf_part [OF d(1), of l] small(1) d(2) forest_data_length [of F]
    unfolding addable_def full_forest_def full_level_def by auto
qed

lemma write_chunk_adds:
  assumes h: "hash_ok bmt" and d: "length d \<le> 4096" and a: "addable l 1 (CLeaf d) F" and s: "sim bmt l 1 F st"
    and o: "out_is bmt (forest_wires bmt l F) st"
  shows "added bmt l 1 (up l 1 (CLeaf d) F) (write_chunk bmt d st)"
proof -
  let ?t = "CLeaf d"
  let ?w = "tree_wire bmt l ?t"
  have "F 8 = []" using a by (simp add: addable_def)
  then have nf: "\<not> ec_full st" using s st_isD(4) unfolding sim_def by blast
  have w: "to_le_bytes 8 (of_nat (length d) :: u64) @ d = ?w" using d by (simp add: to_le_bytes_def unat_of_nat)
  have ad: "addressed ?w" using tree_addressed [OF h, of l ?t] d by (simp add: CHUNK_SIZE_def)
  have sp: "en_span (entry_of bmt l ?t) = of_nat (length d)" "en_reference (entry_of bmt l ?t) = ref_of bmt ?w"
    using d by (simp_all add: entry_of_def SPAN_SIZE_def from_le_bytes_def le_nat_nat_le)
  let ?st1 = "emitted bmt ?w False st"
  have ok1: "add_ok bmt l 1 1" by (rule add_every_level [OF h]) simp_all
  have "sim bmt l 1 F ?st1" using s st_emit unfolding sim_def by blast
  moreover have "out_is bmt (forest_wires bmt l F \<union> tree_wires bmt l ?t) ?st1" using out_emit [OF o, of ?w False] by simp
  ultimately have "added bmt l 1 (up l 1 ?t F) (add_tree bmt l 1 ?t ?st1)"
    using ok1 a unfolding add_ok_def by blast
  moreover have "write_chunk bmt d st = add_tree bmt l 1 ?t ?st1"
    using nf emit_eq [OF ad, of bmt False st] unfolding write_chunk_def w Let_def add_ref_def sp diff_self_eq_0 by simp
  ultimately show ?thesis by simp
qed

lemma write_step:
  assumes h: "hash_ok bmt" and w: "writing bmt l data F st" and d: "length d = 4096"
    and small: "length (data @ d) < 2 ^ 56" "length (data @ d) \<le> capacity l 8"
  shows "\<exists>F' st'. write_chunk bmt d st = Inr st' \<and> writing bmt l (data @ d) F' st'"
proof -
  have W: "full_forest l F" "forest_data F = data" "sim bmt l 1 F st" "out_is bmt (forest_wires bmt l F) st" using w by (auto simp: writing_def)
  have "d \<noteq> []" using d by auto
  then have a: "addable l 1 (CLeaf d) F" using leaf_addable [OF W(1), of d] d small W(2) by simp
  have "full_forest l (up l 1 (CLeaf d) F)" using up_complete [OF a] leaf_part d by (simp add: full_forest_def)
  moreover have "forest_data (up l 1 (CLeaf d) F) = data @ d" using up_data [OF a] W(2) by simp
  ultimately show ?thesis using write_chunk_adds [OF h _ a W(3,4)] d unfolding added_def writing_def by auto
qed

lemma write_last:
  assumes h: "hash_ok bmt" and w: "writing bmt l data F st" and d: "length d \<le> 4096" "d \<noteq> [] \<or> F = (\<lambda>_. [])"
    and small: "length (data @ d) < 2 ^ 56" "length (data @ d) \<le> capacity l 8"
  shows "\<exists>F' st'. write_chunk bmt d st = Inr st' \<and> finishing bmt l (data @ d) 1 F' st'"
proof -
  have W: "full_forest l F" "forest_data F = data" "sim bmt l 1 F st" "out_is bmt (forest_wires bmt l F) st" using w by (auto simp: writing_def)
  have a: "addable l 1 (CLeaf d) F" using leaf_addable [OF W(1) d] small W(2) by simp
  have "last_forest l 1 (up l 1 (CLeaf d) F)" using up_last [OF a] by simp
  moreover have "forest_data (up l 1 (CLeaf d) F) = data @ d" using up_data [OF a] W(2) by simp
  ultimately show ?thesis using write_chunk_adds [OF h d(1) a W(3,4)] unfolding added_def finishing_def by auto
qed

lemma write_all_ok:
  assumes "hash_ok bmt" "length d \<le> 4096" "d \<noteq> [] \<or> cs = [] \<and> F = (\<lambda>_. [])"
  shows "writing bmt l data F st \<Longrightarrow> \<forall>c \<in> set cs. length c = 4096 \<Longrightarrow> length (data @ concat cs @ d) < 2 ^ 56 \<Longrightarrow>
    length (data @ concat cs @ d) \<le> capacity l 8 \<Longrightarrow>
    \<exists>F' st'. write_all bmt (cs @ [d]) st = Inr st' \<and> finishing bmt l (data @ concat cs @ d) 1 F' st'"
  using assms(3)
proof (induction cs arbitrary: data F st)
  case Nil
  then show ?case using write_last [OF assms(1) Nil.prems(1) assms(2)] by auto
next
  case (Cons c cs)
  have "length c = 4096" "length (data @ c) < 2 ^ 56" "length (data @ c) \<le> capacity l 8" using Cons.prems(2-4) by auto
  then obtain F' st' where s: "write_chunk bmt c st = Inr st'" "writing bmt l (data @ c) F' st'"
    using write_step [OF assms(1) Cons.prems(1)] by blast
  then show ?case using Cons.IH [OF s(2)] Cons.prems by auto
qed

lemma writing_new: "writing bmt l [] (\<lambda>_. []) (encoder_new l)"
proof -
  have "st_is l 1 False (\<lambda>j. buf_of bmt l []) (\<lambda>j. shards_of bmt l []) (encoder_new l)"
    by (auto simp: st_is_def encoder_new_def Let_def MAX_LEVEL_def buf_of_def shards_of_def)
  then have "sim bmt l 1 (\<lambda>_. []) (encoder_new l)" unfolding sim_def by blast
  moreover have "out_is bmt (forest_wires bmt l (\<lambda>_. [])) (encoder_new l)" by (simp add: out_is_def encoder_new_def forest_wires_def Let_def)
  moreover have "full_forest l (\<lambda>_. [])" using max_shards_bounds [of l] by (simp add: full_forest_def full_level_def)
  ultimately show ?thesis by (simp add: writing_def forest_data_def)
qed

lemma chunks_last:
  "0 < n \<Longrightarrow> xs \<noteq> [] \<Longrightarrow> \<exists>cs d. chunks n xs = cs @ [d] \<and> (\<forall>c \<in> set cs. length c = n) \<and> d \<noteq> [] \<and> length d \<le> n \<and> concat cs @ d = xs"
proof (induction n xs rule: chunks.induct)
  case (1 n xs)
  show ?case
  proof (cases "drop n xs = []")
    case True
    then have "chunks n xs = [] @ [xs]" using 1 by (simp add: chunks.simps [of n xs] chunks.simps [of n "[]"])
    then show ?thesis using 1 True by fastforce
  next
    case False
    then obtain cs d where c: "chunks n (drop n xs) = cs @ [d]" "\<forall>c \<in> set cs. length c = n" "d \<noteq> []" "length d \<le> n" "concat cs @ d = drop n xs"
      using 1 by auto
    have "chunks n xs = (take n xs # cs) @ [d]" using 1 c(1) by (simp add: chunks.simps [of n xs])
    moreover have "length (take n xs) = n" using False by simp
    ultimately show ?thesis using c by (metis append_take_drop_id append_assoc concat.simps(2) set_ConsD)
  qed
qed

lemma written:
  assumes h: "hash_ok bmt" and small: "length data < 2 ^ 56" "length data \<le> capacity l 8"
  shows "\<exists>F st. write_all bmt (chunks CHUNK_SIZE data @ (if data = [] then [[]] else [])) (encoder_new l) = Inr st \<and> finishing bmt l data 1 F st"
proof (cases "data = []")
  case True
  then show ?thesis
    using write_all_ok [OF h, of "[]" "[]" "\<lambda>_. []" l "[]" "encoder_new l"] writing_new capacity_pos [of l 8]
    by (simp add: chunks.simps [of CHUNK_SIZE "[]"])
next
  case False
  then obtain cs d where c: "chunks 4096 data = cs @ [d]" "\<forall>c \<in> set cs. length c = 4096" "d \<noteq> []" "length d \<le> 4096" "concat cs @ d = data"
    using chunks_last [of 4096 data] by auto
  then show ?thesis
    using write_all_ok [OF h c(4), of cs "\<lambda>_. []" l "[]" "encoder_new l"] writing_new small False by (simp add: CHUNK_SIZE_def)
qed

section \<open>The output of a split\<close>

text \<open>
  What is relied on of the chunk library: it parses every chunk that has an address, and signs a dispersed replica at the
  address that the mined byte, the address of the chunk and the well-known owner hash to.\<close>

definition chunk_lib_ok :: "keccak \<Rightarrow> bmt \<Rightarrow> chunk_lib \<Rightarrow> bool" where
  "chunk_lib_ok keccak bmt lib =
     (\<forall>w a. wire_address bmt w = Some a \<longrightarrow>
        content_chunk lib w = Inr a \<and>
        (\<forall>i. \<exists>soc. new_dispersed_replica lib i w = Inr (keccak (a[0 := i] @ REPLICAS_OWNER), soc)))"

lemma wrap_candidates_ok:
  assumes "\<forall>c \<in> set cs. \<exists>soc. new_dispersed_replica lib (cd_mined c) w = Inr (cd_addr c, soc)"
  shows "\<exists>rs. wrap_candidates lib w cs = Inr rs \<and> map fst rs = map cd_addr cs"
  using assms
proof (induction cs)
  case (Cons c cs)
  then obtain soc rs where "new_dispersed_replica lib (cd_mined c) w = Inr (cd_addr c, soc)" "wrap_candidates lib w cs = Inr rs" "map fst rs = map cd_addr cs"
    by auto
  then show ?case by simp
qed simp

lemma filled_queue: "x \<in> set (filled (queue_spec c D i)) \<Longrightarrow> \<exists>j. x = c j"
proof -
  assume "x \<in> set (filled (queue_spec c D i))"
  then obtain k where "k < length (filled (queue_spec c D i))" "x = filled (queue_spec c D i) ! k" by (metis in_set_conv_nth)
  then have "k < 16" "queue_spec c D i ! k = Some x" using filled_nth [of k "queue_spec c D i"] by (auto simp: queue_spec_def)
  then show ?thesis by (auto simp: queue_spec_def slot_value_def Let_def split: if_splits)
qed

lemma run_candidates:
  assumes "l \<noteq> LNone" "x \<in> set (replicator_run keccak (replicator_new a l))"
  shows "\<exists>j. x = cand keccak a j"
proof -
  have "filled (rp_queue (replicator_new a l)) = []" by (simp add: replicator_new_def numeral_eq_Suc)
  moreover have "REPLICA_COUNTS ! level_usize l \<le> 16" by (cases l) (simp_all add: REPLICA_COUNTS_def level_usize_def)
  ultimately have "replicator_run keccak (replicator_new a l) =
      take (REPLICA_COUNTS ! level_usize l) (filled (queue_spec (cand keccak a) (level_usize l) 255))"
    using run_loop_spec [OF run_ok_new [of keccak a l] assms(1), where out = "[]" and n = 0 and want = "REPLICA_COUNTS ! level_usize l"]
    by (simp add: replicator_run_def replicator_new_def)
  then show ?thesis using assms(2) filled_queue by (metis in_set_takeD)
qed

lemma dispersed_replicas_ok:
  assumes "chunk_lib_ok keccak bmt lib" "wire_address bmt w = Some a"
  shows "\<exists>rs. dispersed_replicas keccak lib w l = Inr rs \<and> map fst rs = replica_addresses keccak a l"
proof (cases "l = LNone")
  case True
  then show ?thesis by (simp add: dispersed_replicas_def replica_addresses_def)
next
  case False
  have "\<exists>soc. new_dispersed_replica lib (cd_mined c) w = Inr (cd_addr c, soc)" if "c \<in> set (replicator_run keccak (replicator_new a l))" for c
    using run_candidates [OF False that] assms unfolding chunk_lib_ok_def cand_def by auto
  then obtain rs where "wrap_candidates lib w (replicator_run keccak (replicator_new a l)) = Inr rs"
      "map fst rs = map cd_addr (replicator_run keccak (replicator_new a l))"
    using wrap_candidates_ok by blast
  moreover have "content_chunk lib w = Inr a" using assms by (simp add: chunk_lib_ok_def)
  ultimately show ?thesis using False by (simp add: dispersed_replicas_def replica_addresses_def)
qed

lemma add_replicas_out:
  assumes "ec_seen st = fst ` set (ec_out st)" "distinct (map fst (ec_out st))"
  shows "case add_replicas rs st n of (st', n') \<Rightarrow>
    distinct (map fst (ec_out st')) \<and> set (ec_out st) \<subseteq> set (ec_out st') \<and> fst ` set rs \<subseteq> fst ` set (ec_out st') \<and>
    ec_parity_chunks st' = ec_parity_chunks st"
  using assms
proof (induction rs st n rule: add_replicas.induct)
  case (2 a wire rs st n)
  show ?case
  proof (cases "a \<in> ec_seen st")
    case True
    then have "a \<in> fst ` set (ec_out st)" using "2.prems"(1) by simp
    then show ?thesis using "2.IH"(1) [OF True "2.prems"] True by (auto split: prod.splits)
  next
    case False
    let ?st = "st\<lparr>ec_seen := insert a (ec_seen st), ec_out := ec_out st @ [(a, wire)]\<rparr>"
    have "ec_seen ?st = fst ` set (ec_out ?st)" "distinct (map fst (ec_out ?st))" using "2.prems" False by auto
    note IH = "2.IH"(2) [OF False this]
    obtain st' n' where r: "add_replicas rs ?st (n + 1) = (st', n')" by fastforce
    have I: "distinct (map fst (ec_out st'))" "set (ec_out st @ [(a, wire)]) \<subseteq> set (ec_out st')" "fst ` set rs \<subseteq> fst ` set (ec_out st')"
        "ec_parity_chunks st' = ec_parity_chunks st"
      using IH r by simp_all
    then have "a \<in> fst ` set (ec_out st')" by (auto intro: rev_image_eqI)
    then show ?thesis using I r False by simp
  qed
qed simp

lemma finish_ok:
  assumes h: "hash_ok bmt" and lib: "chunk_lib_ok keccak bmt lib" and f: "finishing bmt l data 1 F st"
    and small: "length data < 2 ^ 56" "length data \<le> capacity l 8"
  shows "\<exists>t. tree_ok l t \<and> tree_data t = data \<and> height t \<le> 8 \<and>
    (inj_on (ref_of bmt) (tree_wires bmt l t) \<longrightarrow>
      (\<exists>out. finish keccak lib bmt st = Inr out \<and> so_root out = ref_of bmt (tree_wire bmt l t) \<and>
         distinct (map fst (so_chunks out)) \<and> (\<forall>w \<in> tree_wires bmt l t. (ref_of bmt w, w) \<in> set (so_chunks out)) \<and>
         set (replica_addresses keccak (so_root out) l) \<subseteq> fst ` set (so_chunks out)))"
proof -
  obtain F' st' where s: "finish_levels bmt [1..<8] st = Inr st'" "finishing bmt l data 8 F' st'"
    using finish_levels_ok [OF h small, of 1 F st] f by auto
  obtain t where t: "tree_ok l t" "tree_data t = data" "height t \<le> 8" "lb_entries (ec_levels st' ! 8) = [entry_of bmt l t]"
      "out_is bmt (tree_wires bmt l t) st'" "ec_level st' = l"
    using finished_tree [OF s(2) small(2)] by blast
  let ?r = "ref_of bmt (tree_wire bmt l t)"
  have O: "ec_seen st' = fst ` set (ec_out st')" "distinct (map fst (ec_out st'))"
      "\<And>a w. (a, w) \<in> set (ec_out st') \<Longrightarrow> a = ref_of bmt w \<and> w \<in> tree_wires bmt l t"
      "\<And>w. w \<in> tree_wires bmt l t \<Longrightarrow> ref_of bmt w \<in> fst ` set (ec_out st')"
    using t(5) by (auto simp: out_is_def)
  have "\<exists>out. finish keccak lib bmt st = Inr out \<and> so_root out = ?r \<and> distinct (map fst (so_chunks out)) \<and>
      (\<forall>w \<in> tree_wires bmt l t. (ref_of bmt w, w) \<in> set (so_chunks out)) \<and>
      set (replica_addresses keccak (so_root out) l) \<subseteq> fst ` set (so_chunks out)"
    if inj: "inj_on (ref_of bmt) (tree_wires bmt l t)"
  proof -
    have mem: "(ref_of bmt w, w) \<in> set (ec_out st')" if w: "w \<in> tree_wires bmt l t" for w
    proof -
      obtain w' where "(ref_of bmt w, w') \<in> set (ec_out st')" using O(4) [OF w] by auto
      then show ?thesis using O(3) inj_onD [OF inj] w by metis
    qed
    obtain p where p: "find (\<lambda>(a, w). a = ?r) (ec_out st') = Some p"
      using mem [OF wire_in_wires] by (cases "find (\<lambda>(a, w). a = ?r) (ec_out st')") (auto simp: find_None_iff)
    then have "p \<in> set (ec_out st')" "fst p = ?r" by (auto simp: find_Some_iff case_prod_beta)
    then have p': "p = (?r, tree_wire bmt l t)" using O(3) [of "fst p" "snd p"] inj_onD [OF inj] wire_in_wires [of bmt l t] by (metis prod.collapse)
    obtain rs where rs: "dispersed_replicas keccak lib (tree_wire bmt l t) l = Inr rs" "map fst rs = replica_addresses keccak ?r l"
      using dispersed_replicas_ok [OF lib addressed_address [OF tree_addressed [OF h t(1)]]] by blast
    obtain st2 n where a: "add_replicas rs st' 0 = (st2, n)" by fastforce
    have A: "distinct (map fst (ec_out st2))" "set (ec_out st') \<subseteq> set (ec_out st2)" "fst ` set rs \<subseteq> fst ` set (ec_out st2)"
      using add_replicas_out [OF O(1,2), of rs 0] a by auto
    have "fst ` set rs = set (replica_addresses keccak ?r l)" using rs(2) by (metis list.set_map)
    moreover have "finish keccak lib bmt st = Inr \<lparr>so_root = ?r, so_chunks = ec_out st2, so_parity_chunks = ec_parity_chunks st2, so_replica_chunks = n\<rparr>"
      using s(1) t(4,6) p p' rs(1) a by (simp add: finish_def MAX_LEVEL_def entry_of_def del: tree_wire.simps)
    ultimately show ?thesis using A mem by auto
  qed
  then show ?thesis using t by blast
qed

lemma honest_wires:
  assumes "\<forall>w \<in> tree_wires bmt l t. get (ref_of bmt w) = Inr w \<or> isl (get (ref_of bmt w))"
  shows "honest get bmt l t"
  using assms
proof (induction t)
  case (CNode ts)
  then show ?case by (auto simp del: tree_wire.simps)
qed simp

section \<open>Split and join\<close>


definition demo_lib :: chunk_lib where
  "demo_lib =
     \<lparr>content_chunk = (\<lambda>w. case wire_address demo_bmt w of None \<Rightarrow> Inl ''invalid'' | Some a \<Rightarrow> Inr a),
      new_dispersed_replica = (\<lambda>i w. case wire_address demo_bmt w of
          None \<Rightarrow> Inl ''invalid''
        | Some a \<Rightarrow> Inr (demo_keccak (a[0 := i] @ REPLICAS_OWNER), replicate 97 0 @ w))\<rparr>"

definition stored :: "(bytes \<times> bytes) list \<Rightarrow> wire_get" where
  "stored cs a = (case map_of cs a of None \<Rightarrow> Inl ''not found'' | Some w \<Rightarrow> Inr w)"


end
