(* ===== verification/Cheques.thy ===== *)
theory Cheques
  imports Ledger "HOL-Library.Countable"
begin

text \<open>
  The cheques a client has issued, \<^verbatim>\<open>src/cheques.rs\<close>: per payee the cumulative amount promised, the file it is kept in,
  and the gates that keep the promises increasing and within the balance of the chequebook. Strings are lists of ASCII
  characters, so lower-casing is the ASCII one; the file operations are those of the relay's ledger.
\<close>

section \<open>The store\<close>

datatype cheque_store_error =
    ChequeIo
  | ChequeJson
  | ChequebookMismatch string string
  | ChequeOverflow
  | ChequeParse string

text \<open>The document: version, chequebook, and the payees with their amounts as decimal text.\<close>

record cheque_disk =
  cd_version :: u32
  cd_chequebook :: string
  cd_peers :: "(string \<times> string) list"

record cheque_store =
  st_chequebook :: bytes
  st_payouts :: "(string, u128) hashmap"
  st_path :: "string option"

record cheque_serde =
  cz_hex :: "bytes \<Rightarrow> string"
  cz_encode :: "cheque_disk \<Rightarrow> string option"
  cz_decode :: "string \<Rightarrow> cheque_disk option"

definition cheque_store_new :: "bytes \<Rightarrow> cheque_store" where
  "cheque_store_new cb = \<lparr>st_chequebook = cb, st_payouts = [], st_path = None\<rparr>"

fun load_peers :: "(string \<times> string) list \<Rightarrow> cheque_store \<Rightarrow> cheque_store_error + cheque_store" where
  "load_peers [] s = Inr s"
| "load_peers ((k, v) # rest) s =
     (case uint_from_str v of
        None \<Rightarrow> Inl (ChequeParse v)
      | Some n \<Rightarrow> load_peers rest (s\<lparr>st_payouts := hm_insert (to_ascii_lowercase k) n (st_payouts s)\<rparr>))"

definition load_cheque_disk :: "cheque_serde \<Rightarrow> cheque_store \<Rightarrow> string \<Rightarrow> cheque_store_error + cheque_store" where
  "load_cheque_disk z s body =
     (case cz_decode z body of
        None \<Rightarrow> Inl ChequeJson
      | Some d \<Rightarrow>
          let file_hex = to_ascii_lowercase (trim_0x (cd_chequebook d));
              runtime_hex = cz_hex z (st_chequebook s)
          in if file_hex \<noteq> runtime_hex then Inl (ChequebookMismatch (''0x'' @ file_hex) (''0x'' @ runtime_hex))
             else load_peers (cd_peers d) s)"

definition cheques_load_or_create ::
    "cheque_serde \<Rightarrow> io \<Rightarrow> string \<Rightarrow> bytes \<Rightarrow> fs \<Rightarrow> cheque_store_error + cheque_store" where
  "cheques_load_or_create z io p cb fs =
     (let s = (cheque_store_new cb)\<lparr>st_path := Some p\<rparr> in
      case hm_get fs p of
        None \<Rightarrow> Inr s
      | Some body \<Rightarrow> if \<not> io_read_ok io then Inl ChequeIo else load_cheque_disk z s body)"

definition issued_to :: "cheque_store \<Rightarrow> string \<Rightarrow> u128" where
  "issued_to s key = (case hm_get (st_payouts s) (to_ascii_lowercase key) of None \<Rightarrow> 0 | Some n \<Rightarrow> n)"

definition bump_and_get :: "cheque_store \<Rightarrow> string \<Rightarrow> u128 \<Rightarrow> (cheque_store_error + u128) \<times> cheque_store" where
  "bump_and_get s peer delta =
     (let key = to_ascii_lowercase peer;
          cur = (case hm_get (st_payouts s) key of None \<Rightarrow> 0 | Some n \<Rightarrow> n)
      in if unat cur + unat delta \<ge> 2 ^ 128 then (Inl ChequeOverflow, s)
         else (Inr (cur + delta), s\<lparr>st_payouts := hm_insert key (cur + delta) (st_payouts s)\<rparr>))"

text \<open>\<^verbatim>\<open>Path::with_extension("json.tmp")\<close>.\<close>

definition cheque_tmp :: "string \<Rightarrow> string" where
  "cheque_tmp p =
     (let n = file_name p in
      if n = [] \<or> n = ''.'' \<or> n = ''..'' then p
      else take (length p - length n) p @ file_stem n @ ''.json.tmp'')"

definition to_cheque_disk :: "cheque_serde \<Rightarrow> cheque_store \<Rightarrow> cheque_disk" where
  "to_cheque_disk z s =
     \<lparr>cd_version = 1, cd_chequebook = ''0x'' @ cz_hex z (st_chequebook s),
      cd_peers = map (\<lambda>(k, v). (k, uint_to_string v)) (sort_key fst (st_payouts s))\<rparr>"

definition cheques_save :: "cheque_serde \<Rightarrow> io \<Rightarrow> cheque_store \<Rightarrow> fs \<Rightarrow> (cheque_store_error + unit) \<times> fs" where
  "cheques_save z io s fs =
     (case st_path s of
        None \<Rightarrow> (Inr (), fs)
      | Some p \<Rightarrow>
          (case cz_encode z (to_cheque_disk z s) of
             None \<Rightarrow> (Inl ChequeJson, fs)
           | Some body \<Rightarrow>
               let tmp = cheque_tmp p in
               case io_write_fails io of
                 Some part \<Rightarrow> (Inl ChequeIo, hm_insert tmp part fs)
               | None \<Rightarrow>
                   let fs1 = hm_insert tmp body fs in
                   if io_rename_ok io then (Inr (), hm_insert p body (hm_remove tmp fs1)) else (Inl ChequeIo, fs1)))"

definition relay_key :: "cheque_serde \<Rightarrow> bytes \<Rightarrow> string" where
  "relay_key z ben = ''relay:'' @ cz_hex z ben"

definition total_issued :: "cheque_store \<Rightarrow> u128" where
  "total_issued s = foldl saturating_add 0 (map snd (st_payouts s))"

definition would_exceed_balance :: "cheque_store \<Rightarrow> string \<Rightarrow> u128 \<Rightarrow> u128 \<Rightarrow> bool" where
  "would_exceed_balance s key cumulative balance =
     (saturating_add (saturating_sub (total_issued s) (issued_to s key)) cumulative > balance)"

definition set_cumulative :: "cheque_store \<Rightarrow> string \<Rightarrow> u128 \<Rightarrow> (cheque_store_error + unit) \<times> cheque_store" where
  "set_cumulative s key cumulative =
     (let k = to_ascii_lowercase key;
          cur = (case hm_get (st_payouts s) k of None \<Rightarrow> 0 | Some n \<Rightarrow> n)
      in if cumulative < cur then (Inl ChequeOverflow, s)
         else (Inr (), s\<lparr>st_payouts := hm_insert k cumulative (st_payouts s)\<rparr>))"

section \<open>Promises only grow and stay within the balance\<close>

text \<open>A well-formed store has one entry per payee, under its lower-cased name.\<close>

definition store_wf :: "cheque_store \<Rightarrow> bool" where
  "store_wf s = (hm_wf (st_payouts s) \<and> (\<forall>k \<in> fst ` set (st_payouts s). to_ascii_lowercase k = k))"

definition promised :: "cheque_store \<Rightarrow> nat" where
  "promised s = hm_sum unat (st_payouts s)"

lemma lowercase_idem [simp]: "to_ascii_lowercase (to_ascii_lowercase s) = to_ascii_lowercase s"
proof -
  have "of_char (char_of (n + 32) :: char) = n + 32" if "n \<le> 90" for n :: nat
    using that by (simp add: of_char_of)
  then show ?thesis by (simp add: to_ascii_lowercase_def Let_def)
qed

lemma lowercase_append [simp]: "to_ascii_lowercase (s @ t) = to_ascii_lowercase s @ to_ascii_lowercase t"
  by (simp add: to_ascii_lowercase_def)

lemma unat_fold_saturating:
  "unat (foldl saturating_add a xs) = min (unat a + sum_list (map unat xs)) (2 ^ 128 - 1)" for a :: u128
proof (induction xs arbitrary: a)
  case Nil
  then show ?case using unat_lt [of a] by simp
next
  case (Cons x xs)
  then show ?case by (simp add: unat_saturating_add)
qed

lemma unat_total_issued: "unat (total_issued s) = min (promised s) (2 ^ 128 - 1)"
  unfolding total_issued_def unat_fold_saturating promised_def hm_sum_def by (simp add: comp_def split_def)


lemma issued_to_lower [simp]: "issued_to s (to_ascii_lowercase k) = issued_to s k"
  by (simp add: issued_to_def)

lemma issued_to_put:
  "issued_to (s\<lparr>st_payouts := hm_insert (to_ascii_lowercase key) n (st_payouts s)\<rparr>) k =
     (if to_ascii_lowercase k = to_ascii_lowercase key then n else issued_to s k)"
  by (simp add: issued_to_def)

lemma promised_put:
  "promised (s\<lparr>st_payouts := hm_insert (to_ascii_lowercase key) n (st_payouts s)\<rparr>) + unat (issued_to s key) = promised s + unat n"
  using hm_sum_insert [of unat "to_ascii_lowercase key" n "st_payouts s"]
  by (simp add: promised_def issued_to_def split: option.splits)

lemma issued_le_promised: "unat (issued_to s k) \<le> promised s"
  using hm_get_le_hm_sum [of "st_payouts s" "to_ascii_lowercase k" _ unat] by (simp add: issued_to_def promised_def split: option.split)

lemma store_wf_put:
  "store_wf s \<Longrightarrow> store_wf (s\<lparr>st_payouts := hm_insert (to_ascii_lowercase key) n (st_payouts s)\<rparr>)"
  by (auto simp: store_wf_def keys_hm_insert)

lemma set_cumulative_cases:
  obtains (kept) "set_cumulative s key n = (Inl ChequeOverflow, s)" "n < issued_to s key"
  | (raised) "set_cumulative s key n = (Inr (), s\<lparr>st_payouts := hm_insert (to_ascii_lowercase key) n (st_payouts s)\<rparr>)"
      "issued_to s key \<le> n"
  by (cases "n < issued_to s key") (auto simp: set_cumulative_def issued_to_def Let_def split: option.splits)

lemma bump_and_get_cases:
  obtains (kept) "bump_and_get s key d = (Inl ChequeOverflow, s)" "2 ^ 128 \<le> unat (issued_to s key) + unat d"
  | (raised) n where "bump_and_get s key d = (Inr n, s\<lparr>st_payouts := hm_insert (to_ascii_lowercase key) n (st_payouts s)\<rparr>)"
      "unat n = unat (issued_to s key) + unat d"
proof (cases "2 ^ 128 \<le> unat (issued_to s key) + unat d")
  case True
  then show ?thesis using kept by (simp add: bump_and_get_def issued_to_def Let_def split: option.splits)
next
  case False
  then have "unat (issued_to s key + d) = unat (issued_to s key) + unat d" by (simp add: unat_add_bounded)
  then show ?thesis
    using False raised [of "issued_to s key + d"] by (simp add: bump_and_get_def issued_to_def Let_def split: option.splits)
qed

text \<open>The gate: a promise it lets through keeps the sum of all promises within the balance.\<close>

lemma gate_within_balance:
  assumes "promised s \<le> unat balance" "balance < - 1" "\<not> would_exceed_balance s key n balance"
  shows "promised (s\<lparr>st_payouts := hm_insert (to_ascii_lowercase key) n (st_payouts s)\<rparr>) \<le> unat balance"
proof -
  have b: "unat balance < 2 ^ 128 - 1" using assms(2) by (simp add: word_less_nat_alt unsigned_minus_1_eq_mask mask_eq_exp_minus_1)
  have "unat (saturating_add (saturating_sub (total_issued s) (issued_to s key)) n) \<le> unat balance"
    using assms(3) by (simp add: would_exceed_balance_def word_less_nat_alt)
  then have "promised s - unat (issued_to s key) + unat n \<le> unat balance"
    using b assms(1) by (simp add: unat_saturating_add unat_saturating_sub unat_total_issued min_def split: if_splits)
  then show ?thesis using promised_put [where s = s and key = key and n = n] issued_le_promised [of s key] by linarith
qed

section \<open>The file\<close>

text \<open>What is used of JSON and of hexadecimal printing.\<close>

definition cheque_serde_ok :: "cheque_serde \<Rightarrow> bool" where
  "cheque_serde_ok z =
     ((\<forall>d. \<exists>body. cz_encode z d = Some body \<and> cz_decode z body = Some d) \<and> inj (cz_hex z) \<and>
      (\<forall>b. set (cz_hex z b) \<subseteq> set ''0123456789abcdef''))"

lemma lowercase_hex:
  assumes "set t \<subseteq> set ''0123456789abcdef''"
  shows "to_ascii_lowercase t = t" "CHR ''x'' \<notin> set t"
proof -
  show "CHR ''x'' \<notin> set t" using assms by auto
  have "(let n = of_char c :: nat in if 65 \<le> n \<and> n \<le> 90 then char_of (n + 32) else c) = c" if "c \<in> set t" for c
    using that assms by (auto simp: Let_def)
  then show "to_ascii_lowercase t = t" unfolding to_ascii_lowercase_def by (rule map_idI)
qed

lemma trim_0x_prefixed: "CHR ''x'' \<notin> set t \<Longrightarrow> trim_0x (''0x'' @ t) = t"
  by (simp add: trim_0x_id)

lemma load_peers_saved:
  assumes "\<forall>k \<in> fst ` set xs. to_ascii_lowercase k = k"
  shows "load_peers (map (\<lambda>(k, v). (k, uint_to_string v)) xs) s = Inr (s\<lparr>st_payouts := hm_of_list xs (st_payouts s)\<rparr>)"
  using assms by (induction xs arbitrary: s) (auto simp: case_prod_beta)

lemma keys_hm_of_list: "hm_wf m \<Longrightarrow> hm_wf (hm_of_list xs m) \<and> fst ` set (hm_of_list xs m) = fst ` set xs \<union> fst ` set m"
proof (induction xs arbitrary: m)
  case (Cons x xs)
  then show ?case by (cases x) (simp add: keys_hm_insert)
qed simp

lemma load_saved:
  assumes z: "cheque_serde_ok z" and wf: "store_wf s" and body: "cz_encode z (to_cheque_disk z s) = Some body"
    and get: "hm_get fs p = Some body" and rd: "io_read_ok io" and cb: "st_chequebook s = cb"
  obtains t where "cheques_load_or_create z io p cb fs = Inr t" "\<And>k. issued_to t k = issued_to s k" "store_wf t"
    "st_chequebook t = cb" "st_path t = Some p"
proof -
  have dec: "cz_decode z body = Some (to_cheque_disk z s)"
    using z body unfolding cheque_serde_ok_def by (metis option.inject)
  have hex: "set (cz_hex z cb) \<subseteq> set ''0123456789abcdef''" using z by (simp add: cheque_serde_ok_def)
  have low: "\<forall>k \<in> fst ` set (sort_key fst (st_payouts s)). to_ascii_lowercase k = k"
    using wf by (simp add: store_wf_def)
  define t where "t = \<lparr>st_chequebook = cb, st_payouts = hm_of_list (sort_key fst (st_payouts s)) [], st_path = Some p\<rparr>"
  have "cheques_load_or_create z io p cb fs = Inr t"
    using load_peers_saved [OF low] lowercase_hex [OF hex] rd
    by (simp add: cheques_load_or_create_def get load_cheque_disk_def dec to_cheque_disk_def cb cheque_store_new_def
        trim_0x_id t_def Let_def)
  moreover have "hm_get (st_payouts t) = hm_get (st_payouts s)"
    using hm_get_of_sorted [of "st_payouts s" fst] wf by (simp add: t_def store_wf_def)
  moreover have "hm_wf (st_payouts t)" "fst ` set (st_payouts t) = fst ` set (st_payouts s)"
    using keys_hm_of_list [of "[]" "sort_key fst (st_payouts s)"] by (simp_all add: t_def)
  ultimately show thesis using that [of t] wf by (simp add: issued_to_def t_def store_wf_def)
qed

lemma load_other_chequebook:
  assumes z: "cheque_serde_ok z" and body: "cz_encode z (to_cheque_disk z s) = Some body"
    and get: "hm_get fs p = Some body" and rd: "io_read_ok io" and cb: "st_chequebook s \<noteq> cb"
  shows "cheques_load_or_create z io p cb fs =
    Inl (ChequebookMismatch (''0x'' @ cz_hex z (st_chequebook s)) (''0x'' @ cz_hex z cb))"
proof -
  have dec: "cz_decode z body = Some (to_cheque_disk z s)"
    using z body unfolding cheque_serde_ok_def by (metis option.inject)
  have hex: "set (cz_hex z (st_chequebook s)) \<subseteq> set ''0123456789abcdef''" using z by (simp add: cheque_serde_ok_def)
  have "cz_hex z (st_chequebook s) \<noteq> cz_hex z cb" using z cb by (auto simp: cheque_serde_ok_def inj_def)
  then show ?thesis
    using lowercase_hex [OF hex] rd
    by (simp add: cheques_load_or_create_def get load_cheque_disk_def dec to_cheque_disk_def cheque_store_new_def
        trim_0x_id Let_def)
qed


text \<open>
  C18. The promises survive a restart of the client. When saving succeeds, loading the file for the same chequebook gives
  a store with the same cumulative amount for every payee, and loading it for another chequebook is refused with both
  names. When saving fails, at any step, the file that was there before is untouched.
\<close>

theorem issued_cheques_durable:
  assumes "cheque_serde_ok z" "store_wf s" "st_path s = Some p" "cheque_tmp p \<noteq> p" "cheques_save z io s fs = (r, fs')"
  shows "(r = Inr () \<longrightarrow>
      (\<forall>io' cb. io_read_ok io' \<longrightarrow>
        (if cb = st_chequebook s
         then \<exists>t. cheques_load_or_create z io' p cb fs' = Inr t \<and> store_wf t \<and> (\<forall>k. issued_to t k = issued_to s k)
         else cheques_load_or_create z io' p cb fs' =
           Inl (ChequebookMismatch (''0x'' @ cz_hex z (st_chequebook s)) (''0x'' @ cz_hex z cb))))) \<and>
    (r \<noteq> Inr () \<longrightarrow> hm_get fs' p = hm_get fs p)"
proof -
  obtain body where body: "cz_encode z (to_cheque_disk z s) = Some body"
    using assms(1) unfolding cheque_serde_ok_def by blast
  have saved: "hm_get fs' p = Some body" if "r = Inr ()"
    using assms(3-5) that by (auto simp: cheques_save_def body Let_def split: option.splits if_splits)
  have "hm_get fs' p = hm_get fs p" if "r \<noteq> Inr ()"
    using assms(3-5) that by (auto simp: cheques_save_def body Let_def split: option.splits if_splits)
  moreover have "\<exists>t. cheques_load_or_create z io' p (st_chequebook s) fs' = Inr t \<and> store_wf t \<and> (\<forall>k. issued_to t k = issued_to s k)"
    if "r = Inr ()" "io_read_ok io'" for io'
    by (rule load_saved [OF assms(1,2) body saved [OF that(1)] that(2) refl]) blast
  ultimately show ?thesis
    using load_other_chequebook [OF assms(1) body saved] by simp
qed

text \<open>A document format for the example.\<close>

definition number_cheques :: cheque_serde where
  "number_cheques =
     \<lparr>cz_hex = plain_hex_encode,
      cz_encode = (\<lambda>d. Some (nat_to_dec (to_nat (unat (cd_version d), cd_chequebook d, cd_peers d)))),
      cz_decode = (\<lambda>t. map_option (\<lambda>n. case from_nat n of (v, c, ps) \<Rightarrow> \<lparr>cd_version = of_nat v, cd_chequebook = c, cd_peers = ps\<rparr>)
        (parse_digits 0 t))\<rparr>"

lemma nibble_char_digit: "n < 16 \<Longrightarrow> nibble_char n \<in> set ''0123456789abcdef''"
proof -
  have "list_all (\<lambda>i. nibble_char i \<in> set ''0123456789abcdef'') [0..<16]" by code_simp
  then show "n < 16 \<Longrightarrow> nibble_char n \<in> set ''0123456789abcdef''" unfolding list_all_iff by (simp del: upt_rec_numeral)
qed

lemma plain_hex_digits: "set (plain_hex_encode b) \<subseteq> set ''0123456789abcdef''"
proof (induction b)
  case (Cons x b)
  have "unat x div 16 < 16" "unat x mod 16 < 16" using unat_lt [of x] by auto
  then show ?case using Cons nibble_char_digit by simp
qed simp

lemma cheque_serde_ok_number: "cheque_serde_ok number_cheques"
proof -
  have "inj plain_hex_encode" by (metis injI option.inject plain_hex_roundtrip)
  then show ?thesis using plain_hex_digits by (simp add: cheque_serde_ok_def number_cheques_def parse_digits_nat_to_dec)
qed

definition demo_store :: cheque_store where
  "demo_store = \<lparr>st_chequebook = [1, 2], st_payouts = [(''relay:aa'', 7), (''relay:bb'', 5)], st_path = Some ''cheques.json''\<rparr>"

theorem issued_cheques_durable_witness:
  "\<exists>fs t. cheques_save number_cheques \<lparr>io_read_ok = True, io_write_fails = None, io_rename_ok = True\<rparr> demo_store [] = (Inr (), fs) \<and>
    cheques_load_or_create number_cheques \<lparr>io_read_ok = True, io_write_fails = None, io_rename_ok = True\<rparr> ''cheques.json'' [1, 2] fs = Inr t \<and>
    issued_to t ''Relay:BB'' = 5"
proof -
  let ?io = "\<lparr>io_read_ok = True, io_write_fails = None, io_rename_ok = True\<rparr>"
  obtain fs where fs: "cheques_save number_cheques ?io demo_store [] = (Inr (), fs)"
    by (simp add: cheques_save_def demo_store_def number_cheques_def Let_def)
  have wf: "store_wf demo_store" by (simp add: store_wf_def demo_store_def hm_wf_def to_ascii_lowercase_def)
  have p: "st_path demo_store = Some ''cheques.json''" "cheque_tmp ''cheques.json'' \<noteq> ''cheques.json''"
    by (simp_all add: demo_store_def cheque_tmp_def file_name_def file_stem_def Let_def)
  have five: "issued_to demo_store ''Relay:BB'' = 5"
    by (simp add: issued_to_def demo_store_def to_ascii_lowercase_def hm_get_def char_of_def bit_Suc_0_iff)
  have cb: "st_chequebook demo_store = [1, 2]" by (simp add: demo_store_def)
  have rd: "io_read_ok ?io" by simp
  note durable = issued_cheques_durable [OF cheque_serde_ok_number wf p fs, THEN conjunct1, THEN mp, OF refl]
  obtain t where "cheques_load_or_create number_cheques ?io ''cheques.json'' (st_chequebook demo_store) fs = Inr t"
      "\<forall>k. issued_to t k = issued_to demo_store k"
    using durable [THEN spec, THEN spec, THEN mp, OF rd, of "st_chequebook demo_store", unfolded eqTrueI [OF refl] if_True] by blast
  then show ?thesis unfolding cb using fs five by metis
qed

end
