(* ===== verification/Payer.thy ===== *)
theory Payer
  imports Cheques Swap Meter Pushframe
begin

text \<open>
  The client side of a metered lane, \<^verbatim>\<open>src/payer.rs\<close>: verification of the signed price quote, the challenge header, the
  running account of a lane, the sizing of requests, and settlement by cumulative cheques. HTTP answers, the clock and
  what other lanes do to the shared cheque store meanwhile come from a \<^verbatim>\<open>lane_http\<close>; error texts are fixed words.
\<close>

section \<open>The quote\<close>

record payment_quote =
  pq_beneficiary :: bytes
  pq_node_eth_address :: bytes
  pq_overlay_nonce :: bytes
  pq_origin :: string
  pq_chain_id :: u64
  pq_params :: params
  pq_hard_enforcement :: bool

record lane_pin =
  lp_node_eth_address :: bytes
  lp_beneficiary :: bytes

datatype quote_error =
    QuoteField string
  | QuoteSignature
  | WrongSigner bytes bytes
  | WrongBeneficiary bytes bytes
  | OverlayMismatch
  | QuoteBadParams params_error
  | TooExpensive u128 u128

definition quote_text :: "json \<Rightarrow> string \<Rightarrow> quote_error + string" where
  "quote_text v k = (case Option.bind (json_get v k) as_str of None \<Rightarrow> Inl (QuoteField k) | Some s \<Rightarrow> Inr s)"

definition quote_bytes :: "'z wire_codec_scheme \<Rightarrow> json \<Rightarrow> string \<Rightarrow> usize \<Rightarrow> quote_error + bytes" where
  "quote_bytes w v k n =
     bind_sum (quote_text v k) (\<lambda>s.
       case wc_hex_decode w (trim_0x s) of
         None \<Rightarrow> Inl (QuoteField k)
       | Some raw \<Rightarrow> if length raw \<noteq> n then Inl (QuoteField k) else Inr raw)"

definition quote_plur :: "json \<Rightarrow> string \<Rightarrow> quote_error + u128" where
  "quote_plur v k = bind_sum (quote_text v k) (\<lambda>s. case uint_from_str s of None \<Rightarrow> Inl (QuoteField k) | Some n \<Rightarrow> Inr n)"

definition quote_u64 :: "json \<Rightarrow> string \<Rightarrow> quote_error + u64" where
  "quote_u64 v k = (case Option.bind (json_get v k) as_u64 of None \<Rightarrow> Inl (QuoteField k) | Some n \<Rightarrow> Inr n)"

definition without_sig :: "json \<Rightarrow> quote_error + json" where
  "without_sig v =
     (case v of JObject kvs \<Rightarrow> Inr (JObject (filter (\<lambda>(k, _). k \<noteq> ''sig'') kvs)) | _ \<Rightarrow> Inl (QuoteField ''payment''))"

definition quote_signer :: "crypto \<Rightarrow> 'z wire_codec_scheme \<Rightarrow> json \<Rightarrow> quote_error + bytes" where
  "quote_signer c w v =
     bind_sum (quote_text v ''sig'') (\<lambda>sig_hex.
       case wc_hex_decode w (trim_0x sig_hex) of
         None \<Rightarrow> Inl QuoteSignature
       | Some sig \<Rightarrow>
           bind_sum (without_sig v) (\<lambda>unsigned.
             case recover_eth_from_eip191 c (as_bytes (json_print w unsigned)) sig of
               Inl e \<Rightarrow> Inl QuoteSignature
             | Inr a \<Rightarrow> Inr a))"

definition check_pin :: "lane_pin option \<Rightarrow> bytes \<Rightarrow> bytes \<Rightarrow> quote_error + unit" where
  "check_pin pin node ben =
     (case pin of
        None \<Rightarrow> Inr ()
      | Some p \<Rightarrow>
          if lp_node_eth_address p \<noteq> node then Inl (WrongSigner node (lp_node_eth_address p))
          else if lp_beneficiary p \<noteq> ben then Inl (WrongBeneficiary ben (lp_beneficiary p))
          else Inr ())"

definition quote_params :: "json \<Rightarrow> quote_error + params" where
  "quote_params v =
     bind_sum (quote_plur v ''price_plur_per_kib'') (\<lambda>price.
     bind_sum (quote_plur v ''min_cheque_plur'') (\<lambda>min_cheque.
     bind_sum (quote_plur v ''settle_every_plur'') (\<lambda>settle_every.
     bind_sum (quote_plur v ''max_outstanding_plur'') (\<lambda>max_out.
     bind_sum (quote_u64 v ''credit_ratio'') (\<lambda>ratio.
       Inr \<lparr>price_plur_per_kib = price, min_cheque_plur = min_cheque, settle_every_plur = settle_every,
            max_outstanding_plur = max_out, credit_ratio = ucast ratio\<rparr>)))))"

definition check_validity_secs :: "json \<Rightarrow> quote_error + unit" where
  "check_validity_secs v =
     (case json_get v ''quote_valid_secs'' of
        None \<Rightarrow> Inr ()
      | Some x \<Rightarrow>
          (case as_u64 x of
             None \<Rightarrow> Inl (QuoteField ''quote_valid_secs'')
           | Some n \<Rightarrow> if n = 0 then Inl (QuoteField ''quote_valid_secs'') else Inr ()))"

definition quote_verify :: "crypto \<Rightarrow> 'z wire_codec_scheme \<Rightarrow> json \<Rightarrow> bytes option \<Rightarrow> u64 \<Rightarrow> lane_pin option \<Rightarrow> u128
    \<Rightarrow> quote_error + payment_quote" where
  "quote_verify c w v advertised_overlay network_id pin limit =
     bind_sum (quote_signer c w v) (\<lambda>node.
     bind_sum (quote_bytes w v ''beneficiary'' 20) (\<lambda>ben.
     bind_sum (quote_bytes w v ''node_eth_address'' 20) (\<lambda>claimed.
       if claimed \<noteq> node then Inl (WrongSigner node claimed)
       else
         bind_sum (quote_bytes w v ''overlay_nonce'' 32) (\<lambda>overlay_nonce.
         bind_sum (check_pin pin node ben) (\<lambda>_.
           if (case advertised_overlay of None \<Rightarrow> False | Some ov \<Rightarrow> derive_overlay c node network_id overlay_nonce \<noteq> ov)
           then Inl OverlayMismatch
           else
             bind_sum (quote_params v) (\<lambda>ps.
             bind_sum (check_validity_secs v) (\<lambda>_.
               case validate ps of
                 Inl e \<Rightarrow> Inl (QuoteBadParams e)
               | Inr _ \<Rightarrow>
                   if price_plur_per_kib ps > limit then Inl (TooExpensive (price_plur_per_kib ps) limit)
                   else
                     bind_sum (quote_u64 v ''chain_id'') (\<lambda>chain.
                       Inr \<lparr>pq_beneficiary = ben, pq_node_eth_address = node, pq_overlay_nonce = overlay_nonce,
                            pq_origin = (case Option.bind (json_get v ''origin'') as_str of None \<Rightarrow> [] | Some s \<Rightarrow> s),
                            pq_chain_id = chain, pq_params = ps,
                            pq_hard_enforcement = (Option.bind (json_get v ''enforcement'') as_str = Some ''hard'')\<rparr>))))))))"

section \<open>The challenge\<close>

record offered_challenge =
  oc_nonce :: bytes
  oc_account :: bytes
  oc_batch :: bytes
  oc_origin :: string
  oc_expiry_unix :: u64
  oc_cap_plur :: u128

definition offered_bytes :: "'z wire_codec_scheme \<Rightarrow> json \<Rightarrow> string \<Rightarrow> usize \<Rightarrow> string + bytes" where
  "offered_bytes w v k n =
     (case Option.bind (json_get v k) as_str of
        None \<Rightarrow> Inl (''challenge: missing '' @ k)
      | Some s \<Rightarrow>
          (case wc_hex_decode w (trim_0x s) of
             None \<Rightarrow> Inl (''challenge '' @ k)
           | Some raw \<Rightarrow> if length raw \<noteq> n then Inl (''challenge '' @ k @ '': length'') else Inr raw))"

definition or_missing :: "string \<Rightarrow> 'a option \<Rightarrow> string + 'a" where
  "or_missing k x = (case x of None \<Rightarrow> Inl (''challenge: missing '' @ k) | Some y \<Rightarrow> Inr y)"

definition offered_parse :: "'z wire_codec_scheme \<Rightarrow> json \<Rightarrow> string + offered_challenge" where
  "offered_parse w v =
     bind_sum (offered_bytes w v ''nonce'' 32) (\<lambda>nonce.
     bind_sum (offered_bytes w v ''account'' 20) (\<lambda>account.
     bind_sum (offered_bytes w v ''batch'' 32) (\<lambda>batch.
     bind_sum (or_missing ''origin'' (Option.bind (json_get v ''origin'') as_str)) (\<lambda>origin.
     bind_sum (or_missing ''expiry'' (Option.bind (json_get v ''expiry'') as_u64)) (\<lambda>expiry.
     bind_sum (or_missing ''max_outstanding_plur''
         (Option.bind (Option.bind (json_get v ''max_outstanding_plur'') as_str) uint_from_str)) (\<lambda>line.
       Inr \<lparr>oc_nonce = nonce, oc_account = account, oc_batch = batch, oc_origin = origin, oc_expiry_unix = expiry,
            oc_cap_plur = line\<rparr>))))))"

definition offered_sign :: "crypto \<Rightarrow> wire_codec \<Rightarrow> swarm_signer \<Rightarrow> u64 \<Rightarrow> offered_challenge \<Rightarrow> string + string" where
  "offered_sign c w signer chain oc =
     (case sign_push_challenge c signer
             (PushChallenge (oc_nonce oc) (oc_origin oc) (oc_account oc) (oc_batch oc) (ucast (oc_expiry_unix oc))) chain of
        Inl e \<Rightarrow> Inl ''sign''
      | Inr sig \<Rightarrow>
          Inr (encode_challenge_header w
            \<lparr>ic_fields = \<lparr>cf_account = oc_account oc, cf_batch = oc_batch oc, cf_origin = oc_origin oc,
               cf_expiry_unix = oc_expiry_unix oc, cf_cap_plur = oc_cap_plur oc\<rparr>, ic_nonce = oc_nonce oc\<rparr> sig))"

definition stale_after :: "offered_challenge \<Rightarrow> u64" where
  "stale_after oc = saturating_sub (oc_expiry_unix oc) 30"

section \<open>The account of a lane\<close>

record lane_account =
  la_params :: params
  la_beneficiary :: bytes
  la_owed :: u128
  la_pending :: u128
  la_cumulative :: u128
  la_cap :: u128

definition lane_account_new :: "params \<Rightarrow> bytes \<Rightarrow> lane_account" where
  "lane_account_new p ben =
     \<lparr>la_params = p, la_beneficiary = ben, la_owed = 0, la_pending = 0, la_cumulative = 0, la_cap = 0\<rparr>"

definition with_cumulative :: "lane_account \<Rightarrow> u128 \<Rightarrow> lane_account" where
  "with_cumulative a n = a\<lparr>la_cumulative := n\<rparr>"

definition set_cumulative_to :: "lane_account \<Rightarrow> u128 \<Rightarrow> lane_account" where
  "set_cumulative_to a n = (if n > la_cumulative a then a\<lparr>la_cumulative := n\<rparr> else a)"

definition la_outstanding :: "lane_account \<Rightarrow> u128" where
  "la_outstanding a = saturating_add (la_owed a) (la_pending a)"

definition record_sent :: "lane_account \<Rightarrow> u64 \<Rightarrow> lane_account" where
  "record_sent a n = a\<lparr>la_pending := saturating_add (la_pending a) (price_bytes (la_params a) n)\<rparr>"

definition record_answered :: "lane_account \<Rightarrow> u64 \<Rightarrow> bool \<Rightarrow> lane_account" where
  "record_answered a n reached_relay =
     (let price = price_bytes (la_params a) n;
          a1 = a\<lparr>la_pending := saturating_sub (la_pending a) price\<rparr>
      in if reached_relay then a1\<lparr>la_owed := saturating_add (la_owed a1) price\<rparr> else a1)"

definition refund_dedup :: "lane_account \<Rightarrow> u64 \<Rightarrow> lane_account" where
  "refund_dedup a n = a\<lparr>la_owed := saturating_sub (la_owed a) (price_bytes (la_params a) n)\<rparr>"

definition set_cap :: "lane_account \<Rightarrow> u128 \<Rightarrow> lane_account" where
  "set_cap a n = a\<lparr>la_cap := n\<rparr>"

definition thresholds :: "lane_account \<Rightarrow> effective_params" where
  "thresholds a =
     (if la_cap a = 0
      then \<lparr>eff_min_cheque_plur = min_cheque_plur (la_params a), eff_settle_every_plur = settle_every_plur (la_params a)\<rparr>
      else effective (la_params a) (la_cap a))"

definition should_settle :: "lane_account \<Rightarrow> bool" where
  "should_settle a = (la_owed a \<ge> eff_settle_every_plur (thresholds a))"

definition next_cumulative :: "lane_account \<Rightarrow> u128 option" where
  "next_cumulative a =
     (if la_owed a < eff_min_cheque_plur (thresholds a) then None
      else Some (saturating_add (la_cumulative a) (la_owed a)))"

definition forgive_phantom_debt :: "lane_account \<Rightarrow> lane_account" where
  "forgive_phantom_debt a = a\<lparr>la_owed := 0\<rparr>"

definition sync_relay_debt :: "lane_account \<Rightarrow> u128 \<Rightarrow> lane_account" where
  "sync_relay_debt a relay_owed = a\<lparr>la_owed := relay_owed\<rparr>"

definition adopt_relay_debt :: "lane_account \<Rightarrow> u128 \<Rightarrow> bool \<times> lane_account" where
  "adopt_relay_debt a relay_owed =
     (let adopt = saturating_sub relay_owed (la_pending a)
      in if adopt \<le> la_owed a then (False, a) else (True, a\<lparr>la_owed := adopt\<rparr>))"

definition settled :: "lane_account \<Rightarrow> u128 \<Rightarrow> lane_account" where
  "settled a n =
     a\<lparr>la_cumulative := n, la_owed := saturating_sub (la_owed a) (saturating_sub n (la_cumulative a))\<rparr>"

definition max_body_bytes :: "lane_account \<Rightarrow> u128 \<Rightarrow> u64" where
  "max_body_bytes a line =
     (let headroom = saturating_sub line (la_outstanding a);
          kib = headroom div max (price_plur_per_kib (la_params a)) 1
      in ucast (min (saturating_mul kib 1024) (ucast (- 1 :: u64))))"


section \<open>Paying a lane\<close>

record payment_config =
  pc_signer :: swarm_signer
  pc_batch :: bytes
  pc_chequebook :: bytes
  pc_chain_id :: u64
  pc_balance_plur :: u128

record lane_payer =
  py_base_url :: string
  py_quote :: payment_quote
  py_account :: lane_account
  py_header :: "string option"
  py_header_stale_after :: u64
  py_cap_plur :: u128

text \<open>
  Everything shared between the lanes: the cheque store and the disk it is saved on. A \<^verbatim>\<open>lane_http\<close> answers requests, with
  a state of its own: a transport error, or a status and a body. \<^verbatim>\<open>ht_now\<close> reads the clock; \<^verbatim>\<open>ht_others\<close> is what the other
  lanes did to the shared state while a payment was on its way.
\<close>

record cheque_share =
  sh_store :: cheque_store
  sh_disk :: fs

type_synonym reply = "string + nat \<times> string"

record 's lane_http =
  ht_now :: "'s \<Rightarrow> u64"
  ht_get :: "'s \<Rightarrow> string \<Rightarrow> string option \<Rightarrow> reply \<times> 's"
  ht_post :: "'s \<Rightarrow> string \<Rightarrow> string \<Rightarrow> bytes \<Rightarrow> reply \<times> 's"
  ht_others :: "'s \<Rightarrow> cheque_share \<Rightarrow> cheque_share"

record payer_env =
  pe_crypto :: crypto
  pe_codec :: cheque_codec
  pe_cheques :: cheque_serde
  pe_io :: io

definition is_success :: "nat \<Rightarrow> bool" where
  "is_success status = (200 \<le> status \<and> status < 300)"

definition trim_end_slash :: "string \<Rightarrow> string" where
  "trim_end_slash s = rev (dropWhile (\<lambda>c. c = CHR ''/'') (rev s))"

definition lane_payer_new :: "string \<Rightarrow> payment_quote \<Rightarrow> u128 \<Rightarrow> lane_payer" where
  "lane_payer_new url q cumulative =
     \<lparr>py_base_url = url, py_quote = q,
      py_account = with_cumulative (lane_account_new (pq_params q) (pq_beneficiary q)) cumulative,
      py_header = None, py_header_stale_after = 0, py_cap_plur = 0\<rparr>"

definition clear_header :: "lane_payer \<Rightarrow> lane_payer" where
  "clear_header y = y\<lparr>py_header := None, py_header_stale_after := 0\<rparr>"

definition sync_cumulative :: "payer_env \<Rightarrow> cheque_share \<Rightarrow> lane_payer \<Rightarrow> lane_payer" where
  "sync_cumulative e sh y =
     y\<lparr>py_account := set_cumulative_to (py_account y)
          (issued_to (sh_store sh) (relay_key (pe_cheques e) (pq_beneficiary (py_quote y))))\<rparr>"

definition cap_known :: "lane_payer \<Rightarrow> bool" where
  "cap_known y = (py_cap_plur y \<noteq> 0)"

text \<open>Fetching a challenge: its body as JSON, or an error.\<close>

definition fetch_challenge :: "payer_env \<Rightarrow> 's lane_http \<Rightarrow> payment_config \<Rightarrow> lane_payer \<Rightarrow> 's
    \<Rightarrow> (string + json) \<times> 's" where
  "fetch_challenge e h pc y s =
     (let w = pe_codec e;
          url = trim_end_slash (py_base_url y) @ ''/v1/challenge?account=0x'' @ wc_hex_encode w (sw_eth_address (pc_signer pc)) @
            ''&batch=0x'' @ wc_hex_encode w (pc_batch pc)
      in case ht_get h s url None of
           (Inl er, s1) \<Rightarrow> (Inl ''challenge fetch'', s1)
         | (Inr (status, body), s1) \<Rightarrow>
             if \<not> is_success status then (Inl ''challenge refused'', s1)
             else (case json_parse w (as_bytes body) of
                     None \<Rightarrow> (Inl ''challenge json'', s1)
                   | Some v \<Rightarrow> (Inr v, s1)))"

definition lane_header :: "payer_env \<Rightarrow> 's lane_http \<Rightarrow> payment_config \<Rightarrow> lane_payer \<Rightarrow> 's
    \<Rightarrow> (string + string) \<times> lane_payer \<times> 's" where
  "lane_header e h pc y s =
     (if pq_chain_id (py_quote y) \<noteq> pc_chain_id pc then (Inl ''chain'', y, s)
      else if py_header y = None \<or> ht_now h s \<ge> py_header_stale_after y then
        (case fetch_challenge e h pc y s of
           (Inl er, s1) \<Rightarrow> (Inl er, y, s1)
         | (Inr v, s1) \<Rightarrow>
             (case offered_parse (pe_codec e) v of
                Inl er \<Rightarrow> (Inl er, y, s1)
              | Inr oc \<Rightarrow>
                  let y1 = y\<lparr>py_cap_plur := oc_cap_plur oc, py_account := set_cap (py_account y) (oc_cap_plur oc),
                             py_header_stale_after := stale_after oc\<rparr>
                  in (case offered_sign (pe_crypto e) (wire_codec.truncate (pe_codec e)) (pc_signer pc)
                             (pq_chain_id (py_quote y)) oc of
                        Inl er \<Rightarrow> (Inl er, y1, s1)
                      | Inr hd' \<Rightarrow> (Inr hd', y1\<lparr>py_header := Some hd'\<rparr>, s1))))
      else (Inr (case py_header y of None \<Rightarrow> [] | Some hd' \<Rightarrow> hd'), y, s))"

section \<open>Sizing a request\<close>

function walk_down :: "params \<Rightarrow> u128 \<Rightarrow> usize \<Rightarrow> usize" where
  "walk_down p limit n =
     (if 1 < n \<and> price_bytes p (of_nat n * of_nat MAX_FRAME_LEN) > limit then walk_down p limit (n - 1) else n)"
  by auto
termination by (relation "measure (\<lambda>(p, limit, n). n)") auto

declare walk_down.simps [simp del]

text \<open>The largest \<^verbatim>\<open>usize\<close>, and the value \<open>None\<close> for the panic of a division by a price of zero.\<close>

definition usize_max :: usize where "usize_max = 2 ^ 64 - 1"

definition frames_within :: "lane_payer \<Rightarrow> u128 \<Rightarrow> usize option" where
  "frames_within y limit =
     (if limit = 0 then Some 0
      else
        let p = pq_params (py_quote y) in
        if price_plur_per_kib p = 0 then None
        else
          let n = min (unat (saturating_mul (limit div price_plur_per_kib p) 1024) div MAX_FRAME_LEN) usize_max
          in Some (max (walk_down p limit n) 1))"

definition max_frames :: "lane_payer \<Rightarrow> usize option" where
  "max_frames y = (if py_cap_plur y = 0 then Some usize_max else frames_within y (py_cap_plur y))"

definition affordable_frames :: "lane_payer \<Rightarrow> usize option" where
  "affordable_frames y =
     (if py_cap_plur y = 0 then Some usize_max
      else
        let headroom = saturating_sub (py_cap_plur y) (la_outstanding (py_account y)) in
        if price_bytes (pq_params (py_quote y)) (of_nat MAX_FRAME_LEN) > headroom then Some 0
        else frames_within y headroom)"

definition has_headroom :: "lane_payer \<Rightarrow> bool" where
  "has_headroom y =
     (py_cap_plur y = 0 \<or>
      saturating_add (la_outstanding (py_account y)) (price_bytes (pq_params (py_quote y)) (of_nat MAX_FRAME_LEN)) \<le> py_cap_plur y)"

definition would_exceed :: "lane_payer \<Rightarrow> u64 \<Rightarrow> bool" where
  "would_exceed y n =
     (py_cap_plur y > 0 \<and>
      saturating_add (la_outstanding (py_account y)) (price_bytes (pq_params (py_quote y)) n) > py_cap_plur y)"

section \<open>Reconciling with the relay\<close>

definition relay_owed :: "payer_env \<Rightarrow> 's lane_http \<Rightarrow> payment_config \<Rightarrow> lane_payer \<Rightarrow> 's
    \<Rightarrow> (string + u128) \<times> lane_payer \<times> 's" where
  "relay_owed e h pc y s =
     (case lane_header e h pc y s of
        (Inl er, y1, s1) \<Rightarrow> (Inl er, y1, s1)
      | (Inr hd', y1, s1) \<Rightarrow>
          (case ht_get h s1 (trim_end_slash (py_base_url y1) @ ''/v1/account'') (Some hd') of
             (Inl er, s2) \<Rightarrow> (Inl ''account fetch'', y1, s2)
           | (Inr (status, body), s2) \<Rightarrow>
               if \<not> is_success status then (Inl ''account: http'', y1, s2)
               else
                 (case json_parse (pe_codec e) (as_bytes body) of
                    None \<Rightarrow> (Inl ''account decode'', y1, s2)
                  | Some v \<Rightarrow>
                      (case Option.bind (json_get v ''owed_plur'') as_str of
                         None \<Rightarrow> (Inl ''account: missing owed_plur'', y1, s2)
                       | Some t \<Rightarrow>
                           (case uint_from_str t of
                              None \<Rightarrow> (Inl ''account: bad owed_plur'', y1, s2)
                            | Some n \<Rightarrow> (Inr n, y1, s2))))))"

definition check_reported_debt :: "lane_payer \<Rightarrow> u128 \<Rightarrow> u128 \<Rightarrow> string + unit" where
  "check_reported_debt y n balance =
     (if n > max_outstanding_plur (pq_params (py_quote y)) then Inl ''above the signed ceiling''
      else if n > balance then Inl ''more than the balance''
      else Inr ())"

definition reconcile :: "payer_env \<Rightarrow> 's lane_http \<Rightarrow> payment_config \<Rightarrow> lane_payer \<Rightarrow> 's
    \<Rightarrow> (string + bool) \<times> lane_payer \<times> 's" where
  "reconcile e h pc y s =
     (case relay_owed e h pc y s of
        (Inl er, y1, s1) \<Rightarrow> (Inl er, y1, s1)
      | (Inr n, y1, s1) \<Rightarrow>
          (case check_reported_debt y1 n (pc_balance_plur pc) of
             Inl er \<Rightarrow> (Inl er, y1, s1)
           | Inr _ \<Rightarrow> (case adopt_relay_debt (py_account y1) n of (moved, a) \<Rightarrow> (Inr moved, y1\<lparr>py_account := a\<rparr>, s1))))"

section \<open>Settling\<close>

text \<open>The state a payment works on, and its result: an error, or the cumulative amount accepted, if any.\<close>

type_synonym 's pay_state = "lane_payer \<times> cheque_share \<times> 's"
type_synonym 's pay_result = "(string + u128 option) \<times> 's pay_state"

text \<open>Recording an accepted cheque, with the second look at the balance; a failed save is ignored.\<close>

definition record_cheque :: "payer_env \<Rightarrow> payment_config \<Rightarrow> string \<Rightarrow> u128 \<Rightarrow> lane_payer \<Rightarrow> cheque_share \<Rightarrow> 's
    \<Rightarrow> 's pay_result" where
  "record_cheque e pc key n y sh s =
     (if would_exceed_balance (sh_store sh) key n (pc_balance_plur pc) then (Inl ''balance'', y, sh, s)
      else
        case set_cumulative (sh_store sh) key n of
          (Inl er, _) \<Rightarrow> (Inl ''cheque store'', y, sh, s)
        | (Inr _, st) \<Rightarrow>
            (Inr (Some n), y\<lparr>py_account := settled (py_account y) n\<rparr>,
             \<lparr>sh_store = st, sh_disk = snd (cheques_save (pe_cheques e) (pe_io e) st (sh_disk sh))\<rparr>, s))"

text \<open>
  One presentation of a cheque. \<open>correct\<close> is what to do when the relay says that less is owed, if that is still allowed.
\<close>

definition pay_once :: "('s pay_state \<Rightarrow> 's pay_result) option \<Rightarrow> payer_env \<Rightarrow> 's lane_http \<Rightarrow> payment_config \<Rightarrow> u128
    \<Rightarrow> 's pay_state \<Rightarrow> 's pay_result" where
  "pay_once correct e h pc n = (\<lambda>(y, sh, s).
     let q = py_quote y; key = relay_key (pe_cheques e) (pq_beneficiary q) in
     if pq_chain_id q \<noteq> pc_chain_id pc then (Inl ''chain'', y, sh, s)
     else if would_exceed_balance (sh_store sh) key n (pc_balance_plur pc) then (Inl ''balance'', y, sh, s)
     else
       case sign_cheque (pe_crypto e) (pc_signer pc) (pc_chequebook pc) (pq_beneficiary q) (ucast n) (pq_chain_id q) of
         Inl er \<Rightarrow> (Inl ''sign cheque'', y, sh, s)
       | Inr sig \<Rightarrow>
           let body = encode_signed_cheque_json (pe_codec e) (pc_chequebook pc) (pq_beneficiary q) (ucast n) sig in
           case lane_header e h pc y s of
             (Inl er, y1, s1) \<Rightarrow> (Inl er, y1, sh, s1)
           | (Inr hd', y1, s1) \<Rightarrow>
               (case ht_post h s1 (trim_end_slash (py_base_url y1) @ ''/v1/pay'') hd' body of
                  (Inl er, s2) \<Rightarrow> (Inl ''pay'', y1, ht_others h s2 sh, s2)
                | (Inr (status, reply), s2) \<Rightarrow>
                    let sh1 = ht_others h s2 sh in
                    if is_success status then record_cheque e pc key n y1 sh1 s2
                    else if str_contains ''nothing owed'' reply
                    then (Inr None, y1\<lparr>py_account := forgive_phantom_debt (py_account y1)\<rparr>, sh1, s2)
                    else (case correct of
                            Some retry \<Rightarrow> if str_contains ''is owed'' reply then retry (y1, sh1, s2) else (Inl ''pay'', y1, sh1, s2)
                          | None \<Rightarrow> (Inl ''pay'', y1, sh1, s2))))"

definition pay_corrected :: "payer_env \<Rightarrow> 's lane_http \<Rightarrow> payment_config \<Rightarrow> 's pay_state \<Rightarrow> 's pay_result" where
  "pay_corrected e h pc = (\<lambda>(y, sh, s).
     case relay_owed e h pc y s of
       (Inl er, y1, s1) \<Rightarrow> (Inl er, y1, sh, s1)
     | (Inr n, y1, s1) \<Rightarrow>
         let y2 = y1\<lparr>py_account := sync_relay_debt (py_account y1) n\<rparr> in
         case next_cumulative (py_account y2) of
           None \<Rightarrow> (Inr None, y2, sh, s1)
         | Some corrected \<Rightarrow> pay_once None e h pc corrected (y2, sh, s1))"

definition pay :: "payer_env \<Rightarrow> 's lane_http \<Rightarrow> payment_config \<Rightarrow> u128 \<Rightarrow> bool \<Rightarrow> 's pay_state \<Rightarrow> 's pay_result" where
  "pay e h pc n correct_once = pay_once (if correct_once then Some (pay_corrected e h pc) else None) e h pc n"

definition settle :: "payer_env \<Rightarrow> 's lane_http \<Rightarrow> payment_config \<Rightarrow> 's pay_state \<Rightarrow> 's pay_result" where
  "settle e h pc = (\<lambda>(y, sh, s).
     let y1 = sync_cumulative e sh y in
     case next_cumulative (py_account y1) of
       None \<Rightarrow> (Inr None, y1, sh, s)
     | Some n \<Rightarrow> pay e h pc n True (y1, sh, s))"

section \<open>Sizing is exact\<close>

text \<open>The headroom as a number, and when a body fits it.\<close>

lemma would_exceed_iff:
  assumes "py_cap_plur y \<noteq> 0" "py_cap_plur y < - 1" "price_bytes (pq_params (py_quote y)) n \<noteq> 0"
  shows "would_exceed y n \<longleftrightarrow>
    unat (saturating_sub (py_cap_plur y) (la_outstanding (py_account y))) < unat (price_bytes (pq_params (py_quote y)) n)"
proof -
  have "unat (py_cap_plur y) < 2 ^ 128 - 1"
    using assms(2) by (simp add: word_less_nat_alt unsigned_minus_1_eq_mask mask_eq_exp_minus_1)
  moreover have "0 < unat (price_bytes (pq_params (py_quote y)) n)" "0 < py_cap_plur y"
    using assms(1,3) by (simp_all add: word_greater_zero_iff unat_gt_0)
  ultimately show ?thesis
    by (auto simp: would_exceed_def word_less_nat_alt unat_saturating_add unat_saturating_sub min_def)
qed

lemma price_frames_iff:
  fixes m :: nat
  assumes "0 < price_plur_per_kib p" "unat (price_plur_per_kib p) < 2 ^ 64" "m * MAX_FRAME_LEN < 2 ^ 64"
  shows "unat (price_bytes p (of_nat (m * MAX_FRAME_LEN))) \<le> h \<longleftrightarrow> m \<le> h div unat (price_plur_per_kib p) * 1024 div MAX_FRAME_LEN"
proof -
  let ?p = "unat (price_plur_per_kib p)" and ?b = "m * MAX_FRAME_LEN"
  have p: "0 < ?p" using assms(1) by (simp add: word_greater_zero_iff unat_gt_0)
  have F: "0 < MAX_FRAME_LEN" by (simp add: frame_consts)
  have "unat (of_nat ?b :: u64) = ?b" using assms(3) by (simp add: unat_of_nat del: of_nat_mult)
  then have "unat (price_bytes p (of_nat ?b)) \<le> h \<longleftrightarrow> (?b + 1023) div 1024 * ?p \<le> h"
    by (simp only: unat_price_bytes [OF assms(2)])
  also have "\<dots> \<longleftrightarrow> (?b + 1023) div 1024 \<le> h div ?p" by (rule less_eq_div_iff_mult_less_eq [OF p, symmetric])
  also have "\<dots> \<longleftrightarrow> ?b \<le> h div ?p * 1024" by arith
  also have "\<dots> \<longleftrightarrow> m \<le> h div ?p * 1024 div MAX_FRAME_LEN" by (rule less_eq_div_iff_mult_less_eq [OF F, symmetric])
  finally show ?thesis .
qed

lemma frames_within_exact:
  assumes "0 < price_plur_per_kib (pq_params (py_quote y))" "unat (price_plur_per_kib (pq_params (py_quote y))) < 2 ^ 64"
    and "unat limit div unat (price_plur_per_kib (pq_params (py_quote y))) < 2 ^ 54"
    and fits: "unat (price_bytes (pq_params (py_quote y)) (of_nat MAX_FRAME_LEN)) \<le> unat limit"
  shows "frames_within y limit =
    Some (unat limit div unat (price_plur_per_kib (pq_params (py_quote y))) * 1024 div MAX_FRAME_LEN)"
    "1 \<le> unat limit div unat (price_plur_per_kib (pq_params (py_quote y))) * 1024 div MAX_FRAME_LEN"
proof -
  let ?p = "pq_params (py_quote y)"
  let ?k = "unat limit div unat (price_plur_per_kib ?p)"
  let ?n = "?k * 1024 div MAX_FRAME_LEN"
  have one: "1 \<le> ?n"
    using price_frames_iff [OF assms(1,2), of 1 "unat limit"] fits by (simp add: frame_consts)
  then show "1 \<le> ?n" .
  have "?k * 1024 < 2 ^ 64" using assms(3) by simp
  then have small: "?n * MAX_FRAME_LEN < 2 ^ 64" by (rule order_le_less_trans [OF div_times_less_eq_dividend])
  then have le: "unat (price_bytes ?p (of_nat (?n * MAX_FRAME_LEN))) \<le> unat limit"
    using price_frames_iff [OF assms(1,2) small, of "unat limit"] by simp
  have "unat (saturating_mul (limit div price_plur_per_kib ?p) 1024) = ?k * 1024"
    using assms(3) by (simp add: unat_saturating_mul unat_div)
  moreover have "?n \<le> usize_max"
    using small by (simp add: usize_max_def frame_consts)
  moreover have "walk_down ?p limit ?n = ?n"
    using le by (subst walk_down.simps) (simp add: word_less_nat_alt)
  moreover have "limit \<noteq> 0"
    using one by (intro notI) simp
  ultimately show "frames_within y limit = Some ?n"
    using one assms(1) by (simp add: frames_within_def Let_def min_absorb1)
qed

text \<open>
  C19. The size of a request fits the credit line exactly. Once a line is known, the client asks the scheduler for as
  many frames as the line can still carry after debt and bytes in flight: that many full frames do not exceed the line,
  one more would, and the number is zero exactly when the lane is reported to have no headroom.
\<close>

theorem affordable_frames_exact:
  assumes "0 < price_plur_per_kib (pq_params (py_quote y))" "unat (price_plur_per_kib (pq_params (py_quote y))) < 2 ^ 64"
    and "py_cap_plur y \<noteq> 0" "py_cap_plur y < - 1"
    and "unat (py_cap_plur y) div unat (price_plur_per_kib (pq_params (py_quote y))) < 2 ^ 54"
  shows "\<exists>n. affordable_frames y = Some n \<and> (n = 0 \<longleftrightarrow> \<not> has_headroom y) \<and>
    (\<forall>m. 0 < m \<longrightarrow> m * MAX_FRAME_LEN < 2 ^ 64 \<longrightarrow> (m \<le> n \<longleftrightarrow> \<not> would_exceed y (of_nat (m * MAX_FRAME_LEN))))"
proof -
  let ?p = "pq_params (py_quote y)"
  let ?h = "saturating_sub (py_cap_plur y) (la_outstanding (py_account y))"
  let ?n = "unat ?h div unat (price_plur_per_kib ?p) * 1024 div MAX_FRAME_LEN"
  have pos: "price_bytes ?p (of_nat (m * MAX_FRAME_LEN)) \<noteq> 0" if "0 < m" "m * MAX_FRAME_LEN < 2 ^ 64" for m
    using price_frames_iff [OF assms(1,2) that(2), of 0] that(1) by (auto simp: frame_consts)
  have exceed: "would_exceed y (of_nat (m * MAX_FRAME_LEN)) \<longleftrightarrow> ?n < m" if "0 < m" "m * MAX_FRAME_LEN < 2 ^ 64" for m
    using would_exceed_iff [OF assms(3,4) pos [OF that]] price_frames_iff [OF assms(1,2) that(2), of "unat ?h"] by linarith
  have one: "would_exceed y (of_nat MAX_FRAME_LEN) \<longleftrightarrow> ?n < 1"
    using exceed [of 1] by (simp add: frame_consts)
  have room: "has_headroom y \<longleftrightarrow> \<not> would_exceed y (of_nat MAX_FRAME_LEN)"
    using assms(3) by (auto simp: has_headroom_def would_exceed_def word_greater_zero_iff)
  have gate: "price_bytes ?p (of_nat MAX_FRAME_LEN) > ?h \<longleftrightarrow> would_exceed y (of_nat MAX_FRAME_LEN)"
    using would_exceed_iff [OF assms(3,4), of "of_nat MAX_FRAME_LEN"] pos [of 1] by (simp add: word_less_nat_alt frame_consts)
  show ?thesis
  proof (cases "would_exceed y (of_nat MAX_FRAME_LEN)")
    case True
    then have "affordable_frames y = Some 0" using assms(3) gate by (simp add: affordable_frames_def Let_def)
    then show ?thesis using True one room exceed by auto
  next
    case False
    have "unat ?h div unat (price_plur_per_kib ?p) \<le> unat (py_cap_plur y) div unat (price_plur_per_kib ?p)"
      by (intro div_le_mono) (simp add: unat_saturating_sub)
    then have "frames_within y ?h = Some ?n"
      using frames_within_exact(1) [OF assms(1,2), of ?h] assms(5) gate False by (simp add: word_less_nat_alt)
    then have "affordable_frames y = Some ?n" using assms(3) gate False by (simp add: affordable_frames_def Let_def)
    then show ?thesis using False one room exceed by (intro exI [of _ ?n]) (auto simp: not_less)
  qed
qed


definition demo_quote :: payment_quote where
  "demo_quote = \<lparr>pq_beneficiary = replicate 20 7, pq_node_eth_address = replicate 20 8, pq_overlay_nonce = replicate 32 0,
     pq_origin = ''relay.example'', pq_chain_id = 100, pq_params = default_params, pq_hard_enforcement = True\<rparr>"

definition demo_payer :: lane_payer where
  "demo_payer = (lane_payer_new ''https://relay.example'' demo_quote 0)\<lparr>py_cap_plur := 30000000000\<rparr>"

lemmas demo_payer_defs = demo_payer_def lane_payer_new_def demo_quote_def with_cumulative_def lane_account_new_def
  default_params_def PRICE_PLUR_PER_KIB_def

theorem affordable_frames_exact_witness:
  "\<exists>n. affordable_frames demo_payer = Some n \<and>
    (\<forall>m. 0 < m \<longrightarrow> m * MAX_FRAME_LEN < 2 ^ 64 \<longrightarrow> (m \<le> n \<longleftrightarrow> \<not> would_exceed demo_payer (of_nat (m * MAX_FRAME_LEN))))"
proof -
  have "0 < price_plur_per_kib (pq_params (py_quote demo_payer))" "unat (price_plur_per_kib (pq_params (py_quote demo_payer))) < 2 ^ 64"
      "py_cap_plur demo_payer \<noteq> 0" "py_cap_plur demo_payer < - 1"
      "unat (py_cap_plur demo_payer) div unat (price_plur_per_kib (pq_params (py_quote demo_payer))) < 2 ^ 54"
    by (simp_all add: demo_payer_defs)
  from affordable_frames_exact [OF this] show ?thesis by (elim exE conjE, intro exI conjI)
qed

section \<open>A verified quote\<close>

lemma bind_sum_Inr: "bind_sum r f = Inr y \<longleftrightarrow> (\<exists>x. r = Inr x \<and> f x = Inr y)"
  by (cases r) (simp_all add: bind_sum_def)

lemma quote_signer_Inr:
  assumes "quote_signer c w v = Inr node"
  obtains t sig unsigned where "Option.bind (json_get v ''sig'') as_str = Some t" "wc_hex_decode w (trim_0x t) = Some sig"
    "without_sig v = Inr unsigned" "recover_eth_from_eip191 c (as_bytes (json_print w unsigned)) sig = Inr node"
proof -
  obtain t where t: "Option.bind (json_get v ''sig'') as_str = Some t"
    using assms by (auto simp: quote_signer_def bind_sum_Inr quote_text_def split: option.splits)
  obtain sig where sig: "wc_hex_decode w (trim_0x t) = Some sig"
    using assms t by (auto simp: quote_signer_def bind_sum_Inr quote_text_def split: option.splits)
  obtain unsigned where u: "without_sig v = Inr unsigned"
    using assms t sig by (auto simp: quote_signer_def bind_sum_Inr quote_text_def)
  have "recover_eth_from_eip191 c (as_bytes (json_print w unsigned)) sig = Inr node"
    using assms t sig u by (auto simp: quote_signer_def bind_sum_def quote_text_def split: sum.splits)
  then show thesis using that t sig u by blast
qed

text \<open>
  C17. What a verified quote guarantees. The identity in it signed everything but the signature itself; it is the pinned
  identity and the cheques go to the pinned beneficiary where the lane is pinned; the overlay the lane advertises is
  derived from that identity; the price is positive and at most what the client allows; and the thresholds are such
  that a client that owes its whole line can pay.
\<close>

theorem verified_quote_sound:
  assumes "quote_verify c w v overlay network pin limit = Inr q"
  shows "(\<exists>t sig unsigned. Option.bind (json_get v ''sig'') as_str = Some t \<and> wc_hex_decode w (trim_0x t) = Some sig \<and>
      without_sig v = Inr unsigned \<and> recover_eth_from_eip191 c (as_bytes (json_print w unsigned)) sig = Inr (pq_node_eth_address q)) \<and>
    (\<forall>p. pin = Some p \<longrightarrow> pq_node_eth_address q = lp_node_eth_address p \<and> pq_beneficiary q = lp_beneficiary p) \<and>
    (\<forall>ov. overlay = Some ov \<longrightarrow> ov = derive_overlay c (pq_node_eth_address q) network (pq_overlay_nonce q)) \<and>
    0 < price_plur_per_kib (pq_params q) \<and> price_plur_per_kib (pq_params q) \<le> limit \<and>
    length (pq_beneficiary q) = 20 \<and>
    (\<forall>line a. 1 < line \<longrightarrow> la_params a = pq_params q \<longrightarrow> la_cap a = line \<longrightarrow> line \<le> la_owed a \<longrightarrow> should_settle a \<and> next_cumulative a \<noteq> None)"
proof -
  obtain ps node ben ov_nonce where
      node: "quote_signer c w v = Inr node" and ben: "quote_bytes w v ''beneficiary'' 20 = Inr ben"
    and pin: "check_pin pin node ben = Inr ()" and ps: "validate ps = Inr ()" "price_plur_per_kib ps \<le> limit"
    and ov: "\<And>ov. overlay = Some ov \<Longrightarrow> ov = derive_overlay c node network ov_nonce"
    and q: "pq_beneficiary q = ben" "pq_node_eth_address q = node" "pq_overlay_nonce q = ov_nonce" "pq_params q = ps"
    using assms unfolding quote_verify_def
    by (auto simp: bind_sum_Inr not_less split: if_splits sum.splits option.splits)
  have "\<exists>t sig unsigned. Option.bind (json_get v ''sig'') as_str = Some t \<and> wc_hex_decode w (trim_0x t) = Some sig \<and>
      without_sig v = Inr unsigned \<and> recover_eth_from_eip191 c (as_bytes (json_print w unsigned)) sig = Inr node"
    by (rule quote_signer_Inr [OF node]) blast
  moreover have "length ben = 20"
    using ben unfolding quote_bytes_def bind_sum_Inr by (auto split: option.splits if_splits)
  moreover have "pin = Some p \<Longrightarrow> node = lp_node_eth_address p \<and> ben = lp_beneficiary p" for p
    using pin by (auto simp: check_pin_def split: if_splits)
  moreover have "0 < price_plur_per_kib ps"
    using ps(1) by (auto simp: validate_def word_greater_zero_iff split: if_splits)
  moreover have "should_settle a \<and> next_cumulative a \<noteq> None"
    if "1 < line" "la_params a = ps" "la_cap a = line" "line \<le> la_owed a" for line a
  proof -
    have "unat line div 2 \<le> unat line" "1 \<le> unat line" using that(1) by (simp_all add: word_less_nat_alt)
    then have "eff_min_cheque_plur (effective ps line) \<le> line" "eff_settle_every_plur (effective ps line) \<le> line"
      by (simp_all add: effective_def Let_def word_le_nat_alt unat_simps unat_div min_le_iff_disj)
    moreover have "line \<noteq> 0" using that(1) by auto
    ultimately show ?thesis
      using that by (auto simp: should_settle_def next_cumulative_def thresholds_def)
  qed
  ultimately show ?thesis using ov ps(2) by (simp add: q)
qed

text \<open>An example quote: texts decode to fixed bytes, and every signature is by the same key.\<close>

definition quote_codec :: cheque_codec where
  "quote_codec =
     \<lparr>wc_hex_encode = (\<lambda>_. []), wc_hex_decode = (\<lambda>s. if s = ''sig'' then Some (replicate 65 27) else if s = ''ben'' then Some (replicate 20 7)
        else if s = ''node'' then Some (replicate 20 8) else Some (replicate 32 0)),
      b64_encode = id, b64_decode = (\<lambda>_. None), json_print = (\<lambda>_. []), json_parse = (\<lambda>_. None),
      sig_encode = (\<lambda>_. []), sig_decode = (\<lambda>_. None)\<rparr>"

definition demo_payment :: json where
  "demo_payment = JObject
     [(''sig'', JString ''sig''), (''beneficiary'', JString ''ben''), (''node_eth_address'', JString ''node''),
      (''overlay_nonce'', JString ''nonce''), (''price_plur_per_kib'', JString (uint_to_string (480000000 :: u128))),
      (''min_cheque_plur'', JString (uint_to_string (3900000000000 :: u128))),
      (''settle_every_plur'', JString (uint_to_string (15600000000000 :: u128))),
      (''max_outstanding_plur'', JString (uint_to_string (62200000000000 :: u128))),
      (''credit_ratio'', JInt 1000), (''chain_id'', JInt 100)]"

theorem verified_quote_sound_witness:
  "\<exists>q. quote_verify (toy_crypto\<lparr>keccak := (\<lambda>_. replicate 32 8)\<rparr>) quote_codec demo_payment (Some (replicate 32 8)) 1
      (Some \<lparr>lp_node_eth_address = replicate 20 8, lp_beneficiary = replicate 20 7\<rparr>) 500000000 = Inr q \<and>
    pq_beneficiary q = replicate 20 7 \<and> price_plur_per_kib (pq_params q) \<le> 500000000"
proof -
  let ?c = "toy_crypto\<lparr>keccak := (\<lambda>_. replicate 32 8)\<rparr>"
  let ?pin = "\<lparr>lp_node_eth_address = replicate 20 8, lp_beneficiary = replicate 20 7\<rparr>"
  note fields = quote_text_def quote_bytes_def quote_plur_def quote_u64_def bind_sum_def json_get_def as_str_def as_u64_def
    trim_0x.simps quote_codec_def demo_payment_def
  have node: "quote_signer ?c quote_codec demo_payment = Inr (replicate 20 8)"
    by (simp add: quote_signer_def fields without_sig_def recover_eth_from_eip191_def toy_crypto_def point_address_def Let_def nth_replicate)
  have ben: "quote_bytes quote_codec demo_payment ''beneficiary'' 20 = Inr (replicate 20 7)" by (simp add: fields)
  have claimed: "quote_bytes quote_codec demo_payment ''node_eth_address'' 20 = Inr (replicate 20 8)" by (simp add: fields)
  have nonce: "quote_bytes quote_codec demo_payment ''overlay_nonce'' 32 = Inr (replicate 32 0)" by (simp add: fields)
  have ps: "quote_params demo_payment = Inr \<lparr>price_plur_per_kib = 480000000, min_cheque_plur = 3900000000000,
      settle_every_plur = 15600000000000, max_outstanding_plur = 62200000000000, credit_ratio = 1000\<rparr>"
    by (simp add: quote_params_def fields)
  have secs: "check_validity_secs demo_payment = Inr ()" by (simp add: check_validity_secs_def json_get_def demo_payment_def)
  have chain: "quote_u64 demo_payment ''chain_id'' = Inr 100" by (simp add: fields)
  have pin: "check_pin (Some ?pin) (replicate 20 8) (replicate 20 7) = Inr ()" by (simp add: check_pin_def)
  obtain q where q: "quote_verify ?c quote_codec demo_payment (Some (replicate 32 8)) 1 (Some ?pin) 500000000 = Inr q"
    unfolding quote_verify_def node ben claimed nonce pin ps secs chain
    by (simp add: bind_sum_def validate_def derive_overlay_def check_pin_def)
  show ?thesis using verified_quote_sound [OF q] q by auto
qed

section \<open>Promises stay within the balance\<close>

definition share_ok :: "u128 \<Rightarrow> cheque_share \<Rightarrow> bool" where
  "share_ok balance sh = (store_wf (sh_store sh) \<and> promised (sh_store sh) \<le> unat balance)"

definition promises_grow :: "cheque_share \<Rightarrow> cheque_share \<Rightarrow> bool" where
  "promises_grow sh sh' = (\<forall>k. issued_to (sh_store sh) k \<le> issued_to (sh_store sh') k)"

text \<open>What a lane may rely on of the others, and what it guarantees them itself.\<close>

definition others_fair :: "u128 \<Rightarrow> 's lane_http \<Rightarrow> bool" where
  "others_fair balance h = (\<forall>s sh. share_ok balance sh \<longrightarrow> share_ok balance (ht_others h s sh) \<and> promises_grow sh (ht_others h s sh))"

definition settle_ok :: "u128 \<Rightarrow> string \<Rightarrow> cheque_share \<Rightarrow> 's pay_result \<Rightarrow> bool" where
  "settle_ok balance key sh = (\<lambda>(res, y, sh', s). share_ok balance sh' \<and> promises_grow sh sh' \<and>
     (\<forall>n. res = Inr (Some n) \<longrightarrow> issued_to (sh_store sh') key = n \<and> la_cumulative (py_account y) = n))"

lemma promises_grow_refl [simp]: "promises_grow sh sh"
  by (simp add: promises_grow_def)

lemma promises_grow_trans: "promises_grow a b \<Longrightarrow> promises_grow b c \<Longrightarrow> promises_grow a c"
  unfolding promises_grow_def by (meson order_trans)

lemma settle_ok_unchanged:
  assumes "share_ok balance sh'" "promises_grow sh sh'"
  shows "settle_ok balance key sh (Inl t, y, sh', s)" "settle_ok balance key sh (Inr None, y, sh', s)"
  using assms by (simp_all add: settle_ok_def)

lemma record_cheque_ok:
  assumes "share_ok (pc_balance_plur pc) sh" "pc_balance_plur pc < - 1"
  shows "settle_ok (pc_balance_plur pc) key sh (record_cheque e pc key n y sh s)"
proof (cases "would_exceed_balance (sh_store sh) key n (pc_balance_plur pc)")
  case True
  then show ?thesis using assms(1) by (simp add: record_cheque_def settle_ok_unchanged)
next
  case False
  show ?thesis
  proof (cases rule: set_cumulative_cases [of "sh_store sh" key n])
    case kept
    then show ?thesis using False assms(1) by (simp add: record_cheque_def settle_ok_unchanged)
  next
    case raised
    then show ?thesis
      using False assms gate_within_balance [OF _ assms(2) False] store_wf_put [of "sh_store sh" key n]
      by (auto simp: record_cheque_def settle_ok_def share_ok_def promises_grow_def issued_to_put settled_def)
        (auto simp: issued_to_def)
  qed
qed

lemma lane_header_quote: "lane_header e h pc y s = (r, y', s') \<Longrightarrow> py_quote y' = py_quote y"
  by (auto simp: lane_header_def Let_def split: if_splits sum.splits prod.splits)

lemma relay_owed_quote: "relay_owed e h pc y s = (r, y', s') \<Longrightarrow> py_quote y' = py_quote y"
  by (auto simp: relay_owed_def dest!: lane_header_quote split: if_splits sum.splits prod.splits option.splits)

lemma pay_once_ok:
  assumes fair: "others_fair (pc_balance_plur pc) h" and small: "pc_balance_plur pc < - 1"
    and sh: "share_ok (pc_balance_plur pc) sh" and key: "key = relay_key (pe_cheques e) (pq_beneficiary (py_quote y))"
    and retry: "\<And>f y1 sh1 s1. correct = Some f \<Longrightarrow> py_quote y1 = py_quote y \<Longrightarrow> share_ok (pc_balance_plur pc) sh1 \<Longrightarrow>
      settle_ok (pc_balance_plur pc) key sh1 (f (y1, sh1, s1))"
  shows "settle_ok (pc_balance_plur pc) key sh (pay_once correct e h pc n (y, sh, s))"
proof -
  let ?b = "pc_balance_plur pc"
  have later: "settle_ok ?b key sh r" if "settle_ok ?b key (ht_others h s2 sh) r" for s2 r
    using that fair sh promises_grow_trans unfolding others_fair_def settle_ok_def by (cases r) fast
  have oth: "share_ok ?b (ht_others h s2 sh)" "promises_grow sh (ht_others h s2 sh)" for s2
    using fair sh by (simp_all add: others_fair_def)
  obtain r1 y1 s1 where hd: "lane_header e h pc y s = (r1, y1, s1)" by (metis prod_cases3)
  have q: "py_quote y1 = py_quote y" by (rule lane_header_quote [OF hd])
  note rec = later [OF record_cheque_ok [OF oth(1) small]]
  have again: "settle_ok ?b key sh (f (y1, ht_others h s2 sh, s2))" if "correct = Some f" for f s2
    by (rule later [OF retry [OF that q oth(1)]])
  show ?thesis
    unfolding pay_once_def prod.case Let_def key [symmetric] hd
    by (simp add: rec again settle_ok_unchanged [OF sh promises_grow_refl] settle_ok_unchanged [OF oth] split: sum.split prod.split option.split)
qed

lemma pay_corrected_ok:
  assumes fair: "others_fair (pc_balance_plur pc) h" and small: "pc_balance_plur pc < - 1"
    and sh: "share_ok (pc_balance_plur pc) sh" and key: "key = relay_key (pe_cheques e) (pq_beneficiary (py_quote y))"
  shows "settle_ok (pc_balance_plur pc) key sh (pay_corrected e h pc (y, sh, s))"
proof -
  obtain r1 y1 s1 where ow: "relay_owed e h pc y s = (r1, y1, s1)" by (metis prod_cases3)
  have q: "py_quote y1 = py_quote y" by (rule relay_owed_quote [OF ow])
  have "settle_ok (pc_balance_plur pc) key sh (pay_once None e h pc m (y1\<lparr>py_account := a\<rparr>, sh, s1))" for m a
    by (rule pay_once_ok [OF fair small sh]) (simp_all add: key q)
  then show ?thesis
    unfolding pay_corrected_def prod.case ow Let_def
    by (simp add: settle_ok_unchanged [OF sh promises_grow_refl] split: sum.split option.split)
qed

text \<open>
  C7. The promises a client records never exceed what its chequebook holds. Settling a lane, with any answers of the
  relay and while other lanes settle in between, keeps the sum of the recorded cumulative amounts of all payees within
  the balance and lowers none of them; a settlement that reports an amount has recorded it. The other lanes are only
  assumed to do the same, which this property itself gives for them. A cheque that the relay accepts while another lane
  uses up the balance is not recorded: settling then reports an error.
\<close>

theorem settle_keeps_promises:
  assumes "others_fair (pc_balance_plur pc) h" "pc_balance_plur pc < - 1" "share_ok (pc_balance_plur pc) sh"
    and "settle e h pc (y, sh, s) = (res, y', sh', s')"
  shows "share_ok (pc_balance_plur pc) sh' \<and> promises_grow sh sh' \<and>
    (\<forall>n. res = Inr (Some n) \<longrightarrow>
      issued_to (sh_store sh') (relay_key (pe_cheques e) (pq_beneficiary (py_quote y))) = n \<and> la_cumulative (py_account y') = n)"
proof -
  let ?key = "relay_key (pe_cheques e) (pq_beneficiary (py_quote y))"
  let ?y = "sync_cumulative e sh y"
  have key: "?key = relay_key (pe_cheques e) (pq_beneficiary (py_quote ?y))" by (simp add: sync_cumulative_def)
  have "settle_ok (pc_balance_plur pc) ?key sh1 (pay_corrected e h pc (y1, sh1, s1))"
    if "py_quote y1 = py_quote ?y" "share_ok (pc_balance_plur pc) sh1" for y1 sh1 s1
    by (rule pay_corrected_ok [OF assms(1,2) that(2)]) (simp add: key that(1))
  then have "settle_ok (pc_balance_plur pc) ?key sh (pay e h pc n True (?y, sh, s))" for n
    unfolding pay_def if_True by (intro pay_once_ok [OF assms(1-3) key]) auto
  then have "settle_ok (pc_balance_plur pc) ?key sh (settle e h pc (y, sh, s))"
    unfolding settle_def prod.case Let_def
    by (simp add: settle_ok_unchanged [OF assms(3) promises_grow_refl] split: option.split)
  then show ?thesis unfolding assms(4) settle_ok_def by simp
qed


definition demo_http :: "unit lane_http" where
  "demo_http = \<lparr>ht_now = (\<lambda>_. 0), ht_get = (\<lambda>s _ _. (Inl ''down'', s)), ht_post = (\<lambda>s _ _ _. (Inr (200, []), s)), ht_others = (\<lambda>_ sh. sh)\<rparr>"

definition demo_payer_env :: payer_env where
  "demo_payer_env = \<lparr>pe_crypto = toy_crypto, pe_codec = quote_codec, pe_cheques = number_cheques,
     pe_io = \<lparr>io_read_ok = True, io_write_fails = None, io_rename_ok = True\<rparr>\<rparr>"

definition demo_pay_config :: payment_config where
  "demo_pay_config = \<lparr>pc_signer = \<lparr>sw_key = [7], sw_overlay = [], sw_eth_address = [], sw_nonce = [], sw_network_id = 1, handshake_cache_v15 = []\<rparr>,
     pc_batch = replicate 32 2, pc_chequebook = [1, 2], pc_chain_id = 100, pc_balance_plur = 10000000000000000\<rparr>"

definition demo_debtor :: lane_payer where
  "demo_debtor = (lane_payer_new ''https://relay.example'' demo_quote 0)\<lparr>py_header := Some ''h'', py_header_stale_after := 1000,
     py_account := (lane_account_new default_params (replicate 20 7))\<lparr>la_owed := 4000000000000\<rparr>\<rparr>"

lemma demo_settle_accepted:
  "fst (settle demo_payer_env demo_http demo_pay_config (demo_debtor, \<lparr>sh_store = demo_store, sh_disk = []\<rparr>, ())) = Inr (Some 4000000000000)"
proof -
  let ?sh = "\<lparr>sh_store = demo_store, sh_disk = []\<rparr>" and ?key = "relay_key number_cheques (replicate 20 7)"
  have q: "py_quote demo_debtor = demo_quote" "pq_beneficiary demo_quote = replicate 20 7" "pq_chain_id demo_quote = 100"
    by (simp_all add: demo_debtor_def lane_payer_new_def demo_quote_def)
  have len: "length (plain_hex_encode b) = 2 * length b" for b by (induction b) simp_all
  have none: "hm_get (st_payouts demo_store) (to_ascii_lowercase ?key) = None"
    using len by (auto simp: relay_key_def number_cheques_def demo_store_def hm_get_def to_ascii_lowercase_def dest: arg_cong [of _ _ length])
  then have issued: "issued_to demo_store ?key = 0" by (simp add: issued_to_def)
  have acc: "py_account (sync_cumulative demo_payer_env ?sh demo_debtor) = py_account demo_debtor"
      "py_quote (sync_cumulative demo_payer_env ?sh demo_debtor) = demo_quote"
    by (simp_all add: sync_cumulative_def set_cumulative_to_def q demo_payer_env_def issued)
  have nc: "next_cumulative (py_account demo_debtor) = Some 4000000000000"
    by (simp add: next_cumulative_def demo_debtor_def thresholds_def lane_account_new_def default_params_def MIN_CHEQUE_PLUR_def saturating_add_def)
  have "total_issued demo_store = 12" by (simp add: total_issued_def demo_store_def saturating_add_def)
  then have gate: "\<not> would_exceed_balance demo_store ?key 4000000000000 10000000000000000"
    by (simp add: would_exceed_balance_def issued saturating_add_def saturating_sub_def)
  have hd: "lane_header demo_payer_env demo_http demo_pay_config (sync_cumulative demo_payer_env ?sh demo_debtor) () =
      (Inr ''h'', sync_cumulative demo_payer_env ?sh demo_debtor, ())"
    using q by (simp add: lane_header_def acc sync_cumulative_def demo_debtor_def demo_pay_config_def demo_http_def)
  have env: "pe_cheques demo_payer_env = number_cheques" "pe_crypto demo_payer_env = toy_crypto"
      "pc_chain_id demo_pay_config = 100" "pc_balance_plur demo_pay_config = 10000000000000000"
      "\<And>url t body. ht_post demo_http () url t body = (Inr (200, []), ())" "\<And>sh. ht_others demo_http () sh = sh"
    by (simp_all add: demo_payer_env_def demo_pay_config_def demo_http_def)
  have sig: "sign_cheque toy_crypto (pc_signer demo_pay_config) (pc_chequebook demo_pay_config) (replicate 20 7) x 100 =
      Inr (ethereum_v (replicate 65 1))" for x
    by (simp add: sign_cheque_def toy_crypto_def)
  have "pay demo_payer_env demo_http demo_pay_config 4000000000000 True (sync_cumulative demo_payer_env ?sh demo_debtor, ?sh, ()) =
      record_cheque demo_payer_env demo_pay_config ?key 4000000000000 (sync_cumulative demo_payer_env ?sh demo_debtor) ?sh ()"
    by (simp add: pay_def pay_once_def Let_def acc(2) q env gate sig hd is_success_def del: of_nat_numeral)
  then show ?thesis
    using gate none by (simp add: settle_def Let_def acc nc record_cheque_def env set_cumulative_def)
qed

theorem settle_keeps_promises_witness:
  "\<exists>y sh. settle demo_payer_env demo_http demo_pay_config (demo_debtor, \<lparr>sh_store = demo_store, sh_disk = []\<rparr>, ()) =
      (Inr (Some 4000000000000), y, sh, ()) \<and> share_ok (pc_balance_plur demo_pay_config) sh"
proof -
  let ?sh = "\<lparr>sh_store = demo_store, sh_disk = []\<rparr>"
  obtain r y sh where r: "settle demo_payer_env demo_http demo_pay_config (demo_debtor, ?sh, ()) = (r, y, sh, ())"
    by (metis old.unit.exhaust prod_cases4)
  have fair: "others_fair (pc_balance_plur demo_pay_config) demo_http" by (simp add: others_fair_def demo_http_def)
  have small: "pc_balance_plur demo_pay_config < - 1" by (simp add: demo_pay_config_def)
  have ok: "share_ok (pc_balance_plur demo_pay_config) ?sh"
    by (simp add: share_ok_def store_wf_def demo_store_def hm_wf_def to_ascii_lowercase_def promised_def hm_sum_def demo_pay_config_def)
  show ?thesis
    using settle_keeps_promises [OF fair small ok r] demo_settle_accepted r by simp
qed

end
