(* ===== verification/Channel.thy ===== *)
theory Channel
  imports Payer "HOL-Library.Multiset"
begin

text \<open>
  A client and a relay on one lane: the running account of \<^verbatim>\<open>src/payer.rs\<close> against the ledger of \<^verbatim>\<open>src/ledger.rs\<close>, with requests
  in flight between them. The steps are those of the driver (\<^verbatim>\<open>drive_pushers\<close> in \<^verbatim>\<open>src/client.rs\<close>) and of the relay's
  endpoints, in any order: the two sides never exchange totals except when they disagree.
\<close>

section \<open>The lane as a machine\<close>

text \<open>
  A request in flight: sent, reserved for, billed for some of its bytes, refused, or dropped by the relay after it was
  admitted. The counter is the number of answers that reported duplicates.
\<close>

datatype stage = Sent | Admitted | Billed u64 | Refused | Dropped

record channel =
  ch_payer :: lane_payer
  ch_relay :: ledger
  ch_flight :: "(u64 \<times> stage) multiset"
  ch_dedups :: nat

abbreviation on_account :: "(lane_account \<Rightarrow> lane_account) \<Rightarrow> lane_payer \<Rightarrow> lane_payer" where
  "on_account f y \<equiv> y\<lparr>py_account := f (py_account y)\<rparr>"

abbreviation body_price :: "lane_payer \<Rightarrow> u64 \<Rightarrow> u128" where
  "body_price y \<equiv> price_bytes (pq_params (py_quote y))"

definition count_answer :: "u64 \<Rightarrow> u64 \<Rightarrow> lane_account \<Rightarrow> lane_account" where
  "count_answer n d c = (let c1 = record_answered c n True in if d > 0 then refund_dedup c1 d else c1)"

inductive channel_step :: "bytes \<Rightarrow> bytes \<Rightarrow> u128 \<Rightarrow> channel \<Rightarrow> channel \<Rightarrow> bool" for a cb balance where
  dispatch: "\<not> would_exceed y n \<Longrightarrow>
    channel_step a cb balance \<lparr>ch_payer = y, ch_relay = l, ch_flight = M, ch_dedups = k\<rparr>
      \<lparr>ch_payer = on_account (\<lambda>c. record_sent c n) y, ch_relay = l, ch_flight = add_mset (n, Sent) M, ch_dedups = k\<rparr>"
| admitted: "reserve l a (body_price y n) (py_cap_plur y) = (adm, l1) \<Longrightarrow> \<not> adm_over_cap adm \<Longrightarrow>
    channel_step a cb balance \<lparr>ch_payer = y, ch_relay = l, ch_flight = add_mset (n, Sent) M, ch_dedups = k\<rparr>
      \<lparr>ch_payer = y, ch_relay = l1, ch_flight = add_mset (n, Admitted) M, ch_dedups = k\<rparr>"
| refused: "reserve l a (body_price y n) (py_cap_plur y) = (adm, l1) \<Longrightarrow> adm_over_cap adm \<Longrightarrow>
    channel_step a cb balance \<lparr>ch_payer = y, ch_relay = l, ch_flight = add_mset (n, Sent) M, ch_dedups = k\<rparr>
      \<lparr>ch_payer = y, ch_relay = release l1 a (body_price y n), ch_flight = add_mset (n, Refused) M, ch_dedups = k\<rparr>"
| billed: "unat b \<le> unat n \<Longrightarrow>
    channel_step a cb balance \<lparr>ch_payer = y, ch_relay = l, ch_flight = add_mset (n, Admitted) M, ch_dedups = k\<rparr>
      \<lparr>ch_payer = y, ch_relay = commit l a (body_price y n) (body_price y b), ch_flight = add_mset (n, Billed b) M, ch_dedups = k\<rparr>"
| dropped: "channel_step a cb balance \<lparr>ch_payer = y, ch_relay = l, ch_flight = add_mset (n, Admitted) M, ch_dedups = k\<rparr>
      \<lparr>ch_payer = y, ch_relay = release l a (body_price y n), ch_flight = add_mset (n, Dropped) M, ch_dedups = k\<rparr>"
| answer_billed: "unat d + unat b \<le> unat n \<Longrightarrow>
    channel_step a cb balance \<lparr>ch_payer = y, ch_relay = l, ch_flight = add_mset (n, Billed b) M, ch_dedups = k\<rparr>
      \<lparr>ch_payer = on_account (count_answer n d) y, ch_relay = l, ch_flight = M, ch_dedups = (if d > 0 then Suc k else k)\<rparr>"
| answer_refused: "channel_step a cb balance \<lparr>ch_payer = y, ch_relay = l, ch_flight = add_mset (n, Refused) M, ch_dedups = k\<rparr>
      \<lparr>ch_payer = on_account (\<lambda>c. record_answered c n False) y, ch_relay = l, ch_flight = M, ch_dedups = k\<rparr>"
| answer_dropped: "channel_step a cb balance \<lparr>ch_payer = y, ch_relay = l, ch_flight = add_mset (n, Dropped) M, ch_dedups = k\<rparr>
      \<lparr>ch_payer = on_account (\<lambda>c. record_answered c n True) y, ch_relay = l, ch_flight = M, ch_dedups = k\<rparr>"
| paid: "next_cumulative (py_account y) = Some m \<Longrightarrow> credit l a cb m sig = (Inr x, l1) \<Longrightarrow>
    channel_step a cb balance \<lparr>ch_payer = y, ch_relay = l, ch_flight = M, ch_dedups = k\<rparr>
      \<lparr>ch_payer = on_account (\<lambda>c. settled c m) y, ch_relay = l1, ch_flight = M, ch_dedups = k\<rparr>"
| corrected: "next_cumulative (py_account y) = Some m \<Longrightarrow> credit l a cb m sig = (Inl (Overpayment x w), l1) \<Longrightarrow>
    channel_step a cb balance \<lparr>ch_payer = y, ch_relay = l, ch_flight = M, ch_dedups = k\<rparr>
      \<lparr>ch_payer = on_account (\<lambda>c. sync_relay_debt c (owed l1 a)) y, ch_relay = l1, ch_flight = M, ch_dedups = k\<rparr>"
| forgiven: "owed l a = 0 \<Longrightarrow>
    channel_step a cb balance \<lparr>ch_payer = y, ch_relay = l, ch_flight = M, ch_dedups = k\<rparr>
      \<lparr>ch_payer = on_account forgive_phantom_debt y, ch_relay = l, ch_flight = M, ch_dedups = k\<rparr>"
| reconciled: "check_reported_debt y (owed l a) balance = Inr () \<Longrightarrow>
    channel_step a cb balance \<lparr>ch_payer = y, ch_relay = l, ch_flight = M, ch_dedups = k\<rparr>
      \<lparr>ch_payer = on_account (\<lambda>c. snd (adopt_relay_debt c (owed l a))) y, ch_relay = l, ch_flight = M, ch_dedups = k\<rparr>"

section \<open>Both sides agree\<close>

definition stage_price :: "params \<Rightarrow> u64 \<times> stage \<Rightarrow> nat" where
  "stage_price p = (\<lambda>(n, st). case st of Admitted \<Rightarrow> unat (price_bytes p n) | _ \<Rightarrow> 0)"

definition stage_bill :: "params \<Rightarrow> u64 \<times> stage \<Rightarrow> nat" where
  "stage_bill p = (\<lambda>(n, st). case st of Billed b \<Rightarrow> unat (price_bytes p b) | _ \<Rightarrow> 0)"

definition sent_price :: "params \<Rightarrow> u64 \<times> stage \<Rightarrow> nat" where
  "sent_price p = (\<lambda>(n, st). unat (price_bytes p n))"

definition lane_setup :: "lane_payer \<Rightarrow> bool" where
  "lane_setup y =
     (la_params (py_account y) = pq_params (py_quote y) \<and> unat (price_plur_per_kib (pq_params (py_quote y))) < 2 ^ 64 \<and>
      la_cap (py_account y) = py_cap_plur y \<and> 0 < py_cap_plur y \<and> py_cap_plur y < - 1)"

text \<open>
  The invariant. What the client holds as pending is the price of everything in flight; what the relay holds as reserved
  is the price of what it admitted; the relay's claim is at most what the client counts, up to one kibibyte for every
  answer with duplicates; both stay within the line.
\<close>

definition channel_ok :: "bytes \<Rightarrow> bytes \<Rightarrow> channel \<Rightarrow> bool" where
  "channel_ok a cb st =
     (let y = ch_payer st; c = py_account y; l = ch_relay st; M = ch_flight st; p = pq_params (py_quote y) in
      lane_setup y \<and> la_cumulative c = last_cumulative l a cb \<and>
      unat (la_pending c) = sum_mset (image_mset (sent_price p) M) \<and>
      unat (reserved l a) = sum_mset (image_mset (stage_price p) M) \<and>
      unat (owed l a) \<le> unat (la_owed c) + sum_mset (image_mset (stage_bill p) M) + ch_dedups st * unat (price_plur_per_kib p) \<and>
      (\<forall>n b. (n, Billed b) \<in># M \<longrightarrow> unat b \<le> unat n) \<and>
      unat (la_owed c) + unat (la_pending c) \<le> unat (py_cap_plur y) \<and>
      unat (owed l a) + unat (reserved l a) \<le> unat (py_cap_plur y))"

lemma sat_add_exact:
  fixes x z line :: u128
  assumes "unat x + unat z \<le> unat line" "line < - 1"
  shows "unat (saturating_add x z) = unat x + unat z"
  using assms by (simp add: unat_saturating_add word_less_nat_alt unsigned_minus_1_eq_mask mask_eq_exp_minus_1 min_def)

lemma sent_price_simps [simp]: "sent_price p (n, st) = unat (price_bytes p n)"
  by (simp add: sent_price_def)

lemma stage_price_simps [simp]:
  "stage_price p (n, Sent) = 0" "stage_price p (n, Admitted) = unat (price_bytes p n)" "stage_price p (n, Billed b) = 0"
  "stage_price p (n, Refused) = 0" "stage_price p (n, Dropped) = 0"
  by (simp_all add: stage_price_def)

lemma stage_bill_simps [simp]:
  "stage_bill p (n, Sent) = 0" "stage_bill p (n, Admitted) = 0" "stage_bill p (n, Billed b) = unat (price_bytes p b)"
  "stage_bill p (n, Refused) = 0" "stage_bill p (n, Dropped) = 0"
  by (simp_all add: stage_bill_def)

text \<open>Rounding up a refund loses at most one kibibyte.\<close>

lemma refund_rounding:
  assumes "unat (price_plur_per_kib p) < 2 ^ 64" "unat d + unat b \<le> unat n"
  shows "unat (price_bytes p b) + unat (price_bytes p d) \<le> unat (price_bytes p n) + (if d > 0 then unat (price_plur_per_kib p) else 0)"
    "unat (price_bytes p d) \<le> unat (price_bytes p n)" "unat (price_bytes p b) \<le> unat (price_bytes p n)"
proof -
  have "(unat b + 1023) div 1024 + (unat d + 1023) div 1024 \<le> (unat n + 1023) div 1024 + (if d > 0 then 1 else 0)"
    using assms(2) by (auto simp: word_greater_zero_iff)
  then have "((unat b + 1023) div 1024 + (unat d + 1023) div 1024) * unat (price_plur_per_kib p)
      \<le> ((unat n + 1023) div 1024 + (if d > 0 then 1 else 0)) * unat (price_plur_per_kib p)"
    by (rule mult_le_mono1)
  then show "unat (price_bytes p b) + unat (price_bytes p d) \<le> unat (price_bytes p n) + (if d > 0 then unat (price_plur_per_kib p) else 0)"
    by (simp add: unat_price_bytes [OF assms(1)] algebra_simps split: if_splits)
  show "unat (price_bytes p d) \<le> unat (price_bytes p n)" "unat (price_bytes p b) \<le> unat (price_bytes p n)"
    unfolding unat_price_bytes [OF assms(1)] using assms(2) by (intro mult_le_mono1 div_le_mono, simp)+
qed

text \<open>What is admitted and what is billed are parts of what is in flight.\<close>

lemma flight_le:
  assumes "unat (price_plur_per_kib p) < 2 ^ 64" "\<forall>n b. (n, Billed b) \<in># M \<longrightarrow> unat b \<le> unat n"
  shows "sum_mset (image_mset (stage_price p) M) + sum_mset (image_mset (stage_bill p) M) \<le> sum_mset (image_mset (sent_price p) M)"
  using assms(2)
proof (induction M)
  case (add x M)
  obtain n st where x: "x = (n, st)" by fastforce
  have "stage_price p x + stage_bill p x \<le> sent_price p x"
    using add.prems refund_rounding(3) [OF assms(1), of 0 _ n] by (cases st) (auto simp: x)
  then show ?case using add by simp
qed simp

lemmas channel_ok_simps = channel_ok_def Let_def channel.simps lane_payer.simps lane_account.simps

lemma channel_ok_dispatch:
  assumes ok: "channel_ok a cb \<lparr>ch_payer = y, ch_relay = l, ch_flight = M, ch_dedups = k\<rparr>" and gate: "\<not> would_exceed y n"
  shows "channel_ok a cb \<lparr>ch_payer = on_account (\<lambda>c. record_sent c n) y, ch_relay = l, ch_flight = add_mset (n, Sent) M, ch_dedups = k\<rparr>"
proof -
  let ?c = "py_account y" and ?pr = "body_price y n"
  have set: "la_params ?c = pq_params (py_quote y)" "py_cap_plur y < - 1" "0 < py_cap_plur y"
    and sum: "unat (la_owed ?c) + unat (la_pending ?c) \<le> unat (py_cap_plur y)"
    using ok by (simp_all add: channel_ok_simps lane_setup_def)
  have out: "unat (la_outstanding ?c) = unat (la_owed ?c) + unat (la_pending ?c)"
    unfolding la_outstanding_def by (rule sat_add_exact [OF sum set(2)])
  have "unat (saturating_add (la_outstanding ?c) ?pr) \<le> unat (py_cap_plur y)"
    using gate set(3) by (simp add: would_exceed_def word_less_nat_alt)
  then have fits: "unat (la_owed ?c) + unat (la_pending ?c) + unat ?pr \<le> unat (py_cap_plur y)"
    using set(2) by (simp add: unat_saturating_add out word_less_nat_alt unsigned_minus_1_eq_mask mask_eq_exp_minus_1 min_def split: if_splits)
  have "unat (saturating_add (la_pending ?c) ?pr) = unat (la_pending ?c) + unat ?pr"
    using fits by (intro sat_add_exact [OF _ set(2)]) simp
  then show ?thesis
    using ok fits by (simp add: channel_ok_simps lane_setup_def record_sent_def set(1))
qed

lemma channel_ok_admitted:
  assumes ok: "channel_ok a cb \<lparr>ch_payer = y, ch_relay = l, ch_flight = add_mset (n, Sent) M, ch_dedups = k\<rparr>"
    and r: "reserve l a (body_price y n) (py_cap_plur y) = (adm, l1)"
  shows "\<not> adm_over_cap adm \<Longrightarrow> channel_ok a cb \<lparr>ch_payer = y, ch_relay = l1, ch_flight = add_mset (n, Admitted) M, ch_dedups = k\<rparr>"
    "channel_ok a cb \<lparr>ch_payer = y, ch_relay = release l1 a (body_price y n), ch_flight = add_mset (n, Refused) M, ch_dedups = k\<rparr>"
proof -
  let ?pr = "body_price y n"
  have small: "py_cap_plur y < - 1" using ok by (simp add: channel_ok_simps lane_setup_def)
  have l1: "ledger_account l1 = (\<lambda>b. if b = a then (ledger_account l a)\<lparr>reserved_plur := saturating_add (reserved l a) ?pr\<rparr> else ledger_account l b)"
    using arg_cong [OF r, of snd] by (auto simp: fun_eq_iff)
  have read: "owed l1 a = owed l a" "reserved l1 a = saturating_add (reserved l a) ?pr" "last_cumulative l1 a cb = last_cumulative l a cb"
    by (simp_all add: ledger_readings l1)
  show "channel_ok a cb \<lparr>ch_payer = y, ch_relay = l1, ch_flight = add_mset (n, Admitted) M, ch_dedups = k\<rparr>" if "\<not> adm_over_cap adm"
  proof -
    have "saturating_add (owed l a) (saturating_add (reserved l a) ?pr) \<le> py_cap_plur y"
      using that r by (auto simp: reserve_def Let_def account_outstanding_def ledger_readings)
    then have fits: "unat (owed l a) + unat (reserved l a) + unat ?pr \<le> unat (py_cap_plur y)"
      using small by (simp add: word_le_nat_alt unat_saturating_add word_less_nat_alt unsigned_minus_1_eq_mask mask_eq_exp_minus_1
          min_def split: if_splits)
    then have "unat (saturating_add (reserved l a) ?pr) = unat (reserved l a) + unat ?pr"
      by (intro sat_add_exact [OF _ small]) simp
    then show ?thesis using ok fits by (auto simp: channel_ok_simps read)
  qed
  show "channel_ok a cb \<lparr>ch_payer = y, ch_relay = release l1 a ?pr, ch_flight = add_mset (n, Refused) M, ch_dedups = k\<rparr>"
  proof -
    have "sum_mset (image_mset (stage_price (pq_params (py_quote y))) M) \<le> sum_mset (image_mset (sent_price (pq_params (py_quote y))) M)"
      using flight_le [of "pq_params (py_quote y)" M] ok by (auto simp: channel_ok_simps lane_setup_def)
    then have "unat (reserved l a) + unat ?pr \<le> unat (py_cap_plur y)"
      using ok by (simp add: channel_ok_simps)
    then have "unat (saturating_add (reserved l a) ?pr) = unat (reserved l a) + unat ?pr" by (rule sat_add_exact [OF _ small])
    then have "saturating_sub (saturating_add (reserved l a) ?pr) ?pr = reserved l a"
      by (simp only: word_unat_eq_iff unat_saturating_sub add_diff_cancel_right')
    then show ?thesis using ok by (auto simp: channel_ok_simps ledger_readings l1)
  qed
qed


lemma channel_ok_finished:
  assumes ok: "channel_ok a cb \<lparr>ch_payer = y, ch_relay = l, ch_flight = add_mset (n, Admitted) M, ch_dedups = k\<rparr>"
  shows "unat b \<le> unat n \<Longrightarrow> channel_ok a cb
      \<lparr>ch_payer = y, ch_relay = commit l a (body_price y n) (body_price y b), ch_flight = add_mset (n, Billed b) M, ch_dedups = k\<rparr>"
    "channel_ok a cb \<lparr>ch_payer = y, ch_relay = release l a (body_price y n), ch_flight = add_mset (n, Dropped) M, ch_dedups = k\<rparr>"
proof -
  have small: "py_cap_plur y < - 1" "unat (price_plur_per_kib (pq_params (py_quote y))) < 2 ^ 64"
    and sum: "unat (reserved l a) = unat (body_price y n) + sum_mset (image_mset (stage_price (pq_params (py_quote y))) M)"
      "unat (owed l a) + unat (reserved l a) \<le> unat (py_cap_plur y)"
    using ok by (simp_all add: channel_ok_simps lane_setup_def)
  show "channel_ok a cb \<lparr>ch_payer = y, ch_relay = release l a (body_price y n), ch_flight = add_mset (n, Dropped) M, ch_dedups = k\<rparr>"
    using ok by (auto simp: channel_ok_simps ledger_readings unat_saturating_sub)
  show "channel_ok a cb \<lparr>ch_payer = y, ch_relay = commit l a (body_price y n) (body_price y b), ch_flight = add_mset (n, Billed b) M, ch_dedups = k\<rparr>"
    if "unat b \<le> unat n"
  proof -
    have le: "unat (body_price y b) \<le> unat (body_price y n)" using refund_rounding(3) [OF small(2), of 0 b n] that by simp
    then have "unat (saturating_add (owed l a) (body_price y b)) = unat (owed l a) + unat (body_price y b)"
      using sum by (intro sat_add_exact [OF _ small(1)]) simp
    moreover have "owed (commit l a r x) a = saturating_add (owed l a) x" "reserved (commit l a r x) a = saturating_sub (reserved l a) r"
        "last_cumulative (commit l a r x) a cb = last_cumulative l a cb" for r x
      by (simp_all add: ledger_readings)
    ultimately show ?thesis using ok le that sum by (auto simp: channel_ok_simps unat_saturating_sub)
  qed
qed

lemma channel_ok_answer_billed:
  assumes ok: "channel_ok a cb \<lparr>ch_payer = y, ch_relay = l, ch_flight = add_mset (n, Billed b) M, ch_dedups = k\<rparr>"
    and d: "unat d + unat b \<le> unat n"
  shows "channel_ok a cb \<lparr>ch_payer = on_account (count_answer n d) y, ch_relay = l, ch_flight = M, ch_dedups = (if d > 0 then Suc k else k)\<rparr>"
proof -
  let ?c = "py_account y" and ?p = "pq_params (py_quote y)"
  have set: "la_params ?c = ?p" "py_cap_plur y < - 1" "unat (price_plur_per_kib ?p) < 2 ^ 64"
    and sum: "unat (la_owed ?c) + unat (la_pending ?c) \<le> unat (py_cap_plur y)"
      "unat (la_pending ?c) = unat (body_price y n) + sum_mset (image_mset (sent_price ?p) M)"
    using ok by (simp_all add: channel_ok_simps lane_setup_def)
  note round = refund_rounding [OF set(3) d]
  have add: "unat (saturating_add (la_owed ?c) (body_price y n)) = unat (la_owed ?c) + unat (body_price y n)"
    using sum by (intro sat_add_exact [OF _ set(2)]) simp
  have zero: "unat (body_price y d) = 0" if "\<not> d > 0" using that by (simp add: price_bytes_def div_ceil_def word_greater_zero_iff)
  have acc: "unat (la_owed (count_answer n d ?c)) = unat (la_owed ?c) + unat (body_price y n) - unat (body_price y d)"
      "unat (la_pending (count_answer n d ?c)) = unat (la_pending ?c) - unat (body_price y n)"
      "la_params (count_answer n d ?c) = ?p" "la_cap (count_answer n d ?c) = la_cap ?c" "la_cumulative (count_answer n d ?c) = la_cumulative ?c"
    using add zero by (auto simp: count_answer_def record_answered_def refund_dedup_def Let_def set(1) unat_saturating_sub)
  show ?thesis
    using ok acc sum round by (auto simp: channel_ok_simps lane_setup_def)
qed

lemma channel_ok_answer_other:
  assumes ok: "channel_ok a cb \<lparr>ch_payer = y, ch_relay = l, ch_flight = add_mset (n, st) M, ch_dedups = k\<rparr>"
    and st: "st = Refused \<or> st = Dropped"
  shows "channel_ok a cb \<lparr>ch_payer = on_account (\<lambda>c. record_answered c n reached) y, ch_relay = l, ch_flight = M, ch_dedups = k\<rparr>"
proof -
  let ?c = "py_account y" and ?p = "pq_params (py_quote y)"
  have set: "la_params ?c = ?p" "py_cap_plur y < - 1"
    and sum: "unat (la_owed ?c) + unat (la_pending ?c) \<le> unat (py_cap_plur y)"
      "unat (la_pending ?c) = unat (body_price y n) + sum_mset (image_mset (sent_price ?p) M)"
    using ok by (simp_all add: channel_ok_simps lane_setup_def)
  have "unat (saturating_add (la_owed ?c) (body_price y n)) = unat (la_owed ?c) + unat (body_price y n)"
    using sum by (intro sat_add_exact [OF _ set(2)]) simp
  then show ?thesis
    using ok st sum by (auto simp: channel_ok_simps lane_setup_def record_answered_def unat_saturating_sub)
qed

text \<open>The next cheque, when it is not implausibly large, is for exactly what the client owes.\<close>

lemma next_cumulative_exact:
  assumes "next_cumulative c = Some m" "m \<le> MAX_CUMULATIVE_PLUR"
  shows "unat m = unat (la_cumulative c) + unat (la_owed c)" "m - la_cumulative c = la_owed c" "la_cumulative c \<le> m"
    "eff_min_cheque_plur (thresholds c) \<le> la_owed c"
proof -
  have m: "m = saturating_add (la_cumulative c) (la_owed c)" "eff_min_cheque_plur (thresholds c) \<le> la_owed c"
    using assms(1) by (auto simp: next_cumulative_def split: if_splits)
  then show "eff_min_cheque_plur (thresholds c) \<le> la_owed c" by simp
  have "unat m \<le> unat MAX_CUMULATIVE_PLUR" using assms(2) by (simp add: word_le_nat_alt)
  then have "unat m < 2 ^ 128 - 1" by (simp add: MAX_CUMULATIVE_PLUR_def)
  then show u: "unat m = unat (la_cumulative c) + unat (la_owed c)"
    by (simp add: m unat_saturating_add min_def split: if_splits)
  then show le: "la_cumulative c \<le> m" by (simp add: word_le_nat_alt)
  show "m - la_cumulative c = la_owed c" using u le by (simp add: word_unat_eq_iff unat_sub)
qed

lemma channel_ok_paid:
  assumes ok: "channel_ok a cb \<lparr>ch_payer = y, ch_relay = l, ch_flight = M, ch_dedups = k\<rparr>"
    and nc: "next_cumulative (py_account y) = Some m" and cr: "credit l a cb m sig = (Inr x, l1)"
  shows "channel_ok a cb \<lparr>ch_payer = on_account (\<lambda>c. settled c m) y, ch_relay = l1, ch_flight = M, ch_dedups = k\<rparr>"
proof (cases rule: credit_cases [of m l a cb sig])
  case (accepted l')
  let ?c = "py_account y"
  note exact = next_cumulative_exact [OF nc accepted(1)]
  have cum: "la_cumulative ?c = last_cumulative l a cb" using ok by (simp add: channel_ok_simps)
  have l1: "l1 = l'" using accepted(5) cr by simp
  have le: "la_owed ?c \<le> owed l a" using accepted(4) exact(2) cum by simp
  have read: "unat (owed l1 a) = unat (owed l a) - unat (la_owed ?c)" "reserved l1 a = reserved l a" "last_cumulative l1 a cb = m"
    using exact(2) cum le by (simp_all add: l1 ledger_readings accepted(9) unat_sub)
  have acc: "la_owed (settled ?c m) = 0" "la_cumulative (settled ?c m) = m" "la_pending (settled ?c m) = la_pending ?c"
      "la_params (settled ?c m) = la_params ?c" "la_cap (settled ?c m) = la_cap ?c"
    using exact(1) by (simp_all add: settled_def word_unat_eq_iff unat_saturating_sub)
  show ?thesis using ok le by (auto simp: channel_ok_simps lane_setup_def acc read word_le_nat_alt)
qed (use cr in auto)

lemma channel_ok_corrected:
  assumes ok: "channel_ok a cb \<lparr>ch_payer = y, ch_relay = l, ch_flight = M, ch_dedups = k\<rparr>"
    and nc: "next_cumulative (py_account y) = Some m" and cr: "credit l a cb m sig = (Inl (Overpayment x w), l1)"
  shows "channel_ok a cb \<lparr>ch_payer = on_account (\<lambda>c. sync_relay_debt c (owed l1 a)) y, ch_relay = l1, ch_flight = M, ch_dedups = k\<rparr>"
    "owed l a < la_owed (py_account y)" "l1 = put_account a (ledger_account l a) l"
proof -
  let ?c = "py_account y"
  have cum: "la_cumulative ?c = last_cumulative l a cb" using ok by (simp add: channel_ok_simps)
  have m: "m \<le> MAX_CUMULATIVE_PLUR" using cr by (auto simp: credit_def split: if_splits)
  note exact = next_cumulative_exact [OF nc m]
  show l1: "l1 = put_account a (ledger_account l a) l"
    using cr by (cases rule: credit_cases [of m l a cb sig]) auto
  show less: "owed l a < la_owed ?c"
    using cr exact(2) cum by (cases rule: credit_cases [of m l a cb sig]) auto
  have "owed l1 a = owed l a" "reserved l1 a = reserved l a" "last_cumulative l1 a cb = last_cumulative l a cb"
    by (simp_all add: l1 ledger_readings)
  then show "channel_ok a cb \<lparr>ch_payer = on_account (\<lambda>c. sync_relay_debt c (owed l1 a)) y, ch_relay = l1, ch_flight = M, ch_dedups = k\<rparr>"
    using ok less by (auto simp: channel_ok_simps lane_setup_def sync_relay_debt_def word_less_nat_alt)
qed

lemma channel_ok_forgiven:
  assumes "channel_ok a cb \<lparr>ch_payer = y, ch_relay = l, ch_flight = M, ch_dedups = k\<rparr>" "owed l a = 0"
  shows "channel_ok a cb \<lparr>ch_payer = on_account forgive_phantom_debt y, ch_relay = l, ch_flight = M, ch_dedups = k\<rparr>"
  using assms by (auto simp: channel_ok_simps lane_setup_def forgive_phantom_debt_def)

lemma channel_ok_reconciled:
  assumes ok: "channel_ok a cb \<lparr>ch_payer = y, ch_relay = l, ch_flight = M, ch_dedups = k\<rparr>"
  shows "channel_ok a cb \<lparr>ch_payer = on_account (\<lambda>c. snd (adopt_relay_debt c (owed l a))) y, ch_relay = l, ch_flight = M, ch_dedups = k\<rparr>"
  using ok by (auto simp: channel_ok_simps lane_setup_def adopt_relay_debt_def word_le_nat_alt unat_saturating_sub)

lemma channel_ok_step:
  assumes "channel_step a cb balance st st'" "channel_ok a cb st"
  shows "channel_ok a cb st'"
  using assms
proof (induction rule: channel_step.induct)
  case (answer_refused y l n M k)
  then show ?case by (rule channel_ok_answer_other) simp
next
  case (answer_dropped y l n M k)
  then show ?case by (rule channel_ok_answer_other) simp
qed (blast intro: channel_ok_dispatch channel_ok_admitted channel_ok_finished channel_ok_answer_billed channel_ok_paid
    channel_ok_corrected(1) channel_ok_forgiven channel_ok_reconciled)+

abbreviation channel_run :: "bytes \<Rightarrow> bytes \<Rightarrow> u128 \<Rightarrow> channel \<Rightarrow> channel \<Rightarrow> bool" where
  "channel_run a cb balance \<equiv> (channel_step a cb balance)\<^sup>*\<^sup>*"

lemma channel_ok_run: "channel_run a cb balance st st' \<Longrightarrow> channel_ok a cb st \<Longrightarrow> channel_ok a cb st'"
  by (induction rule: rtranclp_induct) (auto intro: channel_ok_step)

text \<open>
  The start: nothing in flight, the client knows at least what the relay holds against it, as after reconciling, and
  counts its cheques from the one the relay holds.
\<close>

definition channel_start :: "bytes \<Rightarrow> bytes \<Rightarrow> channel \<Rightarrow> bool" where
  "channel_start a cb st =
     (let y = ch_payer st; c = py_account y; l = ch_relay st in
      lane_setup y \<and> ch_flight st = {#} \<and> ch_dedups st = 0 \<and> la_pending c = 0 \<and> reserved l a = 0 \<and>
      la_cumulative c = last_cumulative l a cb \<and> owed l a \<le> la_owed c \<and> la_owed c \<le> py_cap_plur y)"

lemma channel_ok_start: "channel_start a cb st \<Longrightarrow> channel_ok a cb st"
  by (auto simp: channel_start_def channel_ok_def Let_def word_le_nat_alt)


section \<open>What the two sides can rely on\<close>


lemma dust_floor_positive: "la_cap c \<noteq> 0 \<Longrightarrow> 0 < eff_min_cheque_plur (thresholds c)"
  by (simp add: thresholds_def effective_def Let_def word_less_nat_alt unat_max)

lemma full_cheque_clears:
  assumes nc: "next_cumulative c = Some m" "m \<le> MAX_CUMULATIVE_PLUR" and cum: "la_cumulative c = last_cumulative l a cb"
    and owe: "la_owed c = owed l a" and line: "la_cap c \<noteq> 0" and bind: "hm_get (binding l) cb = None \<or> hm_get (binding l) cb = Some a"
  shows "\<exists>l2. credit l a cb m sig = (Inr (owed l a), l2) \<and> owed l2 a = 0"
proof -
  note exact = next_cumulative_exact [OF nc]
  have less: "last_cumulative l a cb < m"
    using dust_floor_positive [OF line] exact by (auto simp: word_less_nat_alt word_le_nat_alt cum)
  show ?thesis
  proof (cases rule: credit_cases [of m l a cb sig])
    case (accepted l')
    then show ?thesis using exact(2) by (simp add: ledger_readings cum owe)
  qed (use nc(2) bind less exact(2) cum owe in auto)
qed


section \<open>An example lane\<close>

definition demo_lane :: "u128 \<Rightarrow> channel" where
  "demo_lane debt =
     \<lparr>ch_payer = demo_payer\<lparr>py_account := (lane_account_new default_params (replicate 20 7))\<lparr>la_cap := 30000000000, la_owed := debt\<rparr>\<rparr>,
      ch_relay = put_account [1] (default_account\<lparr>owed_plur := debt\<rparr>) (ephemeral []), ch_flight = {#}, ch_dedups = 0\<rparr>"

lemmas demo_lane_defs = demo_lane_def demo_payer_defs ephemeral_def put_account_def default_account_def

lemma demo_lane_ledger:
  "ledger_account (ch_relay (demo_lane debt)) [1] = default_account\<lparr>owed_plur := debt\<rparr>"
  by (simp add: demo_lane_def)

lemma demo_lane_start: "debt \<le> 30000000000 \<Longrightarrow> channel_start [1] [2] (demo_lane debt)"
  by (simp add: channel_start_def Let_def lane_setup_def ledger_readings demo_lane_ledger)
    (simp add: demo_lane_defs)



text \<open>
  Where the counts can drift apart: a body of two full frames of which the relay already has one. The relay bills five
  kibibytes; the client takes the five of the duplicate off the nine of the body.
\<close>

lemma refund_undercounts:
  "price_bytes default_params 8502 - price_bytes default_params 4251 < price_bytes default_params (8502 - 4251)"
  by (simp add: price_bytes_def div_ceil_def default_params_def PRICE_PLUR_PER_KIB_def)

end
