(* ===== verification/Feed.thy ===== *)
theory Feed
  imports Signer "HOL-Library.Multiset"
begin

text \<open>
  Resolving a sequence feed, \<^verbatim>\<open>src/feed.rs\<close>: the address of an update, the anchor probe with its retries, the doubling bands
  that bracket the newest update and the search that narrows the bracket. Every probe of a round runs concurrently; the
  chunk store and the order in which the probes of a round complete are parameters, both free to differ per round.
\<close>

section \<open>Feeds\<close>

definition FEED_OWNER_KEY :: string where "FEED_OWNER_KEY = ''swarm-feed-owner''"
definition FEED_TOPIC_KEY :: string where "FEED_TOPIC_KEY = ''swarm-feed-topic''"
definition FEED_TYPE_KEY :: string where "FEED_TYPE_KEY = ''swarm-feed-type''"
definition INDEX_BYTES :: usize where "INDEX_BYTES = 8"
definition PAYLOAD_PREFIX :: usize where "PAYLOAD_PREFIX = 8"

datatype feed_error =
    BadOwner string
  | BadTopic string
  | UnsupportedType string
  | ShortPayload usize
  | NoUpdate

record feed =
  fd_owner :: bytes
  fd_topic :: bytes

definition feed_decode_hex :: "(string \<Rightarrow> bytes option) \<Rightarrow> string \<Rightarrow> string + bytes" where
  "feed_decode_hex unhex s =
     (let t = (if take 2 s = ''0x'' then drop 2 s else s) in case unhex t of None \<Rightarrow> Inl ''hex'' | Some b \<Rightarrow> Inr b)"

definition from_manifest_meta :: "(string \<Rightarrow> bytes option) \<Rightarrow> string \<Rightarrow> string \<Rightarrow> string \<Rightarrow> feed_error + feed" where
  "from_manifest_meta unhex owner_hex topic_hex ty =
     (if to_ascii_lowercase ty \<noteq> ''sequence'' then Inl (UnsupportedType ty)
      else
        case feed_decode_hex unhex owner_hex of
          Inl e \<Rightarrow> Inl (BadOwner e)
        | Inr owner \<Rightarrow>
            if length owner \<noteq> 20 then Inl (BadOwner ''length'')
            else
              (case feed_decode_hex unhex topic_hex of
                 Inl e \<Rightarrow> Inl (BadTopic e)
               | Inr topic \<Rightarrow>
                   if length topic \<noteq> 32 then Inl (BadTopic ''length'')
                   else Inr \<lparr>fd_owner = owner, fd_topic = topic\<rparr>))"

definition update_address :: "crypto \<Rightarrow> feed \<Rightarrow> u64 \<Rightarrow> bytes" where
  "update_address c fd i = keccak c (keccak c (fd_topic fd @ to_be_bytes INDEX_BYTES i) @ fd_owner fd)"

definition reference_from_payload :: "bytes \<Rightarrow> feed_error + bytes" where
  "reference_from_payload data =
     (if length data < PAYLOAD_PREFIX + 32 then Inl (ShortPayload (length data)) else Inr (take 32 (drop PAYLOAD_PREFIX data)))"

section \<open>Candidates of a search round\<close>

definition push_candidate :: "u64 \<Rightarrow> u64 \<Rightarrow> u64 list \<Rightarrow> u64 \<Rightarrow> u64 list" where
  "push_candidate low high out idx =
     (if idx > low \<and> idx < high \<and> (out = [] \<or> last out \<noteq> idx) then out @ [idx] else out)"

definition bracket_candidates :: "u64 \<Rightarrow> u64 \<Rightarrow> u32 \<Rightarrow> u64 list" where
  "bracket_candidates low high k =
     (if high \<le> low + 1 then []
      else
        let inner = high - low - 1;
            probes = min (ucast k) inner
        in foldl (push_candidate low high) []
             (map (\<lambda>j. low + (inner * of_nat j) div (probes + 1) + 1) [1..<Suc (unat probes)]))"

section \<open>Probes\<close>

datatype resolve_error =
    FeedError feed_error
  | FetchError string
  | BadUpdate string

definition MAX_PROBE_INDEX :: u64 where "MAX_PROBE_INDEX = 1048576"
definition PROBE_BAND :: u32 where "PROBE_BAND = 12"
definition PROBE_TIMEOUT :: nat where "PROBE_TIMEOUT = 1500"
definition ANCHOR_ATTEMPTS :: nat where "ANCHOR_ATTEMPTS = 4"
definition ANCHOR_PROBE_TIMEOUT :: nat where "ANCHOR_PROBE_TIMEOUT = 25000"

text \<open>
  What a request to the store ends in: the data of the chunk, one of the store's errors, or the deadline. A request is
  known by the round it belongs to, its deadline in milliseconds, and the address. \<^verbatim>\<open>fn_pick\<close> says which of the remaining
  probes of a round completes next.
\<close>

datatype fetched =
    Got bytes
  | NotFound
  | OtherError string
  | StoreError string
  | TimedOut

record feed_net =
  fn_get :: "nat \<Rightarrow> nat \<Rightarrow> bytes \<Rightarrow> fetched"
  fn_pick :: "nat \<Rightarrow> u64 list \<Rightarrow> nat"

datatype probe =
    Present bytes
  | Absent
  | Unresolved

definition is_absent_retrieval :: "string \<Rightarrow> bool" where
  "is_absent_retrieval msg =
     (let m = to_ascii_lowercase msg in
      str_contains ''no peer found'' m \<or> str_contains ''not found'' m \<or> str_contains ''all peers failed'' m)"

definition probe_update_with :: "crypto \<Rightarrow> feed_net \<Rightarrow> feed \<Rightarrow> nat \<Rightarrow> u64 \<Rightarrow> nat \<Rightarrow> resolve_error + probe" where
  "probe_update_with c net fd r i deadline =
     (case fn_get net r deadline (update_address c fd i) of
        Got b \<Rightarrow> Inr (Present b)
      | NotFound \<Rightarrow> Inr Absent
      | OtherError msg \<Rightarrow> if is_absent_retrieval msg then Inr Unresolved else Inl (FetchError msg)
      | StoreError e \<Rightarrow> Inl (FetchError e)
      | TimedOut \<Rightarrow> Inr Unresolved)"

definition probe_update :: "crypto \<Rightarrow> feed_net \<Rightarrow> feed \<Rightarrow> nat \<Rightarrow> u64 \<Rightarrow> resolve_error + probe" where
  "probe_update c net fd r i = probe_update_with c net fd r i PROBE_TIMEOUT"

definition get_update :: "crypto \<Rightarrow> feed_net \<Rightarrow> feed \<Rightarrow> nat \<Rightarrow> u64 \<Rightarrow> resolve_error + bytes option" where
  "get_update c net fd r i =
     (case probe_update c net fd r i of
        Inl e \<Rightarrow> Inl e
      | Inr (Present b) \<Rightarrow> Inr (Some b)
      | Inr Absent \<Rightarrow> Inr None
      | Inr Unresolved \<Rightarrow> Inr None)"

text \<open>The attempts at the anchor, each a round of its own.\<close>

fun anchor_attempts :: "crypto \<Rightarrow> feed_net \<Rightarrow> feed \<Rightarrow> nat \<Rightarrow> u64 \<Rightarrow> nat \<Rightarrow> resolve_error + bytes option" where
  "anchor_attempts c net fd r i 0 = Inr None"
| "anchor_attempts c net fd r i (Suc left) =
     (case probe_update_with c net fd r i ANCHOR_PROBE_TIMEOUT of
        Inl e \<Rightarrow> Inl e
      | Inr (Present b) \<Rightarrow> Inr (Some b)
      | Inr Absent \<Rightarrow> Inr None
      | Inr Unresolved \<Rightarrow> anchor_attempts c net fd (Suc r) i left)"

definition confirm_anchor :: "crypto \<Rightarrow> feed_net \<Rightarrow> feed \<Rightarrow> nat \<Rightarrow> u64 \<Rightarrow> resolve_error + bytes option" where
  "confirm_anchor c net fd r i = anchor_attempts c net fd r i ANCHOR_ATTEMPTS"

section \<open>Rounds\<close>

text \<open>The probes of a round in the order they complete.\<close>

function arrivals :: "(u64 list \<Rightarrow> nat) \<Rightarrow> u64 list \<Rightarrow> u64 list" where
  "arrivals pick futs =
     (if futs = [] then []
      else let k = pick futs mod length futs in futs ! k # arrivals pick (take k futs @ drop (Suc k) futs))"
  by auto
termination
proof (relation "measure (\<lambda>(pick, futs). length futs)", goal_cases)
  case (2 pick futs k)
  then have "k < length futs" by simp
  then show ?case by simp
qed simp

declare arrivals.simps [simp del]

text \<open>What a round learns: the highest index found with its chunk, the lowest one missing, and whether any was found.\<close>

record round_state =
  rd_lo :: u64
  rd_chunk :: "bytes option"
  rd_hi :: u64
  rd_any :: bool

definition note_present :: "u64 \<Rightarrow> bytes \<Rightarrow> round_state \<Rightarrow> round_state" where
  "note_present idx b st =
     (let st1 = st\<lparr>rd_any := True\<rparr> in if idx > rd_lo st1 then st1\<lparr>rd_lo := idx, rd_chunk := Some b\<rparr> else st1)"

definition note_absent :: "u64 \<Rightarrow> round_state \<Rightarrow> round_state" where
  "note_absent idx st = (if idx < rd_hi st then st\<lparr>rd_hi := idx\<rparr> else st)"

fun run_round :: "crypto \<Rightarrow> feed_net \<Rightarrow> feed \<Rightarrow> nat \<Rightarrow> u64 list \<Rightarrow> round_state \<Rightarrow> resolve_error + round_state" where
  "run_round c net fd r [] st = Inr st"
| "run_round c net fd r (idx # rest) st =
     (case get_update c net fd r idx of
        Inl e \<Rightarrow> Inl e
      | Inr (Some b) \<Rightarrow> run_round c net fd r rest (note_present idx b st)
      | Inr None \<Rightarrow> run_round c net fd r rest (note_absent idx st))"

text \<open>The indices of a band: doubling distances, up to the first one beyond the limit.\<close>

definition band :: "u64 \<Rightarrow> u64 \<Rightarrow> u64 list" where
  "band lo step =
     takeWhile (\<lambda>idx. idx \<le> MAX_PROBE_INDEX)
       (map (\<lambda>k. saturating_add lo (saturating_mul step (2 ^ k))) [0..<unat PROBE_BAND])"

definition probed_top :: "u64 \<Rightarrow> u64 list \<Rightarrow> u64" where
  "probed_top lo idxs = foldl max lo idxs"


section \<open>What a round does\<close>

lemma mset_arrivals [simp]: "mset (arrivals pick futs) = mset futs"
proof (induction pick futs rule: arrivals.induct)
  case (1 pick futs)
  show ?case
  proof (cases "futs = []")
    case False
    define k where "k = pick futs mod length futs"
    have "k < length futs" using False by (simp add: k_def)
    then have "futs = take k futs @ futs ! k # drop (Suc k) futs" by (rule id_take_nth_drop)
    then have "mset futs = add_mset (futs ! k) (mset (take k futs @ drop (Suc k) futs))"
      by (metis mset.simps(2) mset_append union_mset_add_mset_right)
    then show ?thesis using 1 [OF False k_def] False by (subst arrivals.simps) (simp add: k_def Let_def)
  qed (simp add: arrivals.simps)
qed

lemma set_arrivals [simp]: "set (arrivals pick futs) = set futs"
  by (metis mset_arrivals set_mset_mset)

lemma note_simps [simp]:
  "rd_lo (note_absent i st) = rd_lo st" "rd_chunk (note_absent i st) = rd_chunk st" "rd_any (note_absent i st) = rd_any st"
  "rd_hi (note_absent i st) = min (rd_hi st) i" "rd_lo (note_present i b st) = max (rd_lo st) i"
  "rd_hi (note_present i b st) = rd_hi st" "rd_any (note_present i b st)"
  "rd_chunk (note_present i b st) = (if i > rd_lo st then Some b else rd_chunk st)"
  by (auto simp: note_absent_def note_present_def Let_def min_def max_def)

lemma run_round_bounds:
  "run_round c net fd r idxs st = Inr st' \<Longrightarrow>
   rd_lo st \<le> rd_lo st' \<and> rd_hi st' \<le> rd_hi st \<and> (rd_lo st' = rd_lo st \<or> rd_lo st' \<in> set idxs) \<and>
   (rd_hi st' = rd_hi st \<or> rd_hi st' \<in> set idxs) \<and>
   (rd_any st' \<longrightarrow> rd_any st \<or> (\<exists>i \<in> set idxs. i \<le> rd_lo st'))"
proof (induction idxs arbitrary: st)
  case (Cons i rest)
  show ?case
  proof (cases "get_update c net fd r i")
    case (Inr o')
    show ?thesis
    proof (cases o')
      case None
      then show ?thesis using Cons.prems Inr Cons.IH [of "note_absent i st"] by (auto simp: min_def split: if_splits)
    next
      case (Some b)
      then show ?thesis using Cons.prems Inr Cons.IH [of "note_present i b st"] by (auto simp: max_def split: if_splits)
    qed
  qed (use Cons.prems in simp)
qed simp

lemma unat_two_power: "k < LENGTH('a) \<Longrightarrow> unat (2 ^ k :: 'a::len word) = 2 ^ k"
  using unat_of_nat [of "2 ^ k", where 'a = 'a] by (simp add: power_strict_increasing)

lemma band_above:
  assumes "step \<noteq> 0" "i \<in> set (band lo step)"
  shows "lo < i" "i \<le> MAX_PROBE_INDEX"
proof -
  have "i \<in> set (map (\<lambda>k. saturating_add lo (saturating_mul step (2 ^ k))) [0..<unat PROBE_BAND])" and le: "i \<le> MAX_PROBE_INDEX"
    using assms(2) unfolding band_def by (blast dest: set_takeWhileD)+
  then obtain k where k: "k < 12" "i = saturating_add lo (saturating_mul step (2 ^ k))" by (auto simp: PROBE_BAND_def)
  show "i \<le> MAX_PROBE_INDEX" by (rule le)
  have "unat (2 ^ k :: u64) = 2 ^ k" using k(1) by (intro unat_two_power) simp
  then have off: "0 < unat (saturating_mul step (2 ^ k))"
    using assms(1) by (simp add: unat_saturating_mul unat_gt_0)
  have "unat i \<le> 1048576" using le by (simp add: MAX_PROBE_INDEX_def word_le_nat_alt)
  then have "unat i = unat lo + unat (saturating_mul step (2 ^ k))"
    by (simp add: k(2) unat_saturating_add min_def split: if_splits)
  then show "lo < i" using off by (simp add: word_less_nat_alt)
qed

section \<open>The search\<close>

abbreviation round_start :: "u64 \<Rightarrow> u64 \<Rightarrow> round_state" where
  "round_start lo hi \<equiv> \<lparr>rd_lo = lo, rd_chunk = None, rd_hi = hi, rd_any = False\<rparr>"

abbreviation newer :: "bytes option \<Rightarrow> bytes \<Rightarrow> bytes" where
  "newer b old \<equiv> (case b of None \<Rightarrow> old | Some x \<Rightarrow> x)"

text \<open>Doubling bands until one has a missing index; the result is the bracket, open when its upper end is the largest \<^verbatim>\<open>u64\<close>.\<close>

function gallop :: "crypto \<Rightarrow> feed_net \<Rightarrow> feed \<Rightarrow> nat \<Rightarrow> u64 \<Rightarrow> bytes \<Rightarrow> u64 \<Rightarrow> u64
    \<Rightarrow> resolve_error + nat \<times> u64 \<times> bytes \<times> u64" where
  "gallop c net fd r lo chunk hi step =
     (if hi \<noteq> - 1 \<or> band lo step = [] then Inr (r, lo, chunk, hi)
      else
        case run_round c net fd r (arrivals (fn_pick net r) (band lo step)) (round_start lo hi) of
          Inl e \<Rightarrow> Inl e
        | Inr st \<Rightarrow>
            if rd_hi st \<noteq> - 1 \<or> \<not> rd_any st \<or> probed_top lo (band lo step) \<ge> MAX_PROBE_INDEX
            then Inr (Suc r, rd_lo st, newer (rd_chunk st) chunk, rd_hi st)
            else gallop c net fd (Suc r) (rd_lo st) (newer (rd_chunk st) chunk) (rd_hi st)
                   (saturating_add (probed_top lo (band lo step) - rd_lo st) 1))"
  by pat_completeness auto
termination
proof (relation "measures [\<lambda>(c, net, fd, r, lo, chunk, hi, step). 1048577 - unat lo, \<lambda>(c, net, fd, r, lo, chunk, hi, step). if step = 0 then 1 else 0]",
    goal_cases)
  case (2 c net fd r lo chunk hi step st)
  let ?step = "saturating_add (probed_top lo (band lo step) - rd_lo st) 1"
  have b: "lo \<le> rd_lo st" "rd_lo st = lo \<or> rd_lo st \<in> set (band lo step)" "\<exists>i \<in> set (band lo step). i \<le> rd_lo st"
    using run_round_bounds [OF 2(2)] 2(3) by auto
  have "unat ?step \<noteq> 0" by (simp add: unat_saturating_add)
  then have s: "?step \<noteq> 0" by auto
  show ?case
  proof (cases "step = 0")
    case True
    then show ?thesis using b(1) s by (auto simp: word_le_nat_alt)
  next
    case False
    then have "lo < rd_lo st" "rd_lo st \<le> MAX_PROBE_INDEX"
      using b(2,3) band_above [OF False] by force+
    then show ?thesis by (auto simp: MAX_PROBE_INDEX_def word_less_nat_alt word_le_nat_alt)
  qed
qed simp

declare gallop.simps [simp del]

lemma foldl_push_inside:
  "i \<in> set (foldl (push_candidate low high) out xs) \<Longrightarrow> i \<in> set out \<or> low < i \<and> i < high"
  by (induction xs arbitrary: out) (fastforce simp: push_candidate_def split: if_splits)+

lemma candidates_inside: "i \<in> set (bracket_candidates low high k) \<Longrightarrow> low < i \<and> i < high"
  using foldl_push_inside [of i low high "[]"] unfolding bracket_candidates_def Let_def by (auto simp del: upt_Suc split: if_splits)

text \<open>
  Narrowing: \<open>lo\<close> and its chunk are the newest update seen, \<open>low\<close> and \<open>high\<close> the bracket. The subtraction wraps, so a bracket
  that is the wrong way round passes the test and ends at the empty list of candidates.
\<close>

function narrow :: "crypto \<Rightarrow> feed_net \<Rightarrow> feed \<Rightarrow> nat \<Rightarrow> u64 \<Rightarrow> bytes \<Rightarrow> u64 \<Rightarrow> u64 \<Rightarrow> resolve_error + u64 \<times> bytes" where
  "narrow c net fd r lo chunk low high =
     (if \<not> high - low > 1 \<or> bracket_candidates low high PROBE_BAND = [] then Inr (lo, chunk)
      else
        case run_round c net fd r (arrivals (fn_pick net r) (bracket_candidates low high PROBE_BAND)) (round_start low high) of
          Inl e \<Rightarrow> Inl e
        | Inr st \<Rightarrow>
            if rd_lo st = low \<and> rd_hi st = high then Inr (lo, chunk)
            else
              (case rd_chunk st of
                 None \<Rightarrow> narrow c net fd (Suc r) lo chunk (rd_lo st) (rd_hi st)
               | Some b \<Rightarrow> narrow c net fd (Suc r) (rd_lo st) b (rd_lo st) (rd_hi st)))"
  by pat_completeness auto
termination
proof -
  have smaller: "unat (rd_hi st) - unat (rd_lo st) < unat high - unat low"
    if run: "run_round c net fd r (arrivals (fn_pick net r) (bracket_candidates low high PROBE_BAND)) (round_start low high) = Inr st"
      and new: "\<not> (rd_lo st = low \<and> rd_hi st = high)" and ne: "bracket_candidates low high PROBE_BAND \<noteq> []"
    for c net fd r low high st
  proof -
    obtain i where "i \<in> set (bracket_candidates low high PROBE_BAND)" using ne by (meson last_in_set)
    then have "low < high" using candidates_inside by (meson order_less_trans)
    then show ?thesis
      using run_round_bounds [OF run] new candidates_inside [of _ low high PROBE_BAND]
      by (auto simp: word_less_nat_alt word_le_nat_alt word_unat_eq_iff)
  qed
  show ?thesis
    by (relation "measure (\<lambda>(c, net, fd, r, lo, chunk, low, high). unat high - unat low)") (auto intro: smaller)
qed

declare narrow.simps [simp del]

text \<open>The newest update known to start from: the one at the hint, or the first one.\<close>

definition find_anchor :: "crypto \<Rightarrow> feed_net \<Rightarrow> feed \<Rightarrow> u64 \<Rightarrow> resolve_error + u64 \<times> bytes" where
  "find_anchor c net fd after =
     (case confirm_anchor c net fd 0 after of
        Inl e \<Rightarrow> Inl e
      | Inr (Some b) \<Rightarrow> Inr (after, b)
      | Inr None \<Rightarrow>
          if after \<noteq> 0 then
            (case confirm_anchor c net fd ANCHOR_ATTEMPTS 0 of
               Inl e \<Rightarrow> Inl e
             | Inr (Some b) \<Rightarrow> Inr (0, b)
             | Inr None \<Rightarrow> Inl (FeedError NoUpdate))
          else Inl (FeedError NoUpdate))"

definition resolve_latest :: "crypto \<Rightarrow> feed_net \<Rightarrow> feed \<Rightarrow> u64 \<Rightarrow> resolve_error + bytes \<times> u64" where
  "resolve_latest c net fd after =
     (case find_anchor c net fd after of
        Inl e \<Rightarrow> Inl e
      | Inr (lo, chunk) \<Rightarrow>
          (case gallop c net fd (2 * ANCHOR_ATTEMPTS) lo chunk (- 1) 1 of
             Inl e \<Rightarrow> Inl e
           | Inr (r, lo1, chunk1, hi) \<Rightarrow>
               (case (if hi \<noteq> - 1 then narrow c net fd r lo1 chunk1 lo1 hi else Inr (lo1, chunk1)) of
                  Inl e \<Rightarrow> Inl e
                | Inr (lo2, chunk2) \<Rightarrow>
                    (case reference_from_payload chunk2 of
                       Inl e \<Rightarrow> Inl (FeedError e)
                     | Inr reference \<Rightarrow> Inr (reference, lo2)))))"

section \<open>A published feed\<close>

text \<open>
  A feed whose updates are exactly those up to \<open>head\<close>: every probe of one of them is answered with its data, every other
  probe with one of the answers for a missing chunk, in every round.
\<close>

definition missing :: "fetched \<Rightarrow> bool" where
  "missing x = (case x of NotFound \<Rightarrow> True | TimedOut \<Rightarrow> True | OtherError msg \<Rightarrow> is_absent_retrieval msg | _ \<Rightarrow> False)"

definition published :: "crypto \<Rightarrow> feed_net \<Rightarrow> feed \<Rightarrow> u64 \<Rightarrow> (u64 \<Rightarrow> bytes) \<Rightarrow> bool" where
  "published c net fd head upd =
     (\<forall>r dl i. if i \<le> head then fn_get net r dl (update_address c fd i) = Got (upd i)
               else missing (fn_get net r dl (update_address c fd i)))"

lemma get_update_published:
  assumes "published c net fd head upd"
  shows "get_update c net fd r i = Inr (if i \<le> head then Some (upd i) else None)"
  using assms [unfolded published_def, rule_format, of i r PROBE_TIMEOUT]
  by (auto simp: get_update_def probe_update_def probe_update_with_def missing_def split: fetched.splits if_splits)

lemma anchor_published:
  assumes "published c net fd head upd"
  shows "anchor_attempts c net fd r i n = Inr (if 0 < n \<and> i \<le> head then Some (upd i) else None)"
proof (induction n arbitrary: r)
  case (Suc n)
  then show ?case
    using assms [unfolded published_def, rule_format, of i r ANCHOR_PROBE_TIMEOUT]
    by (auto simp: probe_update_with_def missing_def split: fetched.splits if_splits)
qed simp

text \<open>What a round over \<open>idxs\<close> learns of such a feed.\<close>

definition learns :: "u64 \<Rightarrow> (u64 \<Rightarrow> bytes) \<Rightarrow> bytes \<Rightarrow> u64 set \<Rightarrow> round_state \<Rightarrow> round_state \<Rightarrow> bool" where
  "learns head upd old I st st' =
     ((rd_lo st \<le> head \<longrightarrow> rd_lo st' \<le> head) \<and> (head < rd_hi st \<longrightarrow> head < rd_hi st') \<and>
      (\<forall>i \<in> I. i \<le> head \<longrightarrow> i \<le> rd_lo st') \<and> (\<forall>i \<in> I. head < i \<longrightarrow> rd_hi st' \<le> i) \<and>
      (rd_any st' \<longleftrightarrow> rd_any st \<or> (\<exists>i \<in> I. i \<le> head)) \<and>
      (newer (rd_chunk st) old = upd (rd_lo st) \<longrightarrow> newer (rd_chunk st') old = upd (rd_lo st')) \<and>
      (rd_chunk st' = None \<longrightarrow> rd_lo st' = rd_lo st \<and> rd_chunk st = None) \<and> rd_lo st \<le> rd_lo st' \<and> rd_hi st' \<le> rd_hi st)"

lemma learns_Cons:
  assumes "if i \<le> head then learns head upd old I (note_present i (upd i) st) st' else learns head upd old I (note_absent i st) st'"
  shows "learns head upd old (insert i I) st st'"
  using assms by (auto simp: learns_def split: if_splits)

lemma run_round_published:
  assumes pub: "published c net fd head upd"
  shows "\<exists>st'. run_round c net fd r idxs st = Inr st' \<and> learns head upd old (set idxs) st st'"
proof (induction idxs arbitrary: st)
  case Nil
  show ?case by (simp add: learns_def)
next
  case (Cons i rest)
  show ?case
    using Cons.IH [of "note_present i (upd i) st"] Cons.IH [of "note_absent i st"] learns_Cons [of i head upd old "set rest" st]
    by (cases "i \<le> head") (auto simp: get_update_published [OF pub])
qed

lemma band_empty: "band lo 1 = [] \<Longrightarrow> MAX_PROBE_INDEX \<le> lo"
proof -
  assume "band lo 1 = []"
  then have "\<not> saturating_add lo 1 \<le> MAX_PROBE_INDEX"
    by (simp add: band_def PROBE_BAND_def saturating_mul_def upt_conv_Cons split: if_splits)
  then show ?thesis
    by (auto simp: MAX_PROBE_INDEX_def word_le_nat_alt unat_saturating_add min_def split: if_splits)
qed

lemma probed_top_max: "probed_top lo idxs = Max (insert lo (set idxs))"
proof -
  have "foldl max x idxs = Max (insert x (set idxs))" for x :: u64
  proof (induction idxs arbitrary: x)
    case (Cons i idxs)
    show ?case unfolding foldl_Cons Cons.IH by (cases "idxs = []") (auto simp: Max_insert ac_simps simp del: Max_insert2)
  qed simp
  then show ?thesis by (simp add: probed_top_def)
qed

text \<open>
  The bracket around the head. When all indices of a band are present, the next band starts right above them with step
  one again: the distance to the highest index probed is zero by then.
\<close>

lemma gallop_published:
  assumes pub: "published c net fd head upd" and small: "head \<le> MAX_PROBE_INDEX"
  shows "lo \<le> head \<Longrightarrow> \<exists>r' lo' hi'. gallop c net fd r lo (upd lo) (- 1) 1 = Inr (r', lo', upd lo', hi') \<and> lo' \<le> head \<and>
    (if hi' = - 1 then lo' = head else head < hi' \<and> hi' \<le> MAX_PROBE_INDEX)"
proof (induction "1048577 - unat lo" arbitrary: lo r rule: less_induct)
  case less
  let ?B = "band lo 1"
  have top: "MAX_PROBE_INDEX < (- 1 :: u64)" by (simp add: MAX_PROBE_INDEX_def)
  show ?case
  proof (cases "?B = []")
    case True
    then have "gallop c net fd r lo (upd lo) (- 1) 1 = Inr (r, lo, upd lo, - 1)" by (subst gallop.simps) simp
    moreover have "lo = head" using less.prems small band_empty [OF True] by simp
    ultimately show ?thesis by simp
  next
    case False
    obtain st where run: "run_round c net fd r (arrivals (fn_pick net r) ?B) (round_start lo (- 1)) = Inr st"
      and l: "learns head upd (upd lo) (set ?B) (round_start lo (- 1)) st"
      using run_round_published [OF pub, of r "arrivals (fn_pick net r) ?B"] by auto
    note b = run_round_bounds [OF run, simplified]
    have lo: "rd_lo st \<le> head" "newer (rd_chunk st) (upd lo) = upd (rd_lo st)" "head < rd_hi st"
      using l less.prems small top by (auto simp: learns_def)
    show ?thesis
    proof (cases "rd_hi st = - 1")
      case False
      then have "rd_hi st \<in> set ?B" using b by simp
      then have "rd_hi st \<le> MAX_PROBE_INDEX" using band_above(2) [of 1] by simp
      moreover have "gallop c net fd r lo (upd lo) (- 1) 1 = Inr (Suc r, rd_lo st, upd (rd_lo st), rd_hi st)"
        using False \<open>?B \<noteq> []\<close> run lo(2) by (subst gallop.simps) simp
      ultimately show ?thesis using False lo(1,3) by simp
    next
      case True
      have all: "i \<le> head" if "i \<in> set ?B" for i
      proof (rule ccontr)
        assume "\<not> i \<le> head"
        then have "rd_hi st \<le> i" using l that by (simp add: learns_def not_le)
        also have "i \<le> MAX_PROBE_INDEX" using band_above(2) [OF _ that] by simp
        finally show False using True top by simp
      qed
      then have up: "i \<le> rd_lo st" if "i \<in> set ?B" for i using l that by (simp add: learns_def)
      have any: "rd_any st" using l all [OF hd_in_set [OF \<open>?B \<noteq> []\<close>]] hd_in_set [OF \<open>?B \<noteq> []\<close>] unfolding learns_def by blast
      have probed: "probed_top lo ?B = rd_lo st" using up b unfolding probed_top_max by (intro Max_eqI) auto
      have "lo < hd ?B" "hd ?B \<le> rd_lo st" using band_above(1) [of 1] up hd_in_set [OF \<open>?B \<noteq> []\<close>] by simp_all
      then have above: "lo < rd_lo st" by simp
      show ?thesis
      proof (cases "rd_lo st \<ge> MAX_PROBE_INDEX")
        case True
        then have "gallop c net fd r lo (upd lo) (- 1) 1 = Inr (Suc r, rd_lo st, upd (rd_lo st), - 1)"
          using \<open>rd_hi st = - 1\<close> \<open>?B \<noteq> []\<close> run lo(2) probed by (subst gallop.simps) simp
        moreover have "rd_lo st = head" using True lo(1) small by simp
        ultimately show ?thesis by simp
      next
        case False
        have "unat (rd_lo st) < 1048577" using lo(1) small by (simp add: MAX_PROBE_INDEX_def word_le_nat_alt)
        then have "1048577 - unat (rd_lo st) < 1048577 - unat lo" using above by (simp add: word_less_nat_alt)
        note ih = less.hyps [OF this lo(1), of "Suc r"]
        have "gallop c net fd r lo (upd lo) (- 1) 1 = gallop c net fd (Suc r) (rd_lo st) (upd (rd_lo st)) (- 1) 1"
          using False \<open>rd_hi st = - 1\<close> \<open>?B \<noteq> []\<close> run lo(2) any probed
          by (subst gallop.simps) (simp add: saturating_add_def)
        then show ?thesis using ih by (simp only:)
      qed
    qed
  qed
qed

lemma foldl_push_keeps: "out \<noteq> [] \<Longrightarrow> foldl (push_candidate low high) out xs \<noteq> []"
  by (induction xs arbitrary: out) (auto simp: push_candidate_def)

text \<open>A bracket with room inside has a candidate: the first one computed lies strictly between its ends.\<close>

lemma candidates_exist:
  assumes "unat low + 1 < unat high" "high \<le> MAX_PROBE_INDEX"
  shows "bracket_candidates low high PROBE_BAND \<noteq> []"
proof -
  let ?inner = "high - low - 1" and ?f = "\<lambda>j. low + ((high - low - 1) * of_nat j) div (min (ucast PROBE_BAND) (high - low - 1) + 1) + 1"
  have lim: "unat high \<le> 1048576" using assms(2) by (simp add: MAX_PROBE_INDEX_def word_le_nat_alt)
  have low1: "unat (low + 1) = unat low + 1" using assms(1) lim by (simp add: unat_add_bounded)
  have "unat (high - low) = unat high - unat low" using assms(1) by (simp add: unat_sub word_le_nat_alt)
  moreover have "unat ?inner = unat (high - low) - 1"
    using assms(1) calculation by (simp add: unat_sub word_le_nat_alt)
  ultimately have inner: "unat ?inner = unat high - unat low - 1" by simp
  define q where "q = ?inner div (min (ucast PROBE_BAND) ?inner + 1)"
  have probes: "1 \<le> unat (min (ucast PROBE_BAND) ?inner)" "unat (min (ucast PROBE_BAND) ?inner) \<le> 12"
    using assms(1) by (simp_all add: unat_min inner PROBE_BAND_def)
  then have "unat (min (ucast PROBE_BAND) ?inner + 1) = unat (min (ucast PROBE_BAND) ?inner) + 1"
    by (simp add: unat_add_bounded)
  then have "unat q = unat ?inner div (unat (min (ucast PROBE_BAND) ?inner) + 1)" by (simp add: q_def unat_div)
  also have "\<dots> \<le> unat ?inner div 2" using probes(1) by (intro div_le_mono2) simp_all
  also have "\<dots> < unat ?inner" using assms(1) inner by simp
  finally have q: "unat q < unat high - unat low - 1" using inner by simp
  have "unat (low + q) = unat low + unat q" using q assms(1) lim by (simp add: unat_add_bounded)
  then have idx: "unat (?f 1) = unat low + unat q + 1" using q assms(1) lim by (simp add: unat_add_bounded flip: q_def)
  have head: "[1..<Suc (unat (min (ucast PROBE_BAND) ?inner))] = 1 # [2..<Suc (unat (min (ucast PROBE_BAND) ?inner))]"
    using probes(1) by (simp add: upt_conv_Cons numeral_2_eq_2 del: upt_Suc)
  have "push_candidate low high [] (?f 1) \<noteq> []"
    using idx q by (simp add: push_candidate_def word_less_nat_alt)
  then have "foldl (push_candidate low high) [] (map ?f [1..<Suc (unat (min (ucast PROBE_BAND) ?inner))]) \<noteq> []"
    unfolding head list.map foldl_Cons by (rule foldl_push_keeps)
  moreover have "\<not> high \<le> low + 1" using assms(1) low1 by (simp add: word_le_nat_alt)
  ultimately show ?thesis by (simp add: bracket_candidates_def Let_def del: upt_Suc)
qed

lemma narrow_published:
  assumes pub: "published c net fd head upd"
  shows "low \<le> head \<Longrightarrow> head < high \<Longrightarrow> high \<le> MAX_PROBE_INDEX \<Longrightarrow> narrow c net fd r low (upd low) low high = Inr (head, upd head)"
proof (induction "unat high - unat low" arbitrary: low high r rule: less_induct)
  case less
  let ?C = "bracket_candidates low high PROBE_BAND"
  have diff: "unat (high - low) = unat high - unat low" using less.prems by (simp add: unat_sub)
  show ?case
  proof (cases "unat low + 1 < unat high")
    case False
    then have "low = head" using less.prems by (simp add: word_less_nat_alt word_le_nat_alt word_unat_eq_iff)
    moreover have "\<not> high - low > 1" unfolding word_less_nat_alt diff using False by auto
    ultimately show ?thesis by (subst narrow.simps) simp
  next
    case True
    have ne: "?C \<noteq> []" by (rule candidates_exist [OF True less.prems(3)])
    obtain st where run: "run_round c net fd r (arrivals (fn_pick net r) ?C) (round_start low high) = Inr st"
      and l: "learns head upd (upd low) (set ?C) (round_start low high) st"
      using run_round_published [OF pub, of r "arrivals (fn_pick net r) ?C"] by auto
    have new: "rd_lo st \<le> head" "head < rd_hi st" "low \<le> rd_lo st" "rd_hi st \<le> high"
        "newer (rd_chunk st) (upd low) = upd (rd_lo st)" "rd_chunk st = None \<Longrightarrow> rd_lo st = low"
      using l less.prems by (auto simp: learns_def)
    obtain i where i: "i \<in> set ?C" using ne by (meson hd_in_set)
    have "i \<le> rd_lo st \<or> rd_hi st \<le> i" using l i by (auto simp: learns_def not_le [symmetric])
    then have moved: "rd_lo st \<noteq> low \<or> rd_hi st \<noteq> high" using candidates_inside [OF i] by auto
    then have "unat (rd_hi st) - unat (rd_lo st) < unat high - unat low"
      using new less.prems by (auto simp: word_less_nat_alt word_le_nat_alt word_unat_eq_iff)
    from less.hyps [OF this new(1,2)]
    have ih: "narrow c net fd (Suc r) (rd_lo st) (upd (rd_lo st)) (rd_lo st) (rd_hi st) = Inr (head, upd head)"
      using new(4) less.prems(3) by simp
    have big: "high - low > 1" using True diff by (simp add: word_less_nat_alt)
    show ?thesis
    proof (cases "rd_chunk st")
      case None
      then show ?thesis using ih new(5,6) ne run big moved by (subst narrow.simps) simp
    next
      case (Some b)
      then show ?thesis using ih new(5) ne run big moved by (subst narrow.simps) auto
    qed
  qed
qed

lemma anchor_missing:
  assumes "\<forall>r dl i. missing (fn_get net r dl (update_address c fd i))"
  shows "anchor_attempts c net fd r i n = Inr None"
proof (induction n arbitrary: r)
  case (Suc n)
  then show ?case
    using assms [rule_format, of r ANCHOR_PROBE_TIMEOUT i]
    by (auto simp: probe_update_with_def missing_def split: fetched.splits)
qed simp

text \<open>
  C14. A feed resolves to its newest update. For a feed whose updates are exactly those up to an index within the search
  limit, whatever hint the caller gives, in whatever order the probes of a round complete, and however a missing update is
  reported, resolution ends with the index of the newest update and the reference in its payload, or with the error
  that this payload is too short. A feed without any update is reported as such.
\<close>

theorem feed_resolves_newest:
  assumes "published c net fd head upd" "head \<le> MAX_PROBE_INDEX"
  shows "resolve_latest c net fd after =
      (case reference_from_payload (upd head) of Inl e \<Rightarrow> Inl (FeedError e) | Inr reference \<Rightarrow> Inr (reference, head)) \<and>
    ((\<forall>r dl i. missing (fn_get silent r dl (update_address c fd i))) \<longrightarrow> resolve_latest c silent fd after = Inl (FeedError NoUpdate))"
proof -
  have "anchor_attempts c silent fd r i n = Inr None" if "\<forall>r dl i. missing (fn_get silent r dl (update_address c fd i))" for r i n
    using that by (rule anchor_missing)
  then have none: "(\<forall>r dl i. missing (fn_get silent r dl (update_address c fd i))) \<Longrightarrow> resolve_latest c silent fd after = Inl (FeedError NoUpdate)"
    by (simp add: resolve_latest_def find_anchor_def confirm_anchor_def)
  have anchor: "\<exists>lo. find_anchor c net fd after = Inr (lo, upd lo) \<and> lo \<le> head"
    using anchor_published [OF assms(1), of 0 after ANCHOR_ATTEMPTS] anchor_published [OF assms(1), of ANCHOR_ATTEMPTS 0 ANCHOR_ATTEMPTS]
    by (auto simp: find_anchor_def confirm_anchor_def ANCHOR_ATTEMPTS_def)
  then obtain lo where lo: "find_anchor c net fd after = Inr (lo, upd lo)" "lo \<le> head" by blast
  obtain r lo' hi where g: "gallop c net fd (2 * ANCHOR_ATTEMPTS) lo (upd lo) (- 1) 1 = Inr (r, lo', upd lo', hi)" "lo' \<le> head"
      "if hi = - 1 then lo' = head else head < hi \<and> hi \<le> MAX_PROBE_INDEX"
    using gallop_published [OF assms lo(2)] by blast
  have "(if hi \<noteq> - 1 then narrow c net fd r lo' (upd lo') lo' hi else Inr (lo', upd lo')) = Inr (head, upd head)"
    using g(2,3) narrow_published [OF assms(1) g(2)] by (auto split: if_splits)
  then show ?thesis using none by (simp add: resolve_latest_def lo(1) g(1) split: sum.split)
qed


definition demo_net :: feed_net where
  "demo_net = \<lparr>fn_get = (\<lambda>r dl a. if be_nat a \<le> 2 then Got (replicate 40 (of_nat (be_nat a))) else if r = 0 then TimedOut else NotFound),
     fn_pick = (\<lambda>r xs. length xs div 2)\<rparr>"

theorem feed_resolves_newest_witness:
  "resolve_latest (toy_crypto\<lparr>keccak := id\<rparr>) demo_net \<lparr>fd_owner = [], fd_topic = []\<rparr> 7 = Inr (replicate 32 2, 2)"
proof -
  let ?c = "toy_crypto\<lparr>keccak := id\<rparr>" and ?fd = "\<lparr>fd_owner = [], fd_topic = []\<rparr>"
  have addr: "be_nat (update_address ?c ?fd i) = unat i" for i
    using unat_lt [of i] by (simp add: update_address_def INDEX_BYTES_def to_be_bytes_def to_le_bytes_def be_nat_def le_nat_nat_le)
  have pub: "published ?c demo_net ?fd 2 (\<lambda>i. replicate 40 (of_nat (unat i)))"
    by (simp add: published_def demo_net_def addr missing_def word_le_nat_alt)
  have "reference_from_payload (replicate 40 2) = Inr (replicate 32 2)"
    by (simp add: reference_from_payload_def PAYLOAD_PREFIX_def)
  then show ?thesis
    using feed_resolves_newest [OF pub, of 7] by (simp add: MAX_PROBE_INDEX_def)
qed

end
