(* ===== verification/Cid.thy ===== *)
theory Cid
  imports Prelude
begin

text \<open>
  The text form of a reference in gateway host names, \<^verbatim>\<open>src/cid.rs\<close>: a version-one content identifier in lower-case base 32. The
  bit buffer of the encoder is a 32-bit word, as in the source.
\<close>

unbundle bit_operations_syntax

section \<open>The encoder\<close>

definition CID_V1 :: u64 where "CID_V1 = 1"
definition SWARM_MANIFEST_CODEC :: u64 where "SWARM_MANIFEST_CODEC = 0xfa"
definition KECCAK_256_MULTIHASH :: u64 where "KECCAK_256_MULTIHASH = 0x1b"

function push_varint :: "bytes \<Rightarrow> u64 \<Rightarrow> bytes" where
  "push_varint out v =
     (if v \<ge> 0x80 then push_varint (out @ [((ucast v :: byte) AND 0x7f) OR 0x80]) (drop_bit 7 v) else out @ [ucast v])"
  by auto
termination
proof (relation "measure (\<lambda>(out, v). unat v)", goal_cases)
  case (2 out v)
  then have "0 < unat v" by (simp add: word_le_nat_alt)
  then show ?case by (simp add: drop_bit_eq_div unat_div)
qed simp

declare push_varint.simps [simp del]

definition ALPHABET :: string where "ALPHABET = ''abcdefghijklmnopqrstuvwxyz234567''"

text \<open>The inner loop of the encoder, one byte, and the bits left over at the end.\<close>

fun emit_quintets :: "u32 \<Rightarrow> nat \<Rightarrow> string \<Rightarrow> nat \<times> string" where
  "emit_quintets buffer bits out =
     (if bits \<ge> 5
      then emit_quintets buffer (bits - 5) (out @ [ALPHABET ! unat (drop_bit (bits - 5) buffer AND 0x1f)])
      else (bits, out))"

declare emit_quintets.simps [simp del]

fun base32_loop :: "bytes \<Rightarrow> u32 \<Rightarrow> nat \<Rightarrow> string \<Rightarrow> string" where
  "base32_loop [] buffer bits out =
     (if bits > 0 then out @ [ALPHABET ! unat (push_bit (5 - bits) buffer AND 0x1f)] else out)"
| "base32_loop (b # bs) buffer bits out =
     (let buffer' = push_bit 8 buffer OR ucast b;
          r = emit_quintets buffer' (bits + 8) out
      in base32_loop bs buffer' (fst r) (snd r))"

definition encode_base32_lower :: "bytes \<Rightarrow> string \<Rightarrow> string" where
  "encode_base32_lower input out = base32_loop input 0 0 out"

definition reference_to_cid :: "bytes \<Rightarrow> string" where
  "reference_to_cid reference =
     (let bs = push_varint (push_varint (push_varint (push_varint [] CID_V1) SWARM_MANIFEST_CODEC) KECCAK_256_MULTIHASH)
                 (of_nat (length reference)) @ reference
      in encode_base32_lower bs ''b'')"

section \<open>Base 32 by the book\<close>

text \<open>Bits are listed from the most significant one; five of them are a digit, the last ones filled up with zeros.\<close>

fun bits_val :: "bool list \<Rightarrow> nat" where
  "bits_val [] = 0"
| "bits_val (x # xs) = of_bool x * 2 ^ length xs + bits_val xs"

definition byte_bits :: "byte \<Rightarrow> bool list" where
  "byte_bits b = map (bit b) (rev [0..<8])"

fun quintets :: "bool list \<Rightarrow> nat list" where
  "quintets bs =
     (if bs = [] then []
      else if length bs < 5 then [bits_val (bs @ replicate (5 - length bs) False)]
      else bits_val (take 5 bs) # quintets (drop 5 bs))"

declare quintets.simps [simp del]

definition base32_spec :: "bytes \<Rightarrow> string" where
  "base32_spec input = map (nth ALPHABET) (quintets (concat (map byte_bits input)))"

lemma bits_val_append: "bits_val (xs @ ys) = bits_val xs * 2 ^ length ys + bits_val ys"
  by (induction xs) (simp_all add: power_add algebra_simps)

lemma bits_val_less: "bits_val xs < 2 ^ length xs"
  by (induction xs) auto

lemma bits_val_byte: "bits_val (byte_bits b) = unat b"
proof -
  have "bits_val (map (bit b) (rev [0..<n])) = unat (take_bit n b)" for n
  proof (induction n)
    case (Suc n)
    then show ?case
      by (simp add: unsigned_take_bit_eq take_bit_Suc_from_most bit_unsigned_iff)
  qed simp
  then show ?thesis using take_bit_length_eq [of b] by (simp add: byte_bits_def)
qed

lemma length_byte_bits [simp]: "length (byte_bits b) = 8"
  by (simp add: byte_bits_def)


lemma bits_val_split:
  assumes "length bs = n" "k \<le> n"
  shows "bits_val bs div 2 ^ (n - k) = bits_val (take k bs)" "bits_val bs mod 2 ^ (n - k) = bits_val (drop k bs)"
proof -
  have "bits_val bs = bits_val (take k bs) * 2 ^ (n - k) + bits_val (drop k bs)"
    using bits_val_append [of "take k bs" "drop k bs"] assms by simp
  moreover have "bits_val (drop k bs) < 2 ^ (n - k)" using bits_val_less [of "drop k bs"] assms by simp
  ultimately show "bits_val bs div 2 ^ (n - k) = bits_val (take k bs)" "bits_val bs mod 2 ^ (n - k) = bits_val (drop k bs)"
    by simp_all
qed

lemma unat_low_quintet: "unat (x AND 0x1f) = unat x mod 2 ^ 5" for x :: u32
proof -
  have "x AND 0x1f = take_bit 5 x" by (simp add: take_bit_eq_mask mask_eq_exp_minus_1)
  then show ?thesis by (simp add: take_bit_eq_mod unat_mod)
qed

lemma unat_shift_right: "unat (drop_bit n x) = unat x div 2 ^ n" for x :: u32
  unfolding unat_drop_bit_eq by (simp add: drop_bit_eq_div)

lemma unat_shift_left: "unat (push_bit n x) mod 2 ^ m = unat x * 2 ^ n mod 2 ^ m" if "m \<le> 32" for x :: u32
proof -
  have "unat (push_bit n x) = unat x * 2 ^ n mod 2 ^ 32"
    unfolding unsigned_push_bit_eq by (simp add: push_bit_eq_mult take_bit_eq_mod)
  then show ?thesis by (simp only:) (rule mod_mod_cancel [OF le_imp_power_dvd [OF that]])
qed

lemma quintet_step:
  fixes buffer :: u32
  assumes "unat buffer mod 2 ^ n = bits_val bs" "length bs = n" "5 \<le> n"
  shows "unat (drop_bit (n - 5) buffer AND 0x1f) = bits_val (take 5 bs)" "unat buffer mod 2 ^ (n - 5) = bits_val (drop 5 bs)"
proof -
  have "unat buffer div 2 ^ (n - 5) mod 2 ^ 5 = unat buffer mod 2 ^ n div 2 ^ (n - 5)"
  proof -
    obtain k where k: "n = k + 5" using assms(3) by (metis add.commute le_iff_add)
    have "unat buffer mod 2 ^ n = 2 ^ k * (unat buffer div 2 ^ k mod 2 ^ 5) + unat buffer mod 2 ^ k"
      unfolding k power_add by (rule mod_mult2_eq)
    then show ?thesis by (simp add: k)
  qed
  then show "unat (drop_bit (n - 5) buffer AND 0x1f) = bits_val (take 5 bs)"
    using bits_val_split(1) [OF assms(2,3)] assms(1) by (simp add: unat_low_quintet unat_shift_right)
  have "unat buffer mod 2 ^ (n - 5) = unat buffer mod 2 ^ n mod 2 ^ (n - 5)" by (simp add: mod_mod_cancel le_imp_power_dvd)
  then show "unat buffer mod 2 ^ (n - 5) = bits_val (drop 5 bs)" using bits_val_split(2) [OF assms(2,3)] assms(1) by simp
qed

lemma quintets_Cons: "5 \<le> length bs \<Longrightarrow> quintets (bs @ more) = bits_val (take 5 bs) # quintets (drop 5 bs @ more)"
  by (subst quintets.simps) auto

lemma emit_quintets_correct:
  assumes "unat buffer mod 2 ^ n = bits_val bs" "length bs = n"
  shows "\<exists>ds rest. emit_quintets buffer n out = (length rest, out @ map (nth ALPHABET) ds) \<and> length rest < 5 \<and>
    unat buffer mod 2 ^ length rest = bits_val rest \<and> (\<forall>more. quintets (bs @ more) = ds @ quintets (rest @ more))"
  using assms
proof (induction n arbitrary: bs out rule: less_induct)
  case (less n)
  show ?case
  proof (cases "5 \<le> n")
    case True
    note step = quintet_step [OF less.prems True]
    let ?d = "bits_val (take 5 bs)"
    obtain ds rest where "emit_quintets buffer (n - 5) (out @ [ALPHABET ! ?d]) = (length rest, (out @ [ALPHABET ! ?d]) @ map (nth ALPHABET) ds)"
        "length rest < 5" "unat buffer mod 2 ^ length rest = bits_val rest" "\<forall>more. quintets (drop 5 bs @ more) = ds @ quintets (rest @ more)"
      using less.IH [of "n - 5" "drop 5 bs" "out @ [ALPHABET ! ?d]"] True step(2) less.prems(2) by auto
    then show ?thesis
      using True step(1) quintets_Cons less.prems(2) by (intro exI [of _ "?d # ds"] exI [of _ rest]) (simp add: emit_quintets.simps [of buffer n])
  next
    case False
    then show ?thesis using less.prems by (intro exI [of _ "[]"] exI [of _ bs]) (simp add: emit_quintets.simps [of buffer n])
  qed
qed

lemma feed_byte:
  fixes buffer :: u32
  assumes "unat buffer mod 2 ^ n = bits_val bs" "length bs = n" "n < 5"
  shows "unat (push_bit 8 buffer OR ucast b) mod 2 ^ (n + 8) = bits_val (bs @ byte_bits b)"
proof -
  have "push_bit 8 buffer OR ucast b = push_bit 8 buffer + (ucast b :: u32)"
    by (rule disjunctive_add_eq_or [symmetric]) (auto simp: bit_eq_iff bit_and_iff bit_push_bit_iff bit_ucast_iff dest: bit_imp_le_length)
  moreover have "unat (ucast b :: u32) = unat b" by (rule unat_ucast_up) simp
  ultimately have "unat (push_bit 8 buffer OR ucast b) = (unat (push_bit 8 buffer) + unat b) mod 2 ^ 32"
    by (simp add: unat_word_ariths)
  then have "unat (push_bit 8 buffer OR ucast b) mod 2 ^ (n + 8) = (unat (push_bit 8 buffer) mod 2 ^ (n + 8) + unat b) mod 2 ^ (n + 8)"
    using mod_mod_cancel [OF le_imp_power_dvd [of "n + 8" 32 2], where a = "unat (push_bit 8 buffer) + unat b"] assms(3)
    by (simp only: mod_add_left_eq)
  also have "\<dots> = (unat buffer * 2 ^ 8 mod 2 ^ (n + 8) + unat b) mod 2 ^ (n + 8)"
    using assms(3) by (subst unat_shift_left) simp_all
  also have "unat buffer * 2 ^ 8 mod 2 ^ (n + 8) = bits_val bs * 2 ^ 8"
    by (simp add: power_add mult_mod_left flip: assms(1))
  also have "(bits_val bs * 2 ^ 8 + unat b) mod 2 ^ (n + 8) = bits_val bs * 2 ^ 8 + unat b"
  proof -
    have "bits_val bs * 2 ^ 8 + unat b < 2 ^ (n + 8)"
      using bits_val_less [of "bs @ byte_bits b"] assms(2) by (simp add: bits_val_append bits_val_byte)
    then show ?thesis by simp
  qed
  finally show ?thesis by (simp add: bits_val_append bits_val_byte)
qed

lemma last_quintet:
  fixes buffer :: u32
  assumes "unat buffer mod 2 ^ n = bits_val bs" "length bs = n" "0 < n" "n < 5"
  shows "unat (push_bit (5 - n) buffer AND 0x1f) = bits_val (bs @ replicate (5 - n) False)"
proof -
  have zero: "bits_val (replicate k False) = 0" for k by (induction k) simp_all
  have "unat buffer * 2 ^ (5 - n) mod 2 ^ (n + (5 - n)) = unat buffer mod 2 ^ n * 2 ^ (5 - n)"
    unfolding power_add by (simp add: mult_mod_left)
  then show ?thesis
    using assms unat_shift_left [of 5 "5 - n" buffer] by (simp add: unat_low_quintet bits_val_append zero)
qed

lemma base32_loop_correct:
  assumes "unat buffer mod 2 ^ n = bits_val bs" "length bs = n" "n < 5"
  shows "base32_loop input buffer n out = out @ map (nth ALPHABET) (quintets (bs @ concat (map byte_bits input)))"
  using assms
proof (induction input arbitrary: buffer n bs out)
  case Nil
  then show ?case using last_quintet [OF Nil(1,2)] by (cases "n = 0") (auto simp: quintets.simps [of bs] quintets.simps [of "[]"])
next
  case (Cons b input)
  let ?buffer = "push_bit 8 buffer OR ucast b :: u32"
  obtain ds rest where e: "emit_quintets ?buffer (n + 8) out = (length rest, out @ map (nth ALPHABET) ds)" "length rest < 5"
      "unat ?buffer mod 2 ^ length rest = bits_val rest" "\<And>more. quintets ((bs @ byte_bits b) @ more) = ds @ quintets (rest @ more)"
    using emit_quintets_correct [OF feed_byte [OF Cons.prems, of b], of out] Cons.prems(2) by auto
  show ?case
    using Cons.IH [OF e(3) refl e(2)] e(4) [of "concat (map byte_bits input)"] by (simp add: e(1))
qed


text \<open>Digits determine the bits they were made of.\<close>

lemma bits_val_inject: "length xs = length ys \<Longrightarrow> bits_val xs = bits_val ys \<Longrightarrow> xs = ys"
proof (induction xs ys rule: list_induct2)
  case (Cons x xs y ys)
  then show ?case using bits_val_less [of xs] bits_val_less [of ys] by (cases x; cases y) auto
qed simp

lemma quintets_inject: "length xs = length ys \<Longrightarrow> quintets xs = quintets ys \<Longrightarrow> xs = ys"
proof (induction xs arbitrary: ys rule: quintets.induct)
  case (1 xs)
  show ?case
  proof (cases "length xs < 5")
    case True
    then have "bits_val (xs @ replicate (5 - length xs) False) = bits_val (ys @ replicate (5 - length xs) False) \<or> xs = []"
      using 1(2,3) by (auto simp: quintets.simps [of xs] quintets.simps [of ys] split: if_splits)
    then show ?thesis using 1(2) bits_val_inject [of "xs @ replicate (5 - length xs) False" "ys @ replicate (5 - length xs) False"] by auto
  next
    case False
    then have "bits_val (take 5 xs) = bits_val (take 5 ys)" "quintets (drop 5 xs) = quintets (drop 5 ys)" "xs \<noteq> []"
      using 1(2,3) by (auto simp: quintets.simps [of xs] quintets.simps [of ys] split: if_splits)
    then have "take 5 xs = take 5 ys" "drop 5 xs = drop 5 ys"
      using 1(1) [of "drop 5 ys"] 1(2) False bits_val_inject [of "take 5 xs" "take 5 ys"] by simp_all
    then show ?thesis by (metis append_take_drop_id)
  qed
qed

lemma quintets_range: "\<forall>d \<in> set (quintets bs). d < 32"
proof (induction bs rule: quintets.induct)
  case (1 bs)
  then show ?case
    using bits_val_less [of "take 5 bs"] bits_val_less [of "bs @ replicate (5 - length bs) False"]
    by (subst quintets.simps) auto
qed

lemma base32_spec_inject:
  assumes "length xs = length ys" "base32_spec xs = base32_spec ys"
  shows "xs = ys"
proof -
  have len: "length (concat (map byte_bits zs)) = 8 * length zs" for zs by (induction zs) simp_all
  have "distinct ALPHABET" "length ALPHABET = 32" by (simp_all add: ALPHABET_def)
  then have inj: "inj_on (nth ALPHABET) {..<32}" by (simp add: inj_on_def nth_eq_iff_index_eq)
  have "set (quintets (concat (map byte_bits xs))) \<union> set (quintets (concat (map byte_bits ys))) \<subseteq> {..<32}"
    using quintets_range by blast
  then have "quintets (concat (map byte_bits xs)) = quintets (concat (map byte_bits ys))"
    by (rule map_inj_on [OF assms(2) [unfolded base32_spec_def] inj_on_subset [OF inj]])
  then have "concat (map byte_bits xs) = concat (map byte_bits ys)"
    by (rule quintets_inject [rotated]) (simp add: len assms(1))
  with assms(1) show ?thesis
  proof (induction xs ys rule: list_induct2)
    case (Cons x xs y ys)
    then have "byte_bits x = byte_bits y" "concat (map byte_bits xs) = concat (map byte_bits ys)" by (simp_all add: append_eq_append_conv)
    then show ?case using Cons.IH bits_val_byte [of x] bits_val_byte [of y] by (simp add: word_unat_eq_iff)
  qed simp
qed

text \<open>
  C30. The identifier of a reference. The streaming encoder with its 32-bit buffer computes base 32 as the standard
  defines it, for inputs of any length; the identifier of a 32-byte reference is the letter b and the base 32 form of
  version, codec, hash code, length and reference, and no two references share one.
\<close>

theorem reference_to_cid_exact:
  "encode_base32_lower input out = out @ base32_spec input \<and>
   (length reference = 32 \<longrightarrow> reference_to_cid reference = CHR ''b'' # base32_spec ([1, 0xfa, 0x01, 0x1b, 0x20] @ reference) \<and>
     (\<forall>other. length other = 32 \<longrightarrow> reference_to_cid other = reference_to_cid reference \<longrightarrow> other = reference))"
proof -
  have enc: "encode_base32_lower xs out = out @ base32_spec xs" for xs out
    using base32_loop_correct [of 0 0 "[]" xs out] by (simp add: encode_base32_lower_def base32_spec_def)
  have one: "\<not> (128 :: u64) \<le> 1" by (simp add: word_le_nat_alt)
  have "push_varint (push_varint (push_varint (push_varint [] CID_V1) SWARM_MANIFEST_CODEC) KECCAK_256_MULTIHASH) 32 =
      [1, 0xfa, 0x01, 0x1b, 0x20]"
    by (simp add: one push_varint.simps CID_V1_def SWARM_MANIFEST_CODEC_def KECCAK_256_MULTIHASH_def)
  then have cid: "reference_to_cid r = CHR ''b'' # base32_spec ([1, 0xfa, 0x01, 0x1b, 0x20] @ r)" if "length r = 32" for r
    using that by (simp add: reference_to_cid_def enc Let_def)
  have "other = reference" if "length reference = 32" "length other = 32" "reference_to_cid other = reference_to_cid reference" for other
    using base32_spec_inject [of "[1, 0xfa, 0x01, 0x1b, 0x20] @ other" "[1, 0xfa, 0x01, 0x1b, 0x20] @ reference"] that cid by simp
  then show ?thesis using enc cid by blast
qed

theorem reference_to_cid_exact_witness:
  "reference_to_cid (replicate 32 0) = CHR ''b'' # base32_spec ([1, 0xfa, 0x01, 0x1b, 0x20] @ replicate 32 0) \<and>
    reference_to_cid (replicate 32 1) \<noteq> reference_to_cid (replicate 32 0)"
proof -
  have len: "length (replicate 32 (0 :: byte)) = 32" "length (replicate 32 (1 :: byte)) = 32" by simp_all
  note exact = reference_to_cid_exact [of "[]" "[]", THEN conjunct2, THEN mp, OF len(1)]
  have "reference_to_cid (replicate 32 1) \<noteq> reference_to_cid (replicate 32 0)"
    using exact [THEN conjunct2, THEN spec, THEN mp, OF len(2)] by (auto simp: replicate_eq_replicate)
  then show ?thesis using exact by blast
qed

end
