(* ===== verification/Mantaray.thy ===== *)
theory Mantaray
  imports Feed
begin

text \<open>
  Manifests, \<^verbatim>\<open>src/manifest.rs\<close>: decoding a node of the trie from a chunk, and the feed and website metadata of a node.
  The JSON parser of the metadata is a parameter. A panic of the code is the value \<^term>\<open>None\<close>. The lemmas show when the
  decoder panics and what every node it returns looks like.
\<close>

unbundle bit_operations_syntax

section \<open>Nodes\<close>

definition OBFUSCATION_KEY_SIZE :: usize where "OBFUSCATION_KEY_SIZE = 32"
definition VERSION_HASH_SIZE :: usize where "VERSION_HASH_SIZE = 31"
definition NODE_HEADER_SIZE :: usize where "NODE_HEADER_SIZE = OBFUSCATION_KEY_SIZE + VERSION_HASH_SIZE + 1"
definition FORK_PRE_REF_SIZE :: usize where "FORK_PRE_REF_SIZE = 32"
definition FORK_REF_SIZE :: usize where "FORK_REF_SIZE = 32"
definition INDEX_SIZE :: usize where "INDEX_SIZE = 32"

definition VERSION_HASH_V01 :: bytes where
  "VERSION_HASH_V01 =
     [0x02, 0x51, 0x84, 0x78, 0x9d, 0x63, 0x63, 0x57, 0x66, 0xd7, 0x8c, 0x41, 0x90, 0x01, 0x96, 0xb5,
      0x7d, 0x74, 0x00, 0x87, 0x5e, 0xbe, 0x4d, 0x9b, 0x5d, 0x1e, 0x76, 0xbd, 0x96, 0x52, 0xa9]"

definition VERSION_HASH_V02 :: bytes where
  "VERSION_HASH_V02 =
     [0x57, 0x68, 0xb3, 0xb6, 0xa7, 0xdb, 0x56, 0xd2, 0x1d, 0x1a, 0xbf, 0xf4, 0x0d, 0x41, 0xce, 0xbf,
      0xc8, 0x34, 0x48, 0xfe, 0xd8, 0xd7, 0xe9, 0xb0, 0x6e, 0xc0, 0xd3, 0xb0, 0x73, 0xf2, 0x8f]"

definition NT_METADATA :: byte where "NT_METADATA = 16"

datatype manifest_error =
    TooShort usize usize
  | InvalidVersion
  | UnsupportedRefSize byte
  | InvalidPrefixLength byte
  | PathNotFound string
  | Metadata string

type_synonym metadata = "(string, string) hashmap"

record fork =
  fk_node_type :: byte
  fk_prefix :: bytes
  fk_reference :: bytes
  fk_metadata :: metadata

text \<open>The forks are listed in the order of their keys.\<close>

record node =
  nd_entry :: "bytes option"
  nd_forks :: "(byte \<times> fork) list"

definition deobfuscate :: "bytes \<Rightarrow> bytes" where
  "deobfuscate payload =
     take OBFUSCATION_KEY_SIZE payload @
     map (\<lambda>i. payload ! i XOR payload ! ((i - OBFUSCATION_KEY_SIZE) mod OBFUSCATION_KEY_SIZE)) [OBFUSCATION_KEY_SIZE..<length payload]"

definition trim_padding :: "bytes \<Rightarrow> bytes" where
  "trim_padding b = rev (dropWhile (\<lambda>x. x = 0x0a) (rev b))"

definition slice :: "bytes \<Rightarrow> usize \<Rightarrow> usize \<Rightarrow> bytes" where
  "slice data i n = take n (drop i data)"

text \<open>The metadata of a fork: its length, its text without the padding, and where it ends.\<close>

definition read_metadata :: "(bytes \<Rightarrow> metadata option) \<Rightarrow> bytes \<Rightarrow> usize \<Rightarrow> manifest_error + metadata \<times> usize" where
  "read_metadata json data offset =
     (if length data < offset + 2 then Inl (TooShort (offset + 2) (length data))
      else
        let mlen = be_nat (slice data offset 2); offset = offset + 2 in
        if length data < offset + mlen then Inl (TooShort (offset + mlen) (length data))
        else
          case json (trim_padding (slice data offset mlen)) of
            None \<Rightarrow> Inl (Metadata ''json'')
          | Some m \<Rightarrow> Inr (m, offset + mlen))"

definition read_fork :: "(bytes \<Rightarrow> metadata option) \<Rightarrow> bytes \<Rightarrow> usize \<Rightarrow> manifest_error + fork \<times> usize" where
  "read_fork json data offset =
     (if length data < offset + FORK_PRE_REF_SIZE + FORK_REF_SIZE
      then Inl (TooShort (offset + FORK_PRE_REF_SIZE + FORK_REF_SIZE) (length data))
      else
        let node_type = data ! offset;
            prefix_len = data ! (offset + 1)
        in if prefix_len = 0 \<or> prefix_len > 30 then Inl (InvalidPrefixLength prefix_len)
           else
             let prefix = slice data (offset + 2) (unat prefix_len);
                 reference = slice data (offset + FORK_PRE_REF_SIZE) FORK_REF_SIZE;
                 offset = offset + FORK_PRE_REF_SIZE + FORK_REF_SIZE
             in case (if node_type AND NT_METADATA \<noteq> 0 then read_metadata json data offset else Inr ([], offset)) of
                  Inl e \<Rightarrow> Inl e
                | Inr (m, offset) \<Rightarrow>
                    Inr (\<lparr>fk_node_type = node_type, fk_prefix = prefix, fk_reference = reference, fk_metadata = m\<rparr>, offset))"

definition in_index :: "bytes \<Rightarrow> nat \<Rightarrow> bool" where
  "in_index bitfield b = (bitfield ! (b div 8) AND push_bit (b mod 8) 1 \<noteq> 0)"

fun read_forks :: "(bytes \<Rightarrow> metadata option) \<Rightarrow> bytes \<Rightarrow> bytes \<Rightarrow> nat list \<Rightarrow> usize \<Rightarrow> manifest_error + (byte \<times> fork) list" where
  "read_forks json data bitfield [] offset = Inr []"
| "read_forks json data bitfield (b # bs) offset =
     (if \<not> in_index bitfield b then read_forks json data bitfield bs offset
      else
        case read_fork json data offset of
          Inl e \<Rightarrow> Inl e
        | Inr (f, offset') \<Rightarrow>
            (case read_forks json data bitfield bs offset' of
               Inl e \<Rightarrow> Inl e
             | Inr fs \<Rightarrow> Inr ((of_nat b, f) # fs)))"

text \<open>The slice of the entry is taken before the length is checked again, so a short payload panics there.\<close>

definition decode_node :: "(bytes \<Rightarrow> metadata option) \<Rightarrow> bytes \<Rightarrow> (manifest_error + node) option" where
  "decode_node json payload =
     (if length payload < NODE_HEADER_SIZE then Some (Inl (TooShort NODE_HEADER_SIZE (length payload)))
      else
        let data = deobfuscate payload;
            version_hash = slice data OBFUSCATION_KEY_SIZE VERSION_HASH_SIZE;
            ref_size = data ! (OBFUSCATION_KEY_SIZE + VERSION_HASH_SIZE)
        in if version_hash \<noteq> VERSION_HASH_V01 \<and> version_hash \<noteq> VERSION_HASH_V02 then Some (Inl InvalidVersion)
           else if ref_size \<noteq> 0 \<and> unat ref_size \<noteq> FORK_REF_SIZE then Some (Inl (UnsupportedRefSize ref_size))
           else if ref_size > 0 \<and> length data < NODE_HEADER_SIZE + unat ref_size then None
           else
             let entry_bytes = slice data NODE_HEADER_SIZE (unat ref_size);
                 entry = (if ref_size > 0 \<and> \<not> list_all (\<lambda>b. b = 0) entry_bytes then Some (take 32 entry_bytes) else None);
                 offset = NODE_HEADER_SIZE + unat ref_size
             in if length data < offset + INDEX_SIZE then Some (Inl (TooShort (offset + INDEX_SIZE) (length data)))
                else
                  Some (case read_forks json data (slice data offset INDEX_SIZE) [0..<256] (offset + INDEX_SIZE) of
                          Inl e \<Rightarrow> Inl e
                        | Inr fs \<Rightarrow> Inr \<lparr>nd_entry = entry, nd_forks = fs\<rparr>))"

section \<open>Metadata of a node\<close>

definition ENTRY_METADATA_CONTENT_TYPE_KEY :: string where "ENTRY_METADATA_CONTENT_TYPE_KEY = ''Content-Type''"
definition WEBSITE_INDEX_DOCUMENT_SUFFIX_KEY :: string where "WEBSITE_INDEX_DOCUMENT_SUFFIX_KEY = ''website-index-document''"

fun feed_meta_of :: "fork list \<Rightarrow> (string \<times> string \<times> string) option" where
  "feed_meta_of [] = None"
| "feed_meta_of (f # fs) =
     (case (hm_get (fk_metadata f) FEED_OWNER_KEY, hm_get (fk_metadata f) FEED_TOPIC_KEY) of
        (Some owner, Some topic) \<Rightarrow>
          Some (owner, topic, case hm_get (fk_metadata f) FEED_TYPE_KEY of None \<Rightarrow> ''sequence'' | Some ty \<Rightarrow> ty)
      | _ \<Rightarrow> feed_meta_of fs)"

definition extract_feed_meta :: "node \<Rightarrow> (string \<times> string \<times> string) option" where
  "extract_feed_meta n = feed_meta_of (map snd (nd_forks n))"

definition index_document_of :: "fork \<Rightarrow> string option" where
  "index_document_of f =
     (case hm_get (fk_metadata f) WEBSITE_INDEX_DOCUMENT_SUFFIX_KEY of None \<Rightarrow> None | Some idx \<Rightarrow> if idx = [] then None else Some idx)"

definition extract_index_document :: "node \<Rightarrow> string option" where
  "extract_index_document n =
     (case Option.bind (map_of (nd_forks n) 0x2f) index_document_of of
        Some idx \<Rightarrow> Some idx
      | None \<Rightarrow>
          (case List.find (\<lambda>f. index_document_of f \<noteq> None) (map snd (nd_forks n)) of
             None \<Rightarrow> None
           | Some f \<Rightarrow> index_document_of f))"

section \<open>What a decoded node looks like\<close>

lemmas node_consts = OBFUSCATION_KEY_SIZE_def VERSION_HASH_SIZE_def NODE_HEADER_SIZE_def FORK_PRE_REF_SIZE_def FORK_REF_SIZE_def INDEX_SIZE_def

definition fork_ok :: "fork \<Rightarrow> bool" where
  "fork_ok f =
     (1 \<le> length (fk_prefix f) \<and> length (fk_prefix f) \<le> 30 \<and> length (fk_reference f) = 32 \<and>
      (fk_node_type f AND NT_METADATA = 0 \<longrightarrow> fk_metadata f = []))"

definition node_ok :: "node \<Rightarrow> bool" where
  "node_ok n =
     ((\<forall>e. nd_entry n = Some e \<longrightarrow> length e = 32 \<and> e \<noteq> replicate 32 0) \<and>
      sorted_wrt (<) (map fst (nd_forks n)) \<and> (\<forall>f \<in> set (map snd (nd_forks n)). fork_ok f))"

lemma length_deobfuscate [simp]: "length (deobfuscate payload) = length payload"
  by (simp add: deobfuscate_def min_def)

lemma length_slice: "i + n \<le> length data \<Longrightarrow> length (slice data i n) = n"
  by (simp add: slice_def)

lemma read_fork_ok:
  assumes "read_fork json data offset = Inr (f, offset')"
  shows "fork_ok f"
proof -
  have len: "offset + 64 \<le> length data" and p: "data ! (offset + 1) \<noteq> 0" "data ! (offset + 1) \<le> 30"
    using assms by (auto simp: read_fork_def Let_def node_consts split: if_splits)
  have n: "1 \<le> unat (data ! (offset + 1))" "unat (data ! (offset + 1)) \<le> 30"
    using p by (simp_all add: word_le_nat_alt unat_gt_0 Suc_le_eq)
  have "fk_prefix f = slice data (offset + 2) (unat (data ! (offset + 1)))" "fk_reference f = slice data (offset + 32) 32"
      "fk_node_type f = data ! offset" "fk_node_type f AND NT_METADATA = 0 \<Longrightarrow> fk_metadata f = []"
    using assms by (auto simp: read_fork_def Let_def node_consts split: if_splits sum.splits)
  then show ?thesis using len n by (simp add: fork_ok_def length_slice)
qed

lemma read_forks_Cons:
  assumes "read_forks json data bitfield (b # bs) offset = Inr fs" "in_index bitfield b"
  obtains f offset' fs' where "read_fork json data offset = Inr (f, offset')"
    "read_forks json data bitfield bs offset' = Inr fs'" "fs = (of_nat b, f) # fs'"
  using assms by (simp split: sum.splits prod.splits)

definition forks_ok :: "nat list \<Rightarrow> (byte \<times> fork) list \<Rightarrow> bool" where
  "forks_ok bs fs =
     (sorted_wrt (<) (map fst fs) \<and> (\<forall>f \<in> set (map snd fs). fork_ok f) \<and> set (map fst fs) \<subseteq> of_nat ` set bs)"

lemma of_nat_byte_less: "a < b \<Longrightarrow> b < 256 \<Longrightarrow> (of_nat a :: byte) < of_nat b"
  by (simp add: word_less_nat_alt unat_of_nat)

lemma forks_ok_Cons:
  assumes "forks_ok bs fs" "fork_ok f" "\<forall>x \<in> set bs. b < x \<and> x < 256"
  shows "forks_ok (b # bs) ((of_nat b, f) # fs)"
proof -
  have "(of_nat b :: byte) < k" if k: "k \<in> set (map fst fs)" for k
  proof -
    obtain x where "x \<in> set bs" "k = of_nat x" using k assms(1) unfolding forks_ok_def by blast
    then show ?thesis using assms(3) of_nat_byte_less by blast
  qed
  then show ?thesis using assms(1,2) unfolding forks_ok_def by (simp add: subset_insertI2)
qed

lemma read_forks_ok:
  assumes "read_forks json data bitfield bs offset = Inr fs" "sorted_wrt (<) bs" "\<forall>b \<in> set bs. b < 256"
  shows "forks_ok bs fs"
  using assms
proof (induction bs arbitrary: offset fs)
  case Nil
  then show ?case by (simp add: forks_ok_def)
next
  case (Cons b bs)
  have bs: "sorted_wrt (<) bs" "\<forall>x \<in> set bs. x < 256" "\<forall>x \<in> set bs. b < x \<and> x < 256" using Cons.prems(2,3) by simp_all
  show ?case
  proof (cases "in_index bitfield b")
    case False
    then have "forks_ok bs fs" using Cons.IH [OF _ bs(1,2)] Cons.prems(1) by simp
    then show ?thesis unfolding forks_ok_def by (simp add: subset_insertI2)
  next
    case True
    then obtain f offset' fs' where f: "read_fork json data offset = Inr (f, offset')"
      and fs': "read_forks json data bitfield bs offset' = Inr fs'" "fs = (of_nat b, f) # fs'"
      using read_forks_Cons [OF Cons.prems(1)] by blast
    show ?thesis unfolding fs'(2)
      by (rule forks_ok_Cons [OF Cons.IH [OF fs'(1) bs(1,2)] read_fork_ok [OF f] bs(3)])
  qed
qed

lemma all_forks_ok:
  assumes "read_forks json data bitfield [0..<256] offset = Inr fs"
  shows "sorted_wrt (<) (map fst fs) \<and> (\<forall>f \<in> set (map snd fs). fork_ok f)"
proof -
  have "forks_ok [0..<256] fs" by (rule read_forks_ok [OF assms]) (simp_all add: sorted_wrt_upt del: upt_rec_numeral)
  then show ?thesis unfolding forks_ok_def by blast
qed

lemma guards_passed:
  assumes "(if a then Some (Inl w) else if b then Some (Inl x) else if c then Some (Inl y) else if d then None
      else if e then Some (Inl z) else Some (case r of Inl v \<Rightarrow> Inl v | Inr fs \<Rightarrow> Inr (g fs))) = Some (Inr n)"
  shows "\<not> c \<and> \<not> d \<and> \<not> e \<and> (\<exists>fs. r = Inr fs \<and> n = g fs)"
  using assms by (simp split: if_splits sum.splits)

lemma guarded_Some: "(if p \<and> \<not> q then Some x else None) = Some e \<Longrightarrow> e = x \<and> p \<and> \<not> q"
  by (simp split: if_splits)

lemma nonzero_size: "(0 :: byte) < r \<Longrightarrow> r = 0 \<or> unat r = 32 \<Longrightarrow> unat r = 32"
  by auto

lemma size_fits: "h + k + i \<le> (l :: nat) \<Longrightarrow> k = m \<Longrightarrow> h + m \<le> l"
  by simp

lemma zeros_all: "list_all (\<lambda>b. b = 0) (replicate k (0 :: byte))"
  by (simp add: list_all_iff)

lemma decode_node_Inr:
  assumes "decode_node json payload = Some (Inr n)"
  defines "data \<equiv> deobfuscate payload"
  defines "r \<equiv> data ! (OBFUSCATION_KEY_SIZE + VERSION_HASH_SIZE)"
  defines "entry \<equiv> slice data NODE_HEADER_SIZE (unat r)"
  obtains fs bitfield offset where "r = 0 \<or> unat r = 32" "NODE_HEADER_SIZE + unat r + INDEX_SIZE \<le> length data"
    "read_forks json data bitfield [0..<256] offset = Inr fs"
    "n = \<lparr>nd_entry = (if r > 0 \<and> \<not> list_all (\<lambda>b. b = 0) entry then Some (take 32 entry) else None), nd_forks = fs\<rparr>"
  using assms(1) [unfolded decode_node_def Let_def, THEN guards_passed] that
  unfolding data_def r_def entry_def FORK_REF_SIZE_def not_less by blast

text \<open>
  C28. Every node the decoder accepts is well formed: an entry is a reference that is not all zeros; the forks are in
  strictly ascending order of their keys, so no key occurs twice; a fork has a prefix of one to thirty bytes, a reference
  of thirty-two bytes, and metadata only if its type says so.
\<close>

theorem decoded_node_typed:
  assumes "decode_node json payload = Some (Inr n)"
  shows "node_ok n"
proof -
  let ?data = "deobfuscate payload"
  let ?r = "?data ! (OBFUSCATION_KEY_SIZE + VERSION_HASH_SIZE)"
  let ?entry = "slice ?data NODE_HEADER_SIZE (unat ?r)"
  obtain fs bitfield offset where r: "?r = 0 \<or> unat ?r = 32" and len: "NODE_HEADER_SIZE + unat ?r + INDEX_SIZE \<le> length ?data"
    and fs: "read_forks json ?data bitfield [0..<256] offset = Inr fs"
    and n: "n = \<lparr>nd_entry = (if ?r > 0 \<and> \<not> list_all (\<lambda>b. b = 0) ?entry then Some (take 32 ?entry) else None), nd_forks = fs\<rparr>"
    by (rule decode_node_Inr [OF assms])
  have "length e = 32 \<and> e \<noteq> replicate 32 0" if "nd_entry n = Some e" for e
  proof -
    have e: "e = take 32 ?entry" "?r > 0" "\<not> list_all (\<lambda>b. b = 0) ?entry"
      using guarded_Some [OF that [unfolded n node.select_convs]] by blast+
    have u: "unat ?r = 32" by (rule nonzero_size [OF e(2) r])
    have l: "length ?entry = 32" unfolding u by (rule length_slice) (rule size_fits [OF len u])
    then have "e = ?entry" using e(1) by simp
    moreover have "?entry \<noteq> replicate 32 0" using e(3) zeros_all by metis
    ultimately show ?thesis using l by simp
  qed
  moreover have "nd_forks n = fs" unfolding n by (rule node.select_convs)
  ultimately show ?thesis using all_forks_ok [OF fs] unfolding node_ok_def by blast
qed

text \<open>A node with one fork, to the path \<^verbatim>\<open>ab\<close>, obfuscated with the key that repeats the byte seven.\<close>

definition demo_node :: bytes where
  "demo_node =
     replicate 32 7 @
     map (\<lambda>b. b XOR 7)
       (VERSION_HASH_V02 @ [0] @ replicate 12 0 @ [2] @ replicate 19 0 @
        [2, 2, 0x61, 0x62] @ replicate 28 0 @ replicate 32 9)"

definition demo_decoded :: node where
  "demo_decoded =
     \<lparr>nd_entry = None,
      nd_forks = [(0x61, \<lparr>fk_node_type = 2, fk_prefix = [0x61, 0x62], fk_reference = replicate 32 9, fk_metadata = []\<rparr>)]\<rparr>"

lemma demo_node_decodes: "decode_node (\<lambda>_. None) demo_node = Some (Inr demo_decoded)"
  by code_simp

theorem decoded_node_typed_witness:
  "decode_node (\<lambda>_. None) demo_node = Some (Inr demo_decoded) \<and> node_ok demo_decoded"
  using demo_node_decodes decoded_node_typed [OF demo_node_decodes] by (rule conjI)


end
