(* ===== verification/Spec2Isabelle.thy ===== *)
theory Spec2Isabelle
  imports Prelude Interfaces Ledger Meter Caches Limiters Signer Challenge Swap Pushframe Metered Stamp Relay RelayRun Book Demo Pushsched
    Galois Matrix ReedSolomon Erasure Joiner ChunkTree Replicas Encoder
    Cheques Payer Channel Feed Cid Mantaray
begin

text \<open>
  Verification of hoverfly, a light client for the Swarm storage network, and of the metered push relay it uploads
  through.

  \<^bold>\<open>The program.\<close> A client splits data into chunks, adds erasure-coding parities and replicas of the root, stamps the
  chunks and hands them to relays (lanes) over HTTP. A relay checks the stamps, pushes the chunks into the network and
  bills the bytes to the account of the batch owner, who pays with cumulative cheques. Reading joins the chunk tree
  again, from parities or replicas where chunks are lost. File names below are those under \<^verbatim>\<open>src/src/\<close>.

  \<^bold>\<open>Shared theories.\<close>
  \<^item> \<^verbatim>\<open>Prelude\<close>: machine types (\<^verbatim>\<open>u64\<close> and \<^verbatim>\<open>u128\<close> are words that wrap, \<^verbatim>\<open>usize\<close> is a natural number), saturating and checked
    arithmetic, hash maps as association lists (\<^verbatim>\<open>hm_get\<close>, \<^verbatim>\<open>hm_insert\<close>, \<^verbatim>\<open>hm_remove\<close>), integers as bytes, decimal numbers.
  \<^item> \<^verbatim>\<open>Interfaces\<close>: the contracts as locales: bounded caches, caches with a time to live, updates that can be undone, and
    prefix codecs. Each is interpreted in the theory that provides the operations.

  \<^bold>\<open>The relay.\<close>
  \<^item> \<^verbatim>\<open>Ledger\<close> (\<^verbatim>\<open>ledger.rs\<close>): accounts with debt, reservations, bindings to chequebooks and the best cheque of each; the
    file format and the write-then-rename of \<^verbatim>\<open>persist\<close> as a sequence of file states. Lemmas: conservation of debt,
    cheques are never credited twice, also over a restart, and no intermediate file state loses a document.
  \<^item> \<^verbatim>\<open>Meter\<close> (\<^verbatim>\<open>meter.rs\<close>): prices, the settlement parameters and their validation, and the tally of requests. Lemmas: a
    debt at the credit line can always be cleared by one acceptable cheque; totals survive eviction.
  \<^item> \<^verbatim>\<open>Caches\<close>, \<^verbatim>\<open>Limiters\<close> (\<^verbatim>\<open>metered.rs\<close>, \<^verbatim>\<open>pusher.rs\<close>, \<^verbatim>\<open>cache.rs\<close>, \<^verbatim>\<open>batch.rs\<close>, \<^verbatim>\<open>ratelimit.rs\<close>, \<^verbatim>\<open>inbound_limit.rs\<close>): bounded caches and
    the two rate limiters, with bounds on what they admit in any window. Floating-point numbers are reals with a
    rounding function as a parameter.
  \<^item> \<^verbatim>\<open>Signer\<close>, \<^verbatim>\<open>Challenge\<close>, \<^verbatim>\<open>Swap\<close>, \<^verbatim>\<open>Stamp\<close>, \<^verbatim>\<open>Pushframe\<close> (the files of the same names): signature checks, admission
    challenges, cheque messages, stamps and the framing of a request body; round trips and injectivity of what is
    signed. Elliptic curves, Keccak and MACs are parameters.
  \<^item> \<^verbatim>\<open>Metered\<close> (\<^verbatim>\<open>metered.rs\<close>) and \<^verbatim>\<open>Relay\<close> (\<^verbatim>\<open>pusher.rs\<close>): the endpoints: challenge, admission, the push handler with its guard
    that commits or releases the reservation, and payment.
  \<^item> \<^verbatim>\<open>RelayRun\<close>: the relay as a step relation over any interleaving of requests, payments, failed writes, crashes and
    restarts. \<^verbatim>\<open>Book\<close>: the abstract account book, and the simulation that a run of the relay in hard mode is a run of the
    book. \<^verbatim>\<open>Demo\<close>: a concrete run, which the witnesses use.

  \<^bold>\<open>The client.\<close>
  \<^item> \<^verbatim>\<open>Pushsched\<close> (\<^verbatim>\<open>pushsched.rs\<close>): the scheduler of chunks over lanes, with time as an argument. Lemmas over all event
    sequences of the driver: success means every chunk was acknowledged, work left is never stuck, limits are kept.
  \<^item> \<^verbatim>\<open>Cheques\<close> (\<^verbatim>\<open>cheques.rs\<close>): the amounts promised to each payee, the balance gate and the file. Lemmas: what is saved is loaded
    again, and a failed save keeps the old file.
  \<^item> \<^verbatim>\<open>Payer\<close> (\<^verbatim>\<open>payer.rs\<close>): verification of a quote, the running account, the sizing of requests and the settlement of a lane. What
    other lanes do to the shared cheque store is a function of the environment. Lemmas: what a verified quote says, the
    size of a request is exact, the recorded promises stay within the balance.
  \<^item> \<^verbatim>\<open>Channel\<close> (\<^verbatim>\<open>drive_pushers\<close> of \<^verbatim>\<open>client.rs\<close>): the account of the client and the ledger of the relay as one step relation, with
    requests in flight. Lemmas over all runs: both counts agree up to one kibibyte per answer with duplicates, and a
    settlement ends in agreement.

  \<^bold>\<open>Erasure coding.\<close>
  \<^item> \<^verbatim>\<open>Galois\<close>, \<^verbatim>\<open>Matrix\<close>, \<^verbatim>\<open>ReedSolomon\<close> (\<^verbatim>\<open>erasure/reedsolomon.rs\<close>): the tables of the field with 256 elements, which are proved to be
    polynomial arithmetic, the Gauss-Jordan inverse, and the codec: any sufficient set of shards gives back the data.
  \<^item> \<^verbatim>\<open>Erasure\<close> (\<^verbatim>\<open>erasure/mod.rs\<close>): levels, their tables, the level in the span, the counts of references of a node.
  \<^item> \<^verbatim>\<open>Joiner\<close> (\<^verbatim>\<open>erasure/joiner.rs\<close>): the windowed fetch loops, where the order of completion is a parameter, and the
    recursive join. \<^verbatim>\<open>ChunkTree\<close>: what an erasure-coded tree is, and that the joiner returns exactly its data. The recursion
    of the joiner has fuel; 8 is the height the trie of the splitter can have.
  \<^item> \<^verbatim>\<open>Replicas\<close> (\<^verbatim>\<open>erasure/replicas.rs\<close>): the search for dispersed addresses and the recovery of a root. The search tries
    at most the first 255 values of one byte, as the code does.
  \<^item> \<^verbatim>\<open>Encoder\<close> (\<^verbatim>\<open>erasure/encoder.rs\<close>): the streaming splitter with its levels, redundancy buffers and carried-over chunks, simulated
    by a machine on forests of trees. The round trip with the joiner is the property that spans the five theories.

  \<^bold>\<open>Reading.\<close>
  \<^item> \<^verbatim>\<open>Feed\<close> (\<^verbatim>\<open>feed.rs\<close>): the concurrent search for the newest update, with the order of the answers as a parameter. Its two
    loops are proved to end; the search returns the newest update.
  \<^item> \<^verbatim>\<open>Mantaray\<close> (\<^verbatim>\<open>manifest.rs\<close>): the decoder of manifest nodes: the shape of what it returns, and when it panics.
  \<^item> \<^verbatim>\<open>Cid\<close> (\<^verbatim>\<open>cid.rs\<close>): identifiers of references; the streaming base 32 is the one of the standard.

  \<^bold>\<open>Third-party code\<close> is a parameter: hashes, signatures, the BMT hash, JSON and serde, HTTP answers, the chain, the
  clock. What is relied on is a named hypothesis (\<^verbatim>\<open>serde_ok\<close>, \<^verbatim>\<open>chunk_lib_ok\<close>, \<^verbatim>\<open>hash_ok\<close>, \<^verbatim>\<open>honest\<close> and others), shown
  satisfiable by the witnesses.

  \<^bold>\<open>Not modelled.\<close>
  \<^item> Network and process code: \<^verbatim>\<open>transport.rs\<close>, \<^verbatim>\<open>daemon.rs\<close>, \<^verbatim>\<open>inbound.rs\<close>, \<^verbatim>\<open>protocols/\<close> but for \<^verbatim>\<open>swap.rs\<close>, \<^verbatim>\<open>proto/\<close>, \<^verbatim>\<open>wsws/\<close>, \<^verbatim>\<open>doh.rs\<close>, \<^verbatim>\<open>dnsaddr.rs\<close>,
    and the tasks of \<^verbatim>\<open>client.rs\<close>: input and output around the parts above.
  \<^item> Chain and bridge calls: \<^verbatim>\<open>bridge.rs\<close> and \<^verbatim>\<open>batch.rs\<close> but for its cache.
  \<^item> Front ends: \<^verbatim>\<open>bin/\<close>, \<^verbatim>\<open>wasm.rs\<close>, \<^verbatim>\<open>idb_chunk_store.rs\<close>, \<^verbatim>\<open>mime.rs\<close>, \<^verbatim>\<open>lib.rs\<close>.
  \<^item> Left for later, though it could be modelled: the peer store (\<^verbatim>\<open>peers.rs\<close>), the message framing, and the walks over a
    manifest in \<^verbatim>\<open>client.rs\<close>. Building manifests is calls into a third-party crate.
\<close>

section \<open>Runs of the metered relay\<close>

text \<open>
  C1. A cheque is worth its face value once. In every run of the relay from an empty disk, in soft or
  hard mode, through failed writes, crashes inside a write and restarts: a later credit from the
  same chequebook is for the same account and a strictly higher cumulative amount, and all credits
  of a chequebook up to a cheque sum to no more than that cheque's cumulative amount.
\<close>

theorem relay_cheques_once:
  assumes "serde_ok (env_serde env)" "with_extension_tmp p \<noteq> p" "hm_get fs p = None"
    and "relay_run env c p line (Down fs) tr st"
  shows "(\<forall>i j a cb cum d a' cum' d'. i < j \<longrightarrow> j < length tr \<longrightarrow> tr ! i = (a, cb, cum, d) \<longrightarrow> tr ! j = (a', cb, cum', d') \<longrightarrow>
      a = a' \<and> cum < cum') \<and>
    (\<forall>j a cb cum d. j < length tr \<longrightarrow> tr ! j = (a, cb, cum, d) \<longrightarrow>
      (\<Sum>(x, y, z, d) \<leftarrow> take (Suc j) tr. if y = cb then unat d else 0) \<le> unat cum)"
proof -
  have "increasing tr" "paid_for tr"
    using cheque_inv_run [OF assms(4,1,2) refl assms(3)] by (cases st; auto simp: Let_def)+
  then show ?thesis by (fastforce simp: increasing_def sorted_wrt_iff_nth_less paid_for_def trace_amount_def)
qed

theorem relay_cheques_once_witness:
  "\<exists>st. relay_run demo_env demo_config demo_path 1000000000000 (Down []) demo_trace st \<and>
    (1 :: u128) < 3 \<and> (\<Sum>(x, y, z, d) \<leftarrow> take (Suc 1) demo_trace. if y = replicate 20 9 then unat d else 0) \<le> unat (3 :: u128)"
proof -
  obtain r where run: "relay_run demo_env demo_config demo_path 1000000000000 (Down []) demo_trace (Up r [])"
    using demo_relay_run by blast
  have ok: "serde_ok (env_serde demo_env)" by (simp add: demo_env_def serde_ok_number)
  note once = relay_cheques_once [OF ok demo_tmp hm_get_empty run]
  have "(1 :: u128) < 3"
    using conjunct1 [OF once, rule_format, of 0 1 "replicate 20 1" "replicate 20 9" 1 1 "replicate 20 1" 3 2] by simp
  moreover have "(\<Sum>(x, y, z, d) \<leftarrow> take (Suc 1) demo_trace. if y = replicate 20 9 then unat d else 0) \<le> unat (3 :: u128)"
    using conjunct2 [OF once, rule_format, of 1 "replicate 20 1" "replicate 20 9" 3 2] by simp
  ultimately show ?thesis using run by blast
qed

lemma relay_run_book:
  assumes "relay_run env c p line st tr st'" "serde_ok (env_serde env)" "with_extension_tmp p \<noteq> p" "hard_limits c line"
    and "st = Down fs" "hm_get fs p = None"
  shows "\<exists>b. book_run (unat line) book_empty (credited_nat tr) b \<and> implements env c p b st'"
  using assms
proof (induction rule: relay_run.induct)
  case start
  then show ?case using book_start by (force simp: credited_nat_def book_empty_def)
next
  case (step st tr st' new st'')
  then obtain b where b: "book_run (unat line) book_empty (credited_nat tr) b" "implements env c p b st'" by blast
  have "cheque_inv env p tr st'" using cheque_inv_run step by blast
  then obtain b' where "book_run (unat line) b (credited_nat new) b'" "implements env c p b' st''"
    using simulates_step [OF step(4,5,6,2) _ book_inv_run [OF b(1) book_inv_empty] b(2)] by blast
  then show ?case using book_run_trans [OF _ b(1)] by (auto simp: credited_nat_def)
qed

text \<open>
  C2. In hard mode the relay implements the book: every run of the machine, with its words, hash
  maps, handlers, files and crashes, is a run of the specification with the same credits, and
  the debts, the live reservations and the newest cheques it ends with are those of the book.
\<close>

theorem relay_refines_book:
  assumes "serde_ok (env_serde env)" "with_extension_tmp p \<noteq> p" "hm_get fs p = None"
    and "hard_mode c" "unat (price_plur_per_kib (params c)) < 2 ^ 64" "unat line < 2 ^ 127"
    and "relay_run env c p line (Down fs) tr st"
  shows "\<exists>b. book_run (unat line) book_empty (map (\<lambda>(a, cb, cum, d). (a, cb, unat cum, unat d)) tr) b \<and>
    (case st of
       Up r gs \<Rightarrow> let l = mt_ledger (rl_metered r) in
         (\<forall>a. unat (owed l a) = bk_owed b a) \<and> (\<forall>a. unat (reserved l a) = live b a) \<and>
         (\<forall>cb a. bk_held b cb = Some (a, unat (last_cumulative l a cb)) \<longleftrightarrow> held_cheque l a cb \<noteq> None)
     | Down fs' \<Rightarrow> bk_live b = {#} \<and> bk_saved b = (bk_owed b, bk_held b))"
proof -
  have hard: "hard_limits c line" using assms(4-6) by (simp add: hard_limits_def)
  obtain b where b: "book_run (unat line) book_empty (credited_nat tr) b" "implements env c p b st"
    using relay_run_book [OF assms(7,1,2) hard refl assms(3)] by blast
  have inv: "cheque_inv env p tr st" by (rule cheque_inv_run [OF assms(7,1,2) refl assms(3)])
  show ?thesis
  proof (cases st)
    case (Up r gs)
    then have "ledger_inv (mt_ledger (rl_metered r))" using inv by (simp add: Let_def)
    then show ?thesis
      using b by (auto simp: Up credited_nat_def Let_def owed_nat_def held_nat_def ledger_inv_def)
  next
    case (Down fs')
    then show ?thesis using b by (auto simp: credited_nat_def)
  qed
qed

theorem relay_refines_book_witness:
  "\<exists>b. book_run 1000000000000 book_empty [(replicate 20 1, replicate 20 9, 1, 1), (replicate 20 1, replicate 20 9, 3, 2)] b"
proof -
  obtain r where run: "relay_run demo_env demo_config demo_path 1000000000000 (Down []) demo_trace (Up r [])"
    using demo_relay_run by blast
  have ok: "serde_ok (env_serde demo_env)" by (simp add: demo_env_def serde_ok_number)
  show ?thesis
    using relay_refines_book [OF ok demo_tmp hm_get_empty _ _ _ run]
    by (auto simp: demo_config_def default_params_def PRICE_PLUR_PER_KIB_def)
qed

text \<open>
  C3. In hard mode no account ever owes or reserves more than the largest credit line the relay has
  signed, in any run; and reservations do not leak: what is reserved on an account is exactly the
  sum over its requests in flight.
\<close>

theorem relay_exposure_bounded:
  assumes "serde_ok (env_serde env)" "with_extension_tmp p \<noteq> p" "hm_get fs p = None"
    and "hard_mode c" "unat (price_plur_per_kib (params c)) < 2 ^ 64" "unat line < 2 ^ 127"
    and "relay_run env c p line (Down fs) tr (Up r gs)"
  shows "unat (owed (mt_ledger (rl_metered r)) a) + unat (reserved (mt_ledger (rl_metered r)) a) \<le> unat line \<and>
    unat (reserved (mt_ledger (rl_metered r)) a) = (\<Sum>(g, d) \<leftarrow> gs. if ad_account g = a then unat (ad_reserved_plur g) else 0)"
proof -
  have hard: "hard_limits c line" using assms(4-6) by (simp add: hard_limits_def)
  obtain b where b: "book_run (unat line) book_empty (credited_nat tr) b" "implements env c p b (Up r gs)"
    using relay_run_book [OF assms(7,1,2) hard refl assms(3)] by blast
  have "book_inv (unat line) b" by (rule book_inv_run [OF b(1) book_inv_empty])
  moreover have "bk_live b = image_mset guard_entry (mset gs)" using b(2) by (simp add: Let_def)
  moreover have "(\<Sum>(x, n) \<in># image_mset guard_entry (mset xs). if x = a then n else 0) =
      (\<Sum>(g, d) \<leftarrow> xs. if ad_account g = a then unat (ad_reserved_plur g) else 0)" for xs
    by (induction xs) (auto simp: guard_entry_def)
  ultimately have "live b a = (\<Sum>(g, d) \<leftarrow> gs. if ad_account g = a then unat (ad_reserved_plur g) else 0)" "book_inv (unat line) b"
    by (simp_all add: live_def)
  moreover have "unat (reserved (mt_ledger (rl_metered r)) a) = live b a" "bk_owed b a = unat (owed (mt_ledger (rl_metered r)) a)"
    using b(2) by (auto simp: Let_def owed_nat_def)
  ultimately show ?thesis by (simp add: book_inv_def) (metis)
qed

theorem relay_exposure_bounded_witness:
  "\<exists>r. relay_run demo_env demo_config demo_path 1000000000000 (Down []) demo_trace (Up r []) \<and>
     unat (owed (mt_ledger (rl_metered r)) (replicate 20 1)) \<le> 1000000000000 \<and> reserved (mt_ledger (rl_metered r)) (replicate 20 1) = 0"
proof -
  obtain r where run: "relay_run demo_env demo_config demo_path 1000000000000 (Down []) demo_trace (Up r [])"
    using demo_relay_run by blast
  have ok: "serde_ok (env_serde demo_env)" by (simp add: demo_env_def serde_ok_number)
  have h: "hard_mode demo_config" "unat (price_plur_per_kib (params demo_config)) < 2 ^ 64" "unat (1000000000000 :: u128) < 2 ^ 127"
    by (simp_all add: demo_config_def default_params_def PRICE_PLUR_PER_KIB_def)
  note e = relay_exposure_bounded [OF ok demo_tmp hm_get_empty h run, of "replicate 20 1"]
  show ?thesis using run e by (auto simp: word_unat_eq_iff)
qed

lemma adm_over_cap_eq:
  "adm_over_cap (fst (reserve l a n c)) = (c < saturating_add (owed l a) (saturating_add (reserved l a) n))"
  by (simp add: reserve_def Let_def account_outstanding_def owed_eq reserved_eq)

lemma half_line_floor:
  assumes "2 \<le> unat line"
  shows "2 * unat (eff_min_cheque_plur (effective p line)) \<le> unat line"
proof -
  have "unat (eff_min_cheque_plur (effective p line)) \<le> max (min (unat (settle_every_plur p)) (unat line div 2)) 1"
    by (simp add: effective_def Let_def unat_max unat_min unat_div)
  also have "\<dots> \<le> unat line div 2" using assms by simp
  finally show ?thesis by simp
qed



section \<open>Frames\<close>



end
